(* ===== verification/Redis_Prelude.thy ===== *)
theory Redis_Prelude
  imports Main "HOL-Library.Word" "HOL-Library.Monad_Syntax"
begin

text \<open>
  Shared vocabulary of the development: the machine types of the C sources, byte
  buffers with bounds-checked access (the model of the memory a pointer into one
  allocation can reach), the allocator's \<open>realloc\<close>, and the little-endian encoding
  of integers that the serialised structures (intset, ziplist) use.

  A read or write outside the buffer, a failed \<open>assert\<close> and a \<open>panic\<close> are all
  the value \<^term>\<open>None\<close>; a lemma that an operation returns \<^term>\<open>Some\<close> is
  therefore also a statement of memory safety.
\<close>

unbundle bit_operations_syntax

subsection \<open>Machine types\<close>

type_synonym u8 = "8 word"
type_synonym u16 = "16 word"
type_synonym u32 = "32 word"
type_synonym u64 = "64 word"

text \<open>\<open>int64_t\<close> and \<open>long long\<close>: the same 64 bits, read with \<^term>\<open>sint\<close>.\<close>

type_synonym i64 = "64 word"

type_synonym bytes = "u8 list"

text \<open>A string object: an integer in the pointer field, or an \<open>sds\<close> string, here its contents.\<close>

datatype string_robj = IntEnc i64 | StrEnc bytes

named_theorems mem_simps \<open>rewriting of bounds-checked buffer accesses\<close>
named_theorems le_simps \<open>rewriting of little-endian encodings\<close>

subsection \<open>Buffers\<close>

definition peek :: "'a list \<Rightarrow> nat \<Rightarrow> 'a option" where
  "peek b i = (if i < length b then Some (b ! i) else None)"

definition peeks :: "'a list \<Rightarrow> nat \<Rightarrow> nat \<Rightarrow> 'a list option" where
  "peeks b i n = (if i + n \<le> length b then Some (take n (drop i b)) else None)"

definition pokes :: "'a list \<Rightarrow> nat \<Rightarrow> 'a list \<Rightarrow> 'a list option" where
  "pokes b i xs =
     (if i + length xs \<le> length b
      then Some (take i b @ xs @ drop (i + length xs) b) else None)"

text \<open>\<open>memmove\<close> within one buffer: the source is read as a whole before the write.\<close>

definition memmove :: "'a list \<Rightarrow> nat \<Rightarrow> nat \<Rightarrow> nat \<Rightarrow> 'a list option" where
  "memmove b dst src n = do { xs \<leftarrow> peeks b src n; pokes b dst xs }"

text \<open>
  \<open>zrealloc\<close>: the old content up to the smaller size, then indeterminate bytes, given
  by the parameter \<open>junk\<close>. No theorem of the development fixes \<open>junk\<close>.
\<close>

definition realloc :: "(nat \<Rightarrow> 'a) \<Rightarrow> 'a list \<Rightarrow> nat \<Rightarrow> 'a list" where
  "realloc junk b n = take n b @ map junk [length b..<n]"

lemma length_realloc [simp]: "length (realloc junk b n) = n"
  by (simp add: realloc_def)

lemma realloc_shrink: "n \<le> length b \<Longrightarrow> realloc junk b n = take n b"
  by (simp add: realloc_def)

lemma realloc_prefix: "length b = n \<Longrightarrow> realloc junk (b @ z) n = b"
  by (simp add: realloc_def)

lemma realloc_grow: "length b \<le> n \<Longrightarrow> realloc junk b n = b @ map junk [length b..<n]"
  by (simp add: realloc_def)

lemma peek_Some [mem_simps]: "i < length b \<Longrightarrow> peek b i = Some (b ! i)"
  by (simp add: peek_def)

lemma peeks_Some [mem_simps]: "i + n \<le> length b \<Longrightarrow> peeks b i n = Some (take n (drop i b))"
  by (simp add: peeks_def)

lemma pokes_Some [mem_simps]:
  "i + length xs \<le> length b \<Longrightarrow> pokes b i xs = Some (take i b @ xs @ drop (i + length xs) b)"
  by (simp add: pokes_def)

lemma length_pokes: "pokes b i xs = Some b' \<Longrightarrow> length b' = length b"
  by (auto simp: pokes_def split: if_splits)

lemma length_peeks: "peeks b i n = Some xs \<Longrightarrow> length xs = n"
  by (auto simp: peeks_def split: if_splits)

text \<open>Accesses to a buffer whose content is known piecewise.\<close>

lemma peek_append_at [mem_simps]: "length a = i \<Longrightarrow> peek (a @ x # c) i = Some x"
  by (auto simp: peek_def)

lemma peeks_append_at [mem_simps]:
  "length a = i \<Longrightarrow> length xs = n \<Longrightarrow> peeks (a @ xs @ c) i n = Some xs"
  by (auto simp: peeks_def)

lemma peeks_append_end:
  "length a = i \<Longrightarrow> length xs = n \<Longrightarrow> peeks (a @ xs) i n = Some xs"
  by (auto simp: peeks_def)

lemma pokes_append_at [mem_simps]:
  "length a = i \<Longrightarrow> length xs = length ys \<Longrightarrow> pokes (a @ xs @ c) i ys = Some (a @ ys @ c)"
  by (auto simp: pokes_def)

lemma pokes_append_end:
  "length a = i \<Longrightarrow> length xs = length ys \<Longrightarrow> pokes (a @ xs) i ys = Some (a @ ys)"
  by (auto simp: pokes_def)

subsection \<open>Little-endian integers\<close>

definition le_bytes :: "nat \<Rightarrow> int \<Rightarrow> bytes" where
  "le_bytes n v = map (\<lambda>i. word_of_int (v div 256 ^ i)) [0..<n]"

definition le_uint :: "bytes \<Rightarrow> int" where
  "le_uint bs = horner_sum uint 256 bs"

definition le_nat :: "bytes \<Rightarrow> nat" where
  "le_nat bs = nat (le_uint bs)"

definition le_sint :: "bytes \<Rightarrow> int" where
  "le_sint bs = signed_take_bit (8 * length bs - 1) (le_uint bs)"

lemma length_le_bytes [simp]: "length (le_bytes n v) = n"
  by (simp add: le_bytes_def)

lemma le_bytes_0 [simp]: "le_bytes 0 v = []"
  by (simp add: le_bytes_def)

lemma upt_0_Suc: "[0..<Suc n] = 0 # map Suc [0..<n]"
  by (metis map_Suc_upt upt_conv_Cons zero_less_Suc)

lemma le_bytes_Suc: "le_bytes (Suc n) v = word_of_int v # le_bytes n (v div 256)"
  unfolding le_bytes_def upt_0_Suc by (simp add: comp_def zdiv_zmult2_eq)

lemma le_uint_Nil [simp]: "le_uint [] = 0"
  by (simp add: le_uint_def)

lemma le_uint_Cons: "le_uint (b # bs) = uint b + 256 * le_uint bs"
  by (simp add: le_uint_def)

lemma le_uint_nonneg [simp]: "0 \<le> le_uint bs"
  by (induction bs) (auto simp: le_uint_Cons)

lemma le_uint_less: "le_uint bs < 256 ^ length bs"
proof (induction bs)
  case (Cons b bs)
  have "uint b < 256" using uint_bounded [of b] by simp
  with Cons show ?case by (simp add: le_uint_Cons)
qed simp

lemma le_uint_le_bytes: "le_uint (le_bytes n v) = v mod 256 ^ n"
proof (induction n arbitrary: v)
  case (Suc n)
  have "le_uint (le_bytes (Suc n) v) = v mod 256 + 256 * ((v div 256) mod 256 ^ n)"
    using Suc by (simp add: le_bytes_Suc le_uint_Cons uint_word_of_int)
  also have "\<dots> = v mod (256 * 256 ^ n)"
    by (simp add: zmod_zmult2_eq)
  finally show ?case by simp
qed simp

lemma le_bytes_le_uint: "le_bytes (length bs) (le_uint bs) = bs"
proof (induction bs)
  case (Cons b bs)
  have "uint b < 256" using uint_bounded [of b] by simp
  then have "(uint b + 256 * le_uint bs) div 256 = le_uint bs" by simp
  moreover have "word_of_int (uint b + 256 * le_uint bs) = b"
  proof -
    have "take_bit 8 (256 * le_uint bs) = 0"
      using take_bit_push_bit [of 8 8 "le_uint bs"] by (simp add: push_bit_eq_mult mult.commute)
    then have "(word_of_int (256 * le_uint bs) :: u8) = 0"
      by (simp only: word_of_int_eq_0_iff) (simp add: take_bit_eq_0_iff)
    then have "(word_of_int (uint b + 256 * le_uint bs) :: u8) = word_of_int (uint b)"
      by (simp only: of_int_add) simp
    then show ?thesis by simp
  qed
  ultimately show ?case using Cons by (simp add: le_bytes_Suc le_uint_Cons)
qed simp

lemma le_uint_roundtrip [le_simps]:
  "0 \<le> v \<Longrightarrow> v < 256 ^ n \<Longrightarrow> le_uint (le_bytes n v) = v"
  by (simp add: le_uint_le_bytes)

lemma le_nat_roundtrip [le_simps]:
  "v < 256 ^ n \<Longrightarrow> le_nat (le_bytes n (int v)) = v"
proof -
  assume "v < 256 ^ n"
  then have "int v < 256 ^ n" by (metis of_nat_less_iff of_nat_numeral of_nat_power)
  then show ?thesis by (simp add: le_nat_def le_uint_roundtrip)
qed

lemma le_nat_less: "le_nat bs < 256 ^ length bs"
  using le_uint_less [of bs] by (simp add: le_nat_def nat_less_iff)

lemma int_le_nat [simp]: "int (le_nat bs) = le_uint bs"
  by (simp add: le_nat_def)

lemma le_bytes_le_nat: "length bs = n \<Longrightarrow> le_bytes n (int (le_nat bs)) = bs"
  using le_bytes_le_uint [of bs] by simp

text \<open>
  Storing a signed value at a width that holds it and reading it back with the sign
  extended gives the value.
\<close>

lemma le_sint_roundtrip [le_simps]:
  assumes "0 < n" "- (2 ^ (8 * n - 1)) \<le> v" "v < 2 ^ (8 * n - 1)"
  shows "le_sint (le_bytes n v) = v"
proof -
  have p: "(256::int) ^ n = 2 ^ (8 * n)" by (simp add: power_mult)
  have "le_sint (le_bytes n v) = signed_take_bit (8 * n - 1) (take_bit (8 * n) v)"
    by (simp add: le_sint_def le_uint_le_bytes p take_bit_eq_mod)
  also have "\<dots> = signed_take_bit (8 * n - 1) v"
    using assms(1) by (simp add: signed_take_bit_take_bit) linarith
  also have "\<dots> = v" using assms(2,3) by (rule signed_take_bit_int_eq_self)
  finally show ?thesis .
qed

lemma le_sint_bounds:
  assumes "0 < length bs"
  shows "- (2 ^ (8 * length bs - 1)) \<le> le_sint bs" "le_sint bs < 2 ^ (8 * length bs - 1)"
  by (simp_all add: le_sint_def)

subsection \<open>Lists\<close>

lemma nth_append_eq [simp]: "length a = i \<Longrightarrow> (a @ x # c) ! i = x"
  by auto

lemma length_append_split_ex:
  assumes "length xs = m + n"
  shows "\<exists>ys zs. xs = ys @ zs \<and> length ys = m \<and> length zs = n"
  using assms by (intro exI [of _ "take m xs"] exI [of _ "drop m xs"]) simp

lemma list_update_as_append:
  "i < length xs \<Longrightarrow> xs[i := v] = take i xs @ v # drop (Suc i) xs"
  by (rule upd_conv_take_nth_drop)

lemma option_eqI: "(\<And>v. a = Some v \<longleftrightarrow> b = Some v) \<Longrightarrow> a = b"
  by (metis option.exhaust)

lemma concat_split_nth:
  "i < length xs \<Longrightarrow> concat xs = concat (take i xs) @ xs ! i @ concat (drop (Suc i) xs)"
  by (metis append_assoc concat.simps(2) concat_append id_take_nth_drop)

end
