(* ===== verification/Util.thy ===== *)
theory Util
  imports Redis_Prelude
begin

text \<open>
  The number formatting and parsing routines of \<open>util.c\<close>: \<open>digits10\<close>, \<open>sdigits10\<close>,
  \<open>ll2string\<close>, \<open>string2ll\<close>, \<open>string2l\<close>. Characters are bytes. \<open>ll2string\<close>
  writes into a caller-supplied buffer and is modelled on that buffer;
  \<open>string2ll\<close> is modelled with its 64-bit accumulator, whose overflow it tests.
  The reference definition is the canonical decimal representation \<open>dec_int\<close>.
\<close>

subsection \<open>Definitions\<close>

definition bytes_of :: "string \<Rightarrow> bytes" where
  "bytes_of s = map of_char s"

abbreviation LLONG_MIN :: i64 where "LLONG_MIN \<equiv> 0x8000000000000000"
abbreviation LLONG_MAX :: u64 where "LLONG_MAX \<equiv> 0x7FFFFFFFFFFFFFFF"
abbreviation ULLONG_MAX :: u64 where "ULLONG_MAX \<equiv> 0xFFFFFFFFFFFFFFFF"

fun digits10 :: "nat \<Rightarrow> nat" where
  "digits10 v =
     (if v < 10 then 1
      else if v < 100 then 2
      else if v < 1000 then 3
      else if v < 1000000000000 then
        (if v < 100000000 then
           (if v < 1000000 then
              (if v < 10000 then 4 else 5 + of_bool (v \<ge> 100000))
            else 7 + of_bool (v \<ge> 10000000))
         else if v < 10000000000 then 9 + of_bool (v \<ge> 1000000000)
         else 11 + of_bool (v \<ge> 100000000000))
      else 12 + digits10 (v div 1000000000000))"

text \<open>The magnitude of a signed value as an unsigned one, \<open>LLONG_MIN\<close> apart.\<close>

definition ll_abs :: "i64 \<Rightarrow> u64" where
  "ll_abs v = (if v \<noteq> LLONG_MIN then - v else LLONG_MAX + 1)"

definition sdigits10 :: "i64 \<Rightarrow> nat" where
  "sdigits10 v =
     (if sint v < 0 then digits10 (unat (ll_abs v)) + 1 else digits10 (unat v))"

definition digit_table :: bytes where
  "digit_table = bytes_of
     (''0001020304050607080910111213141516171819'' @
      ''2021222324252627282930313233343536373839'' @
      ''4041424344454647484950515253545556575859'' @
      ''6061626364656667686970717273747576777879'' @
      ''8081828384858687888990919293949596979899'')"

text \<open>A store \<open>dst[i] = c\<close>; an index below the buffer is as wrong as one above it.\<close>

definition put :: "bytes \<Rightarrow> int \<Rightarrow> u8 \<Rightarrow> bytes option" where
  "put dst i c = (if 0 \<le> i then pokes dst (nat i) [c] else None)"

fun ll2string_loop :: "bytes \<Rightarrow> int \<Rightarrow> nat \<Rightarrow> (bytes \<times> int \<times> nat) option" where
  "ll2string_loop dst next value =
     (if value \<ge> 100 then do {
        let i = (value mod 100) * 2;
        dst \<leftarrow> put dst next (digit_table ! (i + 1));
        dst \<leftarrow> put dst (next - 1) (digit_table ! i);
        ll2string_loop dst (next - 2) (value div 100) }
      else Some (dst, next, value))"

definition ll2string_last :: "bytes \<Rightarrow> int \<Rightarrow> nat \<Rightarrow> bytes option" where
  "ll2string_last dst next value =
     (if value < 10 then put dst next (48 + of_nat value)
      else do {
        let i = value * 2;
        dst \<leftarrow> put dst next (digit_table ! (i + 1));
        put dst (next - 1) (digit_table ! i) })"

definition ll2string :: "bytes \<Rightarrow> nat \<Rightarrow> i64 \<Rightarrow> (nat \<times> bytes) option" where
  "ll2string dst dstlen svalue = do {
     let value = unat (if sint svalue < 0 then ll_abs svalue else svalue);
     let negative = sint svalue < 0;
     let len = digits10 value + of_bool negative;
     if len \<ge> dstlen then Some (0, dst) else do {
       dst \<leftarrow> put dst (int len) 0;
       (dst, next, value) \<leftarrow> ll2string_loop dst (int len - 1) value;
       dst \<leftarrow> ll2string_last dst next value;
       dst \<leftarrow> (if negative then put dst 0 45 else Some dst);
       Some (len, dst) } }"

fun string2ll_loop :: "u64 \<Rightarrow> bytes \<Rightarrow> (u64 \<times> bytes) option" where
  "string2ll_loop v [] = Some (v, [])"
| "string2ll_loop v (c # p) =
     (if 48 \<le> c \<and> c \<le> 57 then
        if v > ULLONG_MAX div 10 then None
        else if v * 10 > ULLONG_MAX - ucast (c - 48) then None
        else string2ll_loop (v * 10 + ucast (c - 48)) p
      else Some (v, c # p))"

text \<open>After the optional sign: the first digit is 1 to 9, then the loop, then the range.\<close>

definition string2ll_tail :: "bool \<Rightarrow> bytes \<Rightarrow> i64 option" where
  "string2ll_tail negative p =
     (case p of
        [] \<Rightarrow> None
      | c # p' \<Rightarrow>
          if 49 \<le> c \<and> c \<le> 57 then
            (case string2ll_loop (ucast (c - 48)) p' of
               None \<Rightarrow> None
             | Some (v, rest) \<Rightarrow>
                 if rest \<noteq> [] then None
                 else if negative then
                   (if v > - (LLONG_MIN + 1) + 1 then None else Some (- v))
                 else (if v > LLONG_MAX then None else Some v))
          else None)"

definition string2ll :: "bytes \<Rightarrow> i64 option" where
  "string2ll s =
     (case s of
        [] \<Rightarrow> None
      | c # p \<Rightarrow>
          if s = [48] then Some 0
          else if c = 45 then string2ll_tail True p
          else string2ll_tail False s)"

text \<open>\<open>long\<close> has 64 bits here, so the range test of \<open>string2l\<close> never fails.\<close>

definition string2l :: "bytes \<Rightarrow> i64 option" where
  "string2l s =
     (case string2ll s of
        None \<Rightarrow> None
      | Some llval \<Rightarrow>
          if sint llval < - (2 ^ 63) \<or> sint llval > 2 ^ 63 - 1 then None else Some llval)"

text \<open>The reference: canonical decimal digits, and a sign.\<close>

fun dec :: "nat \<Rightarrow> bytes" where
  "dec n = (if n < 10 then [48 + of_nat n] else dec (n div 10) @ [48 + of_nat (n mod 10)])"

definition dec_int :: "int \<Rightarrow> bytes" where
  "dec_int v = (if v < 0 then 45 # dec (nat (- v)) else dec (nat v))"

declare digits10.simps [simp del] ll2string_loop.simps [simp del] dec.simps [simp del]

subsection \<open>Decimal representation\<close>

lemma dec_small: "n < 10 \<Longrightarrow> dec n = [48 + of_nat n]"
  by (subst dec.simps) simp

lemma dec_step: "10 \<le> n \<Longrightarrow> dec n = dec (n div 10) @ [48 + of_nat (n mod 10)]"
  by (subst dec.simps) simp

lemma dec_step2:
  assumes "100 \<le> n"
  shows "dec n = dec (n div 100) @ [48 + of_nat (n mod 100 div 10), 48 + of_nat (n mod 10)]"
proof -
  have "10 \<le> n div 10" using assms by simp
  moreover have "n div 10 mod 10 = n mod 100 div 10"
    using mod_mult2_eq [of n 10 10] by simp
  moreover have "n div 10 div 10 = n div 100"
    using div_mult2_eq [of n 10 10] by simp
  ultimately show ?thesis
    using assms dec_step [of n] dec_step [of "n div 10"] by simp
qed

lemma dec_two: "10 \<le> n \<Longrightarrow> n < 100 \<Longrightarrow> dec n = [48 + of_nat (n div 10), 48 + of_nat (n mod 10)]"
  by (simp add: dec_step dec_small)

lemma length_dec_pos: "0 < length (dec n)"
  by (subst dec.simps) simp

lemma length_dec_bounds:
  "n < 10 ^ length (dec n) \<and> (0 < n \<longrightarrow> 10 ^ (length (dec n) - 1) \<le> n)"
proof (induction n rule: dec.induct)
  case (1 n)
  show ?case
  proof (cases "n < 10")
    case False
    then have ih: "n div 10 < 10 ^ length (dec (n div 10))"
      "10 ^ (length (dec (n div 10)) - 1) \<le> n div 10"
      using 1 by auto
    obtain k where k: "length (dec (n div 10)) = Suc k"
      using length_dec_pos gr0_implies_Suc by blast
    have "n < 10 * 10 ^ length (dec (n div 10))" using ih(1) by linarith
    moreover have "10 * 10 ^ k \<le> n" using ih(2) k by simp
    ultimately show ?thesis using False k by (simp add: dec_step)
  qed (auto simp: dec_small)
qed

lemma length_dec_unique:
  assumes "10 ^ k \<le> n" "n < 10 ^ Suc k"
  shows "length (dec n) = Suc k"
proof -
  have "0 < n" using assms(1) by (cases n) auto
  then have b: "n < 10 ^ length (dec n)" "10 ^ (length (dec n) - 1) \<le> n"
    using length_dec_bounds [of n] by auto
  have "(10::nat) ^ (length (dec n) - 1) < 10 ^ Suc k" using b(2) assms(2) by linarith
  then have "length (dec n) - 1 < Suc k" by (rule power_less_imp_less_exp [rotated]) simp
  moreover have "(10::nat) ^ k < 10 ^ length (dec n)" using b(1) assms(1) by linarith
  then have "k < length (dec n)" by (rule power_less_imp_less_exp [rotated]) simp
  ultimately show ?thesis by linarith
qed

lemma digits10_eq: "digits10 v = length (dec v)"
proof (induction v rule: digits10.induct)
  case (1 v)
  show ?case
  proof (cases "v < 1000000000000")
    case True
    have u: "length (dec v) = Suc k" if "10 ^ k \<le> v" "v < 10 ^ Suc k" for k
      using that by (rule length_dec_unique)
    show ?thesis using True
      u [of 1] u [of 2] u [of 3] u [of 4] u [of 5] u [of 6] u [of 7] u [of 8] u [of 9]
      u [of 10] u [of 11]
      by (subst digits10.simps) (auto simp: dec_small not_less)
  next
    case False
    let ?m = "v div 10 ^ 12"
    have m: "0 < ?m" using False by (simp add: div_greater_zero_iff)
    obtain k where k: "length (dec ?m) = Suc k" "10 ^ k \<le> ?m" "?m < 10 ^ Suc k"
      using length_dec_bounds [of ?m] m length_dec_pos [of ?m]
      by (metis Suc_pred' diff_Suc_1)
    have "10 ^ k * 10 ^ 12 \<le> v"
      using k(2) by (metis div_times_less_eq_dividend le_trans mult_le_mono1)
    moreover have "v < 10 ^ Suc k * 10 ^ 12"
      using k(3) by (simp add: div_less_iff_less_mult)
    ultimately have "length (dec v) = Suc (k + 12)"
      by (intro length_dec_unique) (simp_all add: power_add)
    moreover have "digits10 v = 12 + digits10 ?m"
      using False by (subst digits10.simps) simp
    ultimately show ?thesis using 1 False k(1) by simp
  qed
qed

text \<open>The unsigned magnitude used for negative numbers is right at every value.\<close>

lemma ll_abs_neg: "ll_abs v = - v"
  by (simp add: ll_abs_def)

lemma unat_magnitude:
  fixes v :: i64
  shows "unat (if sint v < 0 then ll_abs v else v) = nat \<bar>sint v\<bar>"
proof -
  have b: "- (2 ^ 63) \<le> sint v" "sint v < 2 ^ 63"
    using sint_greater_eq [of v] sint_less [of v] by simp_all
  have "unat (word_of_int k :: i64) = nat k" if "0 \<le> k" "k \<le> 2 ^ 63" for k
    using that by (simp add: unat_eq_nat_uint uint_word_of_int)
  from this [of "\<bar>sint v\<bar>"] b have "unat (word_of_int \<bar>sint v\<bar> :: i64) = nat \<bar>sint v\<bar>" by auto
  then show ?thesis by (auto simp: ll_abs_neg abs_if)
qed

lemma sdigits10_eq: "sdigits10 v = length (dec_int (sint v))"
  using unat_magnitude [of v]
  by (auto simp: sdigits10_def dec_int_def digits10_eq abs_if split: if_splits)

subsection \<open>Formatting\<close>

lemma digit_table_pairs:
  "digit_table = concat (map (\<lambda>j. [48 + of_nat (j div 10), 48 + of_nat (j mod 10)]) [0..<100])"
  by code_simp

lemma nth_concat_pairs:
  "j < length xs \<Longrightarrow> concat (map (\<lambda>x. [f x, g x]) xs) ! (2 * j) = f (xs ! j) \<and>
     concat (map (\<lambda>x. [f x, g x]) xs) ! Suc (2 * j) = g (xs ! j)"
proof (induction xs arbitrary: j)
  case (Cons x xs)
  then show ?case by (cases j) auto
qed simp

lemma digit_table_nth:
  assumes "j < 100"
  shows "digit_table ! (j * 2) = 48 + of_nat (j div 10)"
    "digit_table ! Suc (j * 2) = 48 + of_nat (j mod 10)"
  using nth_concat_pairs [of j "[0..<100]" "\<lambda>j. 48 + of_nat (j div 10) :: u8" "\<lambda>j. 48 + of_nat (j mod 10)"]
    assms unfolding digit_table_pairs by (simp_all add: mult.commute)

lemma put_append [mem_simps]:
  "i = int (length a) \<Longrightarrow> put (a @ x # c) i y = Some (a @ y # c)"
  using pokes_append_at [of a "length a" "[x]" "[y]" c] by (simp add: put_def)

lemma put_two:
  assumes "i = int (length a) + 1"
  shows "do { d \<leftarrow> put (a @ x # y # c) i v; put d (i - 1) u } = Some (a @ u # v # c)"
  using assms put_append [of i "a @ [x]" y c v] put_append [of "i - 1" a x "v # c" u] by simp

lemma length_Suc_Suc_snoc:
  assumes "length xs = Suc (Suc n)"
  obtains ys x y where "xs = ys @ [x, y]" "length ys = n"
proof -
  have "xs = butlast (butlast xs) @ [last (butlast xs), last xs]"
    using assms by (cases xs rule: rev_cases; cases "butlast xs" rule: rev_cases)
      (auto simp: butlast_append)
  with assms that show ?thesis by (metis diff_Suc_1 length_butlast)
qed

lemma ll2string_digits:
  assumes "length gap = length (dec m)"
  shows "do { (d, n, v) \<leftarrow> ll2string_loop (a @ gap @ t) (int (length a + length gap) - 1) m;
             ll2string_last d n v } = Some (a @ dec m @ t)"
  using assms
proof (induction m arbitrary: gap t rule: less_induct)
  case (less m)
  consider "m < 10" | "10 \<le> m" "m < 100" | "100 \<le> m" by linarith
  then show ?case
  proof cases
    case 1
    then obtain x where "gap = [x]" using less.prems by (auto simp: dec_small length_Suc_conv)
    with 1 show ?thesis
      by (simp add: ll2string_loop.simps [of _ _ m] ll2string_last_def dec_small put_append)
  next
    case 2
    then obtain x y where "gap = [x, y]"
      using less.prems by (auto simp: dec_two length_Suc_conv numeral_2_eq_2)
    with 2 show ?thesis using put_two [of "1 + int (length a)" a x y t]
      by (simp add: ll2string_loop.simps [of _ _ m] ll2string_last_def dec_two digit_table_nth)
  next
    case 3
    let ?m = "m div 100"
    have "length gap = Suc (Suc (length (dec ?m)))" using less.prems 3 by (simp add: dec_step2)
    then obtain g x y where g: "gap = g @ [x, y]" "length g = length (dec ?m)"
      by (rule length_Suc_Suc_snoc)
    let ?i = "int (length a + length gap) - 1"
    let ?u = "48 + of_nat (m mod 100 div 10)" and ?v = "48 + of_nat (m mod 100 mod 10)"
    have p: "do { d \<leftarrow> put (a @ gap @ t) ?i ?v; put d (?i - 1) ?u } = Some (a @ g @ ?u # ?v # t)"
      using put_two [of ?i "a @ g" x y t ?v ?u] g by simp
    have "ll2string_loop (a @ gap @ t) ?i m = do { d \<leftarrow> put (a @ gap @ t) ?i ?v;
        d \<leftarrow> put d (?i - 1) ?u; ll2string_loop d (?i - 2) ?m }"
      using 3 by (subst ll2string_loop.simps) (simp add: digit_table_nth)
    also have "\<dots> = ll2string_loop (a @ g @ ?u # ?v # t) (?i - 2) ?m"
      using p by (auto split: Option.bind_split_asm)
    also have "?i - 2 = int (length a + length g) - 1" using g by simp
    finally show ?thesis
      using less.IH [of ?m g "?u # ?v # t"] g 3 by (simp add: dec_step2 mod_mod_cancel)
  qed
qed

text \<open>
  \<open>ll2string\<close> writes the decimal representation and a terminating zero at the start of
  the buffer and leaves the rest of it alone; a buffer too short is left unchanged and
  the result is 0.
\<close>

lemma ll2string_fits:
  assumes "length (dec_int (sint v)) < dstlen" "dstlen \<le> length dst"
  shows "ll2string dst dstlen v =
    Some (length (dec_int (sint v)),
          dec_int (sint v) @ 0 # drop (Suc (length (dec_int (sint v)))) dst)"
proof -
  define m where "m = nat \<bar>sint v\<bar>"
  define L where "L = length (dec_int (sint v))"
  let ?neg = "sint v < 0"
  have L: "L = length (dec m) + of_bool ?neg" "L < dstlen" "L < length dst"
    using assms by (auto simp: L_def m_def dec_int_def)
  have put0: "put dst (int L) 0 = Some (take L dst @ 0 # drop (Suc L) dst)"
    using L(3) by (simp add: put_def pokes_def)
  define a where "a = take (of_bool ?neg) (take L dst)"
  define gap where "gap = drop (of_bool ?neg) (take L dst)"
  have split: "take L dst = a @ gap" "length a = of_bool ?neg" "length gap = length (dec m)"
    unfolding a_def gap_def by (simp_all only: append_take_drop_id) (use L in auto)
  have "int L - 1 = int (length a + length gap) - 1" using split L(1) by simp
  then have body: "do { (d, n, x) \<leftarrow> ll2string_loop (take L dst @ 0 # drop (Suc L) dst) (int L - 1) m;
      ll2string_last d n x } = Some (a @ dec m @ 0 # drop (Suc L) dst)"
    using ll2string_digits [of gap m a "0 # drop (Suc L) dst"] split by simp
  then obtain d n x where dnx:
      "ll2string_loop (take L dst @ 0 # drop (Suc L) dst) (int L - 1) m = Some (d, n, x)"
      "ll2string_last d n x = Some (a @ dec m @ 0 # drop (Suc L) dst)"
    by (auto simp: bind_eq_Some_conv)
  have sign: "(if ?neg then put (a @ dec m @ 0 # drop (Suc L) dst) 0 45
      else Some (a @ dec m @ 0 # drop (Suc L) dst)) = Some (dec_int (sint v) @ 0 # drop (Suc L) dst)"
  proof (cases ?neg)
    case True
    then obtain y where "a = [y]" using split by (auto simp: length_Suc_conv)
    with True show ?thesis using put_append [of 0 "[]" y] by (simp add: dec_int_def m_def)
  next
    case False
    with split show ?thesis by (simp add: dec_int_def m_def)
  qed
  have val: "unat (if ?neg then ll_abs v else v) = m" using unat_magnitude [of v] by (simp add: m_def)
  have "digits10 m + of_bool ?neg = L" using L(1) by (simp add: digits10_eq)
  then have "ll2string dst dstlen v = Some (L, dec_int (sint v) @ 0 # drop (Suc L) dst)"
    using put0 dnx sign L(2) val by (simp add: ll2string_def Let_def)
  then show ?thesis by (simp add: L_def)
qed

lemma ll2string_too_long:
  "dstlen \<le> length (dec_int (sint v)) \<Longrightarrow> ll2string dst dstlen v = Some (0, dst)"
  using unat_magnitude [of v]
  by (auto simp: ll2string_def dec_int_def digits10_eq abs_if split: if_splits)

subsection \<open>Parsing\<close>

definition is_digit :: "u8 \<Rightarrow> bool" where
  "is_digit c \<longleftrightarrow> 48 \<le> c \<and> c \<le> 57"

fun dval :: "nat \<Rightarrow> bytes \<Rightarrow> nat" where
  "dval v [] = v"
| "dval v (c # p) = dval (v * 10 + unat (c - 48)) p"

lemma dval_snoc: "dval v (p @ [c]) = dval v p * 10 + unat (c - 48)"
  by (induction p arbitrary: v) auto

lemma dval_ge: "v \<le> dval v p"
proof (induction p arbitrary: v)
  case (Cons c p)
  show ?case using Cons [of "v * 10 + unat (c - 48)"] by simp
qed simp

lemma digit_value: "is_digit c \<Longrightarrow> unat (c - 48) < 10 \<and> 48 + of_nat (unat (c - 48)) = c"
  by (auto simp: is_digit_def word_le_nat_alt unat_sub)

lemma digit_of_value: "d < 10 \<Longrightarrow> is_digit (48 + of_nat d) \<and> unat (48 + of_nat d - 48 :: u8) = d"
  by (auto simp: is_digit_def word_le_nat_alt unat_word_ariths unat_of_nat)

text \<open>The accumulator either holds the exact value or the loop has reported overflow.\<close>

lemma string2ll_loop_step:
  assumes "is_digit c"
  shows "(v > ULLONG_MAX div 10 \<or> v * 10 > ULLONG_MAX - ucast (c - 48)) \<longleftrightarrow>
      2 ^ 64 \<le> unat v * 10 + unat (c - 48)"
    and "unat v * 10 + unat (c - 48) < 2 ^ 64 \<Longrightarrow>
      unat (v * 10 + ucast (c - 48) :: u64) = unat v * 10 + unat (c - 48)"
proof -
  let ?d = "ucast (c - 48) :: u64"
  have d: "unat ?d = unat (c - 48)" "unat (c - 48) < 10"
    using digit_value [OF assms] by (simp_all add: unsigned_ucast_eq take_bit_nat_eq_self)
  have lim: "unat (ULLONG_MAX - ?d) = 2 ^ 64 - 1 - unat ?d"
    using d by (subst unat_sub) (auto simp: word_le_nat_alt)
  have mul: "unat (v * 10) = unat v * 10" if "unat v * 10 < 2 ^ 64"
    using that by (simp add: unat_word_ariths)
  have big: "v > ULLONG_MAX div 10 \<longleftrightarrow> 2 ^ 64 \<le> unat v * 10"
    by (simp add: word_less_nat_alt unat_div) linarith
  show "(v > ULLONG_MAX div 10 \<or> v * 10 > ULLONG_MAX - ?d) \<longleftrightarrow>
      2 ^ 64 \<le> unat v * 10 + unat (c - 48)"
    using mul lim d unfolding big
    by (cases "unat v * 10 < 2 ^ 64") (auto simp: word_less_nat_alt)
  show "unat (v * 10 + ?d) = unat v * 10 + unat (c - 48)"
    if "unat v * 10 + unat (c - 48) < 2 ^ 64"
    using that d mul by (simp add: unat_word_ariths)
qed

lemma string2ll_loop_iff:
  "string2ll_loop v p = Some (w, []) \<longleftrightarrow>
     (\<forall>c \<in> set p. is_digit c) \<and> dval (unat v) p < 2 ^ 64 \<and> w = of_nat (dval (unat v) p)"
proof (induction p arbitrary: v)
  case Nil
  show ?case using unsigned_less [of v] by auto
next
  case (Cons c p)
  show ?case
  proof (cases "is_digit c")
    case d: True
    show ?thesis
    proof (cases "unat v * 10 + unat (c - 48) < 2 ^ 64")
      case True
      then show ?thesis
        using d Cons [of "v * 10 + ucast (c - 48)"] string2ll_loop_step [OF d, of v]
        by (simp add: is_digit_def)
    next
      case False
      then have "\<not> dval (unat v) (c # p) < 2 ^ 64"
        using dval_ge [of "unat v * 10 + unat (c - 48)" p] by simp
      with False show ?thesis
        using d string2ll_loop_step [OF d, of v] by (auto simp: is_digit_def)
    qed
  qed (auto simp: is_digit_def)
qed

lemma dec_snoc:
  assumes "0 < n" "d < 10"
  shows "dec (n * 10 + d) = dec n @ [48 + of_nat d]"
  using assms dec_step [of "n * 10 + d"] by simp

lemma dec_dval:
  assumes "49 \<le> c" "c \<le> 57" "\<forall>c \<in> set p. is_digit c"
  shows "dec (dval (unat (c - 48)) p) = c # p"
  using assms(3)
proof (induction p rule: rev_induct)
  case Nil
  have "is_digit c" using assms(1,2) by (auto simp: is_digit_def word_le_nat_alt)
  then show ?case using digit_value [of c] by (simp add: dec_small)
next
  case (snoc d p)
  have "0 < unat (c - 48)" using assms(1) by (auto simp: word_le_nat_alt unat_sub)
  then have "0 < dval (unat (c - 48)) p" using dval_ge [of "unat (c - 48)" p] by linarith
  with snoc digit_value [of d] show ?case by (simp add: dval_snoc dec_snoc)
qed

lemma dec_canonical:
  assumes "0 < n"
  obtains c p where "dec n = c # p" "49 \<le> c" "c \<le> 57" "\<forall>c \<in> set p. is_digit c"
    "dval (unat (c - 48)) p = n"
proof -
  have "\<exists>c p. dec n = c # p \<and> 49 \<le> c \<and> c \<le> 57 \<and> (\<forall>c \<in> set p. is_digit c) \<and>
      dval (unat (c - 48)) p = n" using assms
  proof (induction n rule: dec.induct)
    case (1 n)
    show ?case
    proof (cases "n < 10")
      case True
      with 1 show ?thesis using digit_of_value [of n]
        by (auto simp: dec_small word_le_nat_alt unat_word_ariths unat_of_nat)
    next
      case False
      then obtain c p where "dec (n div 10) = c # p" "49 \<le> c" "c \<le> 57"
          "\<forall>c \<in> set p. is_digit c" "dval (unat (c - 48)) p = n div 10"
        using 1 by (auto simp: div_greater_zero_iff)
      then show ?thesis using False digit_of_value [of "n mod 10"]
        by (intro exI [of _ c] exI [of _ "p @ [48 + of_nat (n mod 10)]"])
          (auto simp: dec_step dval_snoc)
    qed
  qed
  then show ?thesis using that by blast
qed

text \<open>
  The parser accepts exactly the canonical decimal strings of the values of \<open>long long\<close>.
\<close>

lemma ll_range_tests:
  fixes w :: u64
  assumes "w = of_nat n" "n < 2 ^ 64"
  shows "w > - (LLONG_MIN + 1) + 1 \<longleftrightarrow> 2 ^ 63 < n" "w > LLONG_MAX \<longleftrightarrow> 2 ^ 63 - 1 < n"
  using assms by (simp_all add: word_less_nat_alt unat_of_nat)

lemma string2ll_tail_Cons:
  assumes "49 \<le> c" "c \<le> 57"
  shows "string2ll_tail neg (c # p) = Some v \<longleftrightarrow>
     (\<forall>c \<in> set p. is_digit c) \<and>
     (let n = dval (unat (c - 48)) p in
        n \<le> (if neg then 2 ^ 63 else 2 ^ 63 - 1) \<and> v = (if neg then - of_nat n else of_nat n))"
proof -
  let ?n = "dval (unat (c - 48)) p"
  have u: "unat (ucast (c - 48) :: u64) = unat (c - 48)"
  proof -
    have "unat (c - 48) < 2 ^ LENGTH(8)" by (rule unsigned_less)
    then show ?thesis by (simp add: unsigned_ucast_eq take_bit_nat_eq_self)
  qed
  have loop: "string2ll_loop (ucast (c - 48)) p = Some (w, []) \<longleftrightarrow>
      (\<forall>c \<in> set p. is_digit c) \<and> ?n < 2 ^ 64 \<and> w = of_nat ?n" for w
    using string2ll_loop_iff [of "ucast (c - 48)" p w] by (simp add: u)
  show ?thesis
    using assms loop ll_range_tests [of _ ?n]
    by (fastforce simp: string2ll_tail_def Let_def not_less split: option.splits prod.splits if_splits)
qed

lemma string2ll_tail_iff:
  "string2ll_tail neg p = Some v \<longleftrightarrow>
     (\<exists>n. 0 < n \<and> p = dec n \<and> n \<le> (if neg then 2 ^ 63 else 2 ^ 63 - 1) \<and>
        v = (if neg then - of_nat n else of_nat n))"
  (is "?L \<longleftrightarrow> ?R")
proof
  assume L: ?L
  then obtain c q where p: "p = c # q" "49 \<le> c" "c \<le> 57"
    by (auto simp: string2ll_tail_def split: list.splits if_splits)
  let ?n = "dval (unat (c - 48)) q"
  have "0 < unat (c - 48)" using p(2) by (auto simp: word_le_nat_alt unat_sub)
  then have "0 < ?n" using dval_ge [of "unat (c - 48)" q] by linarith
  then show ?R using L p string2ll_tail_Cons [of c neg q v] dec_dval [of c q]
    by (auto simp: Let_def intro!: exI [of _ ?n])
next
  assume ?R
  then obtain n where n: "0 < n" "p = dec n" "n \<le> (if neg then 2 ^ 63 else 2 ^ 63 - 1)"
      "v = (if neg then - of_nat n else of_nat n)" by blast
  from n(1) obtain c q where "dec n = c # q" "49 \<le> c" "c \<le> 57" "\<forall>c \<in> set q. is_digit c"
    "dval (unat (c - 48)) q = n" by (rule dec_canonical)
  then show ?L using n by (simp add: string2ll_tail_Cons Let_def)
qed

lemma sint_of_nat_signed:
  "n < 2 ^ 63 \<Longrightarrow> sint (of_nat n :: i64) = int n"
  "n \<le> 2 ^ 63 \<Longrightarrow> sint (- of_nat n :: i64) = - int n"
proof -
  have s: "sint (word_of_int k :: i64) = k" if "- (2 ^ 63) \<le> k" "k < 2 ^ 63" for k
    using that by (simp add: sint_sbintrunc' signed_take_bit_int_eq_self)
  show "sint (of_nat n :: i64) = int n" if "n < 2 ^ 63"
    using that s [of "int n"] by simp
  show "sint (- of_nat n :: i64) = - int n" if "n \<le> 2 ^ 63"
    using that s [of "- int n"] by simp
qed

lemma word_eq_sint_iff: "(v :: i64) = w \<longleftrightarrow> sint v = sint w"
  by (auto intro: signed_word_eqI)

lemma dec_first: "0 < n \<Longrightarrow> \<exists>c p. dec n = c # p \<and> c \<noteq> 45 \<and> c \<noteq> 48"
  by (erule dec_canonical) (auto simp: word_le_nat_alt)

lemma string2ll_dec_int: "string2ll (dec_int (sint v)) = Some v"
proof -
  have b: "- (2 ^ 63) \<le> sint v" "sint v < 2 ^ 63"
    using sint_greater_eq [of v] sint_less [of v] by simp_all
  consider "sint v = 0" | "0 < sint v" | "sint v < 0" by linarith
  then show ?thesis
  proof cases
    case 1
    then have "v = 0" by (simp add: word_eq_sint_iff)
    with 1 show ?thesis by (simp add: string2ll_def dec_int_def dec_small)
  next
    case 2
    then obtain c p where "dec (nat (sint v)) = c # p" "c \<noteq> 45" "c \<noteq> 48"
      using dec_first [of "nat (sint v)"] by auto
    moreover have "string2ll_tail False (dec (nat (sint v))) = Some v"
      using 2 b unfolding string2ll_tail_iff
      by (intro exI [of _ "nat (sint v)"]) (simp add: word_eq_sint_iff sint_of_nat_signed nat_le_iff)
    ultimately show ?thesis using 2 by (simp add: string2ll_def dec_int_def)
  next
    case 3
    have "string2ll_tail True (dec (nat (- sint v))) = Some v"
      using 3 b unfolding string2ll_tail_iff
      by (intro exI [of _ "nat (- sint v)"]) (simp add: word_eq_sint_iff sint_of_nat_signed nat_le_iff)
    with 3 show ?thesis by (simp add: string2ll_def dec_int_def)
  qed
qed

lemma dec_int_string2ll:
  assumes "string2ll s = Some v"
  shows "s = dec_int (sint v)"
proof -
  obtain c p where s: "s = c # p" using assms by (auto simp: string2ll_def split: list.splits)
  consider "s = [48]" | "c = 45" "string2ll_tail True p = Some v"
    | "string2ll_tail False s = Some v" "s \<noteq> [48]"
    using assms s by (auto simp: string2ll_def split: if_splits)
  then show ?thesis
  proof cases
    case 1
    with assms have "v = 0" by (simp add: string2ll_def)
    with 1 show ?thesis by (simp add: dec_int_def dec_small)
  next
    case 2
    then show ?thesis using s by (auto simp: string2ll_tail_iff sint_of_nat_signed dec_int_def)
  next
    case 3
    then obtain n where "0 < n" "s = dec n" "n < 2 ^ 63" "v = of_nat n"
      by (auto simp: string2ll_tail_iff)
    then show ?thesis using sint_of_nat_signed(1) [of n] by (simp add: dec_int_def)
  qed
qed

lemma dec_nonzero: "0 \<notin> set (dec n)"
proof (induction n rule: dec.induct)
  case (1 n)
  have "48 + of_nat (n mod 10) \<noteq> (0 :: u8)"
  proof
    assume "48 + of_nat (n mod 10) = (0 :: u8)"
    then have "unat (48 + of_nat (n mod 10) :: u8) = 0" by simp
    moreover have "n mod 10 < 10" by simp
    ultimately show False by (simp add: unat_word_ariths unat_of_nat)
  qed
  then show ?case using 1 by (subst dec.simps) auto
qed

lemma takeWhile_dec_int: "takeWhile (\<lambda>c. c \<noteq> 0) (dec_int i @ 0 # t) = dec_int i"
proof -
  have "0 \<notin> set (dec_int i)" using dec_nonzero by (auto simp: dec_int_def)
  then show ?thesis by (subst takeWhile_append2) auto
qed

lemma string2l_eq: "string2l s = string2ll s"
proof -
  have "- (2 ^ 63) \<le> sint v \<and> sint v \<le> 2 ^ 63 - 1" for v :: i64
    using sint_greater_eq [of v] sint_less [of v] by simp
  then have "\<not> sint v < - (2 ^ 63) \<and> \<not> sint v > 2 ^ 63 - 1" for v :: i64
    by (simp add: not_less)
  then show ?thesis unfolding string2l_def by (simp split: option.splits)
qed

lemma length_dec_int_le: "length (dec_int (sint (v :: i64))) \<le> 20"
proof -
  have len: "length (dec n) \<le> 19" if "n \<le> 2 ^ 63" for n
  proof (rule ccontr)
    assume long: "\<not> ?thesis"
    then have "19 \<le> length (dec n) - 1" by simp
    then have "(10::nat) ^ 19 \<le> 10 ^ (length (dec n) - 1)" by (rule power_increasing) simp
    moreover have "0 < n" using long by (cases n) (auto simp: dec_small)
    ultimately show False using length_dec_bounds [of n] that by simp
  qed
  have "nat (- sint v) \<le> 2 ^ 63" "nat (sint v) \<le> 2 ^ 63"
    using sint_greater_eq [of v] sint_less [of v] by simp_all
  then show ?thesis using len [of "nat (- sint v)"] len [of "nat (sint v)"] by (simp add: dec_int_def)
qed

subsection \<open>Properties\<close>

lemma ll2string_buf:
  assumes "21 \<le> n"
  obtains t where "ll2string (map junk [0..<n]) n v = Some (length (dec_int (sint v)), dec_int (sint v) @ 0 # t)"
proof -
  have "length (dec_int (sint v)) < n" "n \<le> length (map junk [0..<n])"
    using length_dec_int_le [of v] assms by simp_all
  from ll2string_fits [OF this] show ?thesis using that by blast
qed

text \<open>
  C23: \<open>string2ll\<close> accepts exactly the canonical decimal strings of the values of
  \<open>long long\<close> (no leading zero, no sign but a single minus, no other byte, no
  overflow) and returns the value the string denotes; so the string can always be
  recovered from the number, as the comment on the function promises.
\<close>

theorem string2ll_canonical: "string2ll s = Some v \<longleftrightarrow> s = dec_int (sint v)"
  using string2ll_dec_int dec_int_string2ll by blast

text \<open>
  C24: given a buffer of at least 21 bytes, \<open>ll2string\<close> stays inside it for every
  64-bit value (\<open>LLONG_MIN\<close> included), writes \<open>sdigits10 v\<close> characters and a
  terminating zero, leaves the rest of the buffer alone, and \<open>string2ll\<close> reads the
  same number back.
\<close>

theorem ll2string_string2ll:
  assumes "21 \<le> dstlen" "dstlen \<le> length dst"
  shows "\<exists>n dst'. ll2string dst dstlen v = Some (n, dst') \<and> n = sdigits10 v \<and>
    string2ll (take n dst') = Some v \<and> dst' ! n = 0 \<and> drop (Suc n) dst' = drop (Suc n) dst"
proof -
  have len: "length (dec_int (sint v)) < dstlen"
    using length_dec_int_le [of v] assms(1) by linarith
  then show ?thesis
    using ll2string_fits [OF len assms(2)] assms string2ll_dec_int [of v]
    by (simp add: sdigits10_eq)
qed

theorem ll2string_string2ll_witness:
  "\<exists>n dst'. ll2string (replicate 32 7) 32 LLONG_MIN = Some (n, dst') \<and> n = sdigits10 LLONG_MIN \<and>
    string2ll (take n dst') = Some LLONG_MIN \<and> dst' ! n = 0 \<and>
    drop (Suc n) dst' = drop (Suc n) (replicate 32 7)"
  by (rule ll2string_string2ll) simp_all

end
