(* ===== verification/Glob.thy ===== *)
theory Glob
  imports Util "HOL-Library.Sublist"
begin

text \<open>
  The glob matcher \<open>stringmatchlen\<close> of \<open>util.c\<close> (used by KEYS, PSUBSCRIBE, CONFIG
  GET). Pattern and subject are buffers with a current offset and a remaining length,
  as the C code has pointers and lengths: the lengths are C \<open>int\<close>s and can become
  negative, reads outside a buffer and pointers past its end are \<^term>\<open>None\<close>.
  The reference is a parser of patterns into tokens and a declarative matching
  relation on tokens.
\<close>

subsection \<open>Definitions\<close>

definition tolower :: "int \<Rightarrow> int" where
  "tolower c = (if 65 \<le> c \<and> c \<le> 90 then c + 32 else c)"

text \<open>\<open>p++\<close>: a pointer may move to one past the end of its buffer, no further.\<close>

definition adv :: "bytes \<Rightarrow> nat \<Rightarrow> nat option" where
  "adv b i = (if i < length b then Some (Suc i) else None)"

definition char_eq :: "bool \<Rightarrow> u8 \<Rightarrow> u8 \<Rightarrow> bool" where
  "char_eq nocase a b =
     (if nocase then tolower (sint a) = tolower (sint b) else a = b)"

definition range_match :: "bool \<Rightarrow> u8 \<Rightarrow> u8 \<Rightarrow> u8 \<Rightarrow> bool" where
  "range_match nocase a b d =
     (let lo = min (sint a) (sint b); hi = max (sint a) (sint b); c = sint d in
      if nocase then tolower lo \<le> tolower c \<and> tolower c \<le> tolower hi
      else lo \<le> c \<and> c \<le> hi)"

text \<open>The loop over the members of a \<open>[...]\<close> class; the result is where it stops.\<close>

function class_loop ::
  "bool \<Rightarrow> bytes \<Rightarrow> bytes \<Rightarrow> nat \<Rightarrow> nat \<Rightarrow> int \<Rightarrow> bool \<Rightarrow> (nat \<times> int \<times> bool) option" where
  "class_loop nocase pat str s p plen matched =
     (case peek pat p of None \<Rightarrow> None | Some c0 \<Rightarrow>
        if c0 = 92 \<and> plen \<ge> 2 then do {
          c1 \<leftarrow> peek pat (p + 1);
          d \<leftarrow> peek str s;
          class_loop nocase pat str s (p + 2) (plen - 2) (matched \<or> c1 = d) }
        else if c0 = 93 then Some (p, plen, matched)
        else if plen = 0 then Some (p - 1, plen + 1, matched)
        else do {
          c1 \<leftarrow> peek pat (p + 1);
          if c1 = 45 \<and> plen \<ge> 3 then do {
            c2 \<leftarrow> peek pat (p + 2);
            d \<leftarrow> peek str s;
            class_loop nocase pat str s (p + 3) (plen - 3) (matched \<or> range_match nocase c0 c2 d) }
          else do {
            d \<leftarrow> peek str s;
            class_loop nocase pat str s (p + 1) (plen - 1) (matched \<or> char_eq nocase c0 d) } })"
  by pat_completeness auto
termination
  by (relation "measure (\<lambda>(nocase, pat, str, s, p, plen, matched). length pat - p)")
    (auto simp: peek_def split: if_splits)

text \<open>
  One pattern element that is not a star, tried against the subject: the outer
  \<^term>\<open>None\<close> is a memory fault, the inner one is \<open>return 0\<close>, otherwise the
  pointers and lengths at the end of the \<open>switch\<close>.
\<close>

definition match_one ::
  "bool \<Rightarrow> bytes \<Rightarrow> nat \<Rightarrow> int \<Rightarrow> bytes \<Rightarrow> nat \<Rightarrow> int \<Rightarrow> (nat \<times> int \<times> nat \<times> int) option option" where
  "match_one nocase pat p plen str s slen = do {
     c \<leftarrow> peek pat p;
     if c = 63 then
       (if slen = 0 then Some None
        else do { s' \<leftarrow> adv str s; Some (Some (p, plen, s', slen - 1)) })
     else if c = 91 then do {
       c1 \<leftarrow> peek pat (p + 1);
       let neg = (c1 = 94);
       (p', plen', m) \<leftarrow> class_loop nocase pat str s
          (if neg then p + 2 else p + 1) (if neg then plen - 2 else plen - 1) False;
       if m = neg then Some None
       else do { s' \<leftarrow> adv str s; Some (Some (p', plen', s', slen - 1)) } }
     else do {
       let esc = (c = 92 \<and> plen \<ge> 2);
       let p' = (if esc then p + 1 else p);
       let plen' = (if esc then plen - 1 else plen);
       c' \<leftarrow> peek pat p';
       d \<leftarrow> peek str s;
       if char_eq nocase c' d
       then do { s' \<leftarrow> adv str s; Some (Some (p', plen', s', slen - 1)) }
       else Some None } }"

text \<open>\<open>while (*pattern == '*')\<close>\<close>

function skip_stars :: "bytes \<Rightarrow> nat \<Rightarrow> int \<Rightarrow> (nat \<times> int) option" where
  "skip_stars pat p plen =
     (case peek pat p of None \<Rightarrow> None
      | Some c \<Rightarrow> if c = 42 then skip_stars pat (p + 1) (plen - 1) else Some (p, plen))"
  by pat_completeness auto
termination
  by (relation "measure (\<lambda>(pat, p, plen). length pat - p)") (auto simp: peek_def split: if_splits)

text \<open>\<open>while (pattern[1] == '*')\<close>\<close>

function collapse_stars :: "bytes \<Rightarrow> nat \<Rightarrow> int \<Rightarrow> (nat \<times> int) option" where
  "collapse_stars pat p plen =
     (case peek pat (p + 1) of None \<Rightarrow> None
      | Some c \<Rightarrow> if c = 42 then collapse_stars pat (p + 1) (plen - 1) else Some (p, plen))"
  by pat_completeness auto
termination
  by (relation "measure (\<lambda>(pat, p, plen). length pat - p)") (auto simp: peek_def split: if_splits)

declare class_loop.simps [simp del] skip_stars.simps [simp del] collapse_stars.simps [simp del]

lemma class_loop_pos:
  "class_loop nocase pat str s p plen m = Some (p', plen', m') \<Longrightarrow> p - 1 \<le> p'"
proof (induction nocase pat str s p plen m rule: class_loop.induct)
  case (1 nocase pat str s p plen m)
  show ?case
    using 1 unfolding class_loop.simps [of nocase pat str s p plen m]
    by (fastforce split: option.splits if_splits simp: bind_eq_Some_conv)
qed

lemma collapse_stars_pos: "collapse_stars pat p plen = Some (p', plen') \<Longrightarrow> p \<le> p'"
  by (induction pat p plen rule: collapse_stars.induct)
    (subst (asm) (2) collapse_stars.simps, fastforce split: option.splits if_splits)

lemma match_one_pos:
  "match_one nocase pat p plen str s slen = Some (Some (p', plen', s', slen')) \<Longrightarrow> p \<le> p'"
  by (fastforce simp: match_one_def bind_eq_Some_conv Let_def
      split: if_splits dest: class_loop_pos)

function stringmatchlen ::
    "bool \<Rightarrow> bytes \<Rightarrow> nat \<Rightarrow> int \<Rightarrow> bytes \<Rightarrow> nat \<Rightarrow> int \<Rightarrow> bool option"
  and star_loop ::
    "bool \<Rightarrow> bytes \<Rightarrow> nat \<Rightarrow> int \<Rightarrow> bytes \<Rightarrow> nat \<Rightarrow> int \<Rightarrow> bool option" where
  "stringmatchlen nocase pat p plen str s slen =
     (if plen = 0 then Some (slen = 0)
      else case peek pat p of None \<Rightarrow> None | Some c \<Rightarrow>
        if c = 42 then
          (case collapse_stars pat p plen of None \<Rightarrow> None | Some (p', plen') \<Rightarrow>
             if plen' = 1 then Some True
             else star_loop nocase pat (p' + 1) (plen' - 1) str s slen)
        else
          (case match_one nocase pat p plen str s slen of None \<Rightarrow> None
           | Some None \<Rightarrow> Some False
           | Some (Some (p', plen', s', slen')) \<Rightarrow>
               if slen' = 0 then
                 (case skip_stars pat (p' + 1) (plen' - 1) of None \<Rightarrow> None
                  | Some (_, plen'') \<Rightarrow> Some (plen'' = 0))
               else stringmatchlen nocase pat (p' + 1) (plen' - 1) str s' slen'))"
| "star_loop nocase pat p plen str s slen =
     (if slen = 0 then Some False
      else case stringmatchlen nocase pat p plen str s slen of None \<Rightarrow> None
        | Some True \<Rightarrow> Some True
        | Some False \<Rightarrow>
            (case adv str s of None \<Rightarrow> None
             | Some s' \<Rightarrow> star_loop nocase pat p plen str s' (slen - 1)))"
  by pat_completeness auto
termination
  by (relation "measures [
      \<lambda>x. case x of Inl (nocase, pat, p, plen, str, s, slen) \<Rightarrow> length pat - p
        | Inr (nocase, pat, p, plen, str, s, slen) \<Rightarrow> length pat - p,
      \<lambda>x. case x of Inl _ \<Rightarrow> 0 | Inr _ \<Rightarrow> 1,
      \<lambda>x. case x of Inl _ \<Rightarrow> 0
        | Inr (nocase, pat, p, plen, str, s, slen) \<Rightarrow> length str - s]")
    (auto simp: peek_def adv_def split: if_splits dest!: collapse_stars_pos match_one_pos)

declare stringmatchlen.simps [simp del] star_loop.simps [simp del]

text \<open>\<open>stringmatch\<close> takes C strings: the buffers end with the terminating zero.\<close>

definition stringmatch :: "bytes \<Rightarrow> bytes \<Rightarrow> bool \<Rightarrow> bool option" where
  "stringmatch pattern str nocase =
     stringmatchlen nocase (pattern @ [0]) 0 (int (length pattern)) (str @ [0]) 0 (int (length str))"

text \<open>The reference: a pattern is a list of stars and of predicates on one character.\<close>

datatype gtok = TStar | TOne "u8 \<Rightarrow> bool"

fun class_parse :: "bool \<Rightarrow> bytes \<Rightarrow> (u8 \<Rightarrow> bool) \<Rightarrow> (u8 \<Rightarrow> bool) \<times> bytes" where
  "class_parse nc [] P = (P, [])"
| "class_parse nc [a] P =
     (if a = 93 then (P, []) else (\<lambda>d. P d \<or> char_eq nc a d, []))"
| "class_parse nc [a, b] P =
     (if a = 92 then (\<lambda>d. P d \<or> b = d, [])
      else if a = 93 then (P, [b])
      else class_parse nc [b] (\<lambda>d. P d \<or> char_eq nc a d))"
| "class_parse nc (a # b # c # qs) P =
     (if a = 92 then class_parse nc (c # qs) (\<lambda>d. P d \<or> b = d)
      else if a = 93 then (P, b # c # qs)
      else if b = 45 then class_parse nc qs (\<lambda>d. P d \<or> range_match nc a c d)
      else class_parse nc (b # c # qs) (\<lambda>d. P d \<or> char_eq nc a d))"

definition glob_one :: "bool \<Rightarrow> u8 \<Rightarrow> bytes \<Rightarrow> (u8 \<Rightarrow> bool) \<times> bytes" where
  "glob_one nc c qs =
     (if c = 63 then (\<lambda>_. True, qs)
      else if c = 91 then
        (if qs \<noteq> [] \<and> hd qs = 94
         then map_prod (\<lambda>P d. \<not> P d) id (class_parse nc (tl qs) (\<lambda>_. False))
         else class_parse nc qs (\<lambda>_. False))
      else if c = 92 \<and> qs \<noteq> [] then (char_eq nc (hd qs), tl qs)
      else (char_eq nc c, qs))"

lemma class_parse_suffix: "class_parse nc q P = (P', rest) \<Longrightarrow> suffix rest q"
proof (induction nc q P rule: class_parse.induct)
  case (4 nc a b c qs P)
  then show ?case by (fastforce split: if_splits simp: suffix_Cons)
qed (auto split: if_splits simp: suffix_Cons)

lemma glob_one_suffix: "glob_one nc c qs = (P, rest) \<Longrightarrow> suffix rest qs"
  by (cases qs) (fastforce simp: glob_one_def map_prod_def suffix_Cons
      split: if_splits prod.splits dest: class_parse_suffix)+

function glob_parse :: "bool \<Rightarrow> bytes \<Rightarrow> gtok list" where
  "glob_parse nc [] = []"
| "glob_parse nc (c # qs) =
     (if c = 42 then TStar # glob_parse nc qs
      else (case glob_one nc c qs of (P, rest) \<Rightarrow> TOne P # glob_parse nc rest))"
  by pat_completeness auto
termination
  by (relation "measure (\<lambda>(nc, q). length q)")
    (auto simp: less_Suc_eq_le intro: suffix_length_le glob_one_suffix [OF sym])

fun gmatch :: "gtok list \<Rightarrow> bytes \<Rightarrow> bool" where
  "gmatch [] s = (s = [])"
| "gmatch (TStar # ts) s = (\<exists>i \<le> length s. gmatch ts (drop i s))"
| "gmatch (TOne P # ts) s = (s \<noteq> [] \<and> P (hd s) \<and> gmatch ts (tl s))"

subsection \<open>The matcher follows the reference\<close>

lemma peek_append_plus [simp]: "peek (a @ b) (length a + k) = peek b k"
  by (simp add: peek_def)

lemma peek_append_Suc [simp]: "peek (a @ b) (Suc (length a)) = peek b 1"
  using peek_append_plus [of a b 1] by simp

lemma peek_append_Suc2 [simp]: "peek (a @ b) (Suc (Suc (length a))) = peek b 2"
  using peek_append_plus [of a b 2] by simp

lemma peek_append_0 [simp]: "peek (a @ b) (length a) = peek b 0"
  using peek_append_plus [of a b 0] by simp

lemma peek_Cons_0 [simp]: "peek (x # xs) 0 = Some x"
  by (simp add: peek_def)

lemma peek_Cons_Suc [simp]: "peek (x # xs) (Suc k) = peek xs k"
  by (simp add: peek_def)

lemma peek_Cons_numeral [simp]:
  "peek (x # xs) (numeral n) = peek xs (pred_numeral n)" "peek (x # xs) 1 = peek xs 0"
  by (simp_all add: peek_def numeral_eq_Suc)

lemma class_loop_parse:
  assumes "peek str s = Some d"
  shows "class_loop nc (pre @ q @ [0]) str s (length pre) (int (length q)) (P d) =
    (case class_parse nc q P of (P', rest) \<Rightarrow>
       Some (length pre + length q - length rest - 1, int (length rest) + 1, P' d))"
proof (induction nc q P arbitrary: pre rule: class_parse.induct)
  case (1 nc P)
  show ?case by (subst class_loop.simps) simp
next
  case (2 nc a P)
  have "class_loop nc ((pre @ [a]) @ [] @ [0]) str s (length (pre @ [a])) (int 0) (P d \<or> char_eq nc a d) =
      Some (length pre, 1, P d \<or> char_eq nc a d)"
    by (subst class_loop.simps) simp
  then show ?case using assms by (subst class_loop.simps) auto
next
  case (3 nc a b P)
  have "class_loop nc ((pre @ [a, b]) @ [] @ [0]) str s (length (pre @ [a, b])) (int 0) (P d \<or> b = d) =
      Some (Suc (length pre), 1, P d \<or> b = d)"
    by (subst class_loop.simps) simp
  then show ?case using assms 3 [of "pre @ [a]"]
    by (subst class_loop.simps) (auto split: prod.splits)
next
  case (4 nc a b c qs P)
  show ?case
    using assms "4.IH"(1) [of "pre @ [a, b]"] "4.IH"(2) [of "pre @ [a, b, c]"] "4.IH"(3) [of "pre @ [a]"]
    by (subst class_loop.simps) (auto split: prod.splits simp: eval_nat_numeral)
qed

lemma match_one_parse:
  assumes "c \<noteq> 42" "glob_one nc c qs = (P, rest)"
  shows "match_one nc (pre @ (c # qs) @ [0]) (length pre) (int (length (c # qs)))
      (spre @ (d # r) @ [0]) (length spre) (int (length (d # r))) =
    Some (if P d
      then Some (length pre + length qs - length rest, int (length rest) + 1,
                 Suc (length spre), int (length r))
      else None)"
proof -
  let ?str = "spre @ (d # r) @ [0]"
  have d: "peek ?str (length spre) = Some d" by simp
  have adv: "adv ?str (length spre) = Some (Suc (length spre))" by (simp add: adv_def)
  have loop: "class_loop nc (pre' @ q @ [0]) ?str (length spre) (length pre') (int (length q)) False =
     (case class_parse nc q (\<lambda>_. False) of (P', rest) \<Rightarrow>
       Some (length pre' + length q - length rest - 1, int (length rest) + 1, P' d))" for pre' q
    using class_loop_parse [OF d, of nc pre' q "\<lambda>_. False"] by simp
  show ?thesis
  proof (cases "c = 91")
    case True
    show ?thesis
    proof (cases "qs \<noteq> [] \<and> hd qs = 94")
      case neg: True
      then obtain q where "qs = 94 # q" by (cases qs) auto
      then show ?thesis
        using True assms loop [of "pre @ [c, 94]" q] adv
        by (auto simp: match_one_def glob_one_def map_prod_def split: prod.splits)
    next
      case False
      then have "peek (pre @ (c # qs) @ [0]) (length pre + 1) \<noteq> Some 94" by (cases qs) auto
      then show ?thesis
        using True False assms loop [of "pre @ [c]" qs] adv
        by (cases qs) (auto simp: match_one_def glob_one_def split: prod.splits)
    qed
  next
    case False
    then show ?thesis
      using assms adv by (cases qs) (auto simp: match_one_def glob_one_def Let_def split: if_splits)
  qed
qed

lemma skip_stars_eq:
  "skip_stars (pre @ q @ [0]) (length pre) (int (length q)) =
     (let t = dropWhile (\<lambda>c. c = 42) q
      in Some (length pre + length q - length t, int (length t)))"
proof (induction q arbitrary: pre)
  case Nil
  show ?case by (subst skip_stars.simps) simp
next
  case (Cons c q)
  then show ?case using Cons [of "pre @ [c]"]
    by (cases "c = 42") (subst skip_stars.simps, simp add: Let_def)+
qed

lemma collapse_stars_eq:
  "collapse_stars (pre @ (42 # q) @ [0]) (length pre) (int (length (42 # q))) =
     (let t = dropWhile (\<lambda>c. c = 42) q
      in Some (length pre + length q - length t, int (length t) + 1))"
proof (induction q arbitrary: pre)
  case Nil
  show ?case by (subst collapse_stars.simps) simp
next
  case (Cons c q)
  then show ?case using Cons [of "pre @ [42]"]
    by (cases "c = 42") (subst collapse_stars.simps, simp add: Let_def)+
qed

lemma gmatch_parse_Nil: "gmatch (glob_parse nc q) [] \<longleftrightarrow> dropWhile (\<lambda>c. c = 42) q = []"
  by (induction q) (auto split: prod.splits)

lemma ex_drop_drop:
  "(\<exists>i \<le> length r. \<exists>j \<le> length (drop i r). f (drop j (drop i r))) \<longleftrightarrow> (\<exists>i \<le> length r. f (drop i r))"
  (is "?L \<longleftrightarrow> ?R")
proof
  assume ?L
  then obtain i j where "i \<le> length r" "j \<le> length r - i" "f (drop (j + i) r)" by auto
  then show ?R by (intro exI [of _ "j + i"]) simp
next
  assume ?R
  then obtain i where "i \<le> length r" "f (drop i r)" by blast
  then show ?L by (intro exI [of _ i] conjI exI [of _ 0]) simp_all
qed

lemma gmatch_stars:
  "gmatch (glob_parse nc (42 # q)) r \<longleftrightarrow>
    (\<exists>i \<le> length r. gmatch (glob_parse nc (dropWhile (\<lambda>c. c = 42) q)) (drop i r))"
proof (induction q arbitrary: r)
  case (Cons c q)
  show ?case
  proof (cases "c = 42")
    case True
    then show ?thesis using Cons ex_drop_drop [of r] by simp
  qed simp
qed simp

lemma star_loop_eq:
  assumes "\<And>spre r. r \<noteq> [] \<Longrightarrow>
    stringmatchlen nc pat p plen (spre @ r @ [0]) (length spre) (int (length r)) = Some (f r)"
  shows "star_loop nc pat p plen (spre @ r @ [0]) (length spre) (int (length r)) =
    Some (\<exists>i < length r. f (drop i r))"
proof (induction r arbitrary: spre)
  case Nil
  show ?case by (subst star_loop.simps) simp
next
  case (Cons d r)
  have "(\<exists>i < length (d # r). f (drop i (d # r))) \<longleftrightarrow> f (d # r) \<or> (\<exists>i < length r. f (drop i r))"
    by (auto simp: Ex_less_Suc2)
  then show ?case
    using assms [of "d # r" spre] Cons [of "spre @ [d]"]
    by (subst star_loop.simps) (auto simp: adv_def split: bool.splits)
qed

lemma stringmatchlen_gmatch:
  assumes "r \<noteq> []"
  shows "stringmatchlen nc (pre @ q @ [0]) (length pre) (int (length q))
      (spre @ r @ [0]) (length spre) (int (length r)) = Some (gmatch (glob_parse nc q) r)"
  using assms
proof (induction q arbitrary: pre spre r rule: length_induct)
  case (1 q)
  show ?case
  proof (cases q)
    case Nil
    with "1.prems" show ?thesis by (subst stringmatchlen.simps) simp
  next
    case q: (Cons c qs)
    show ?thesis
    proof (cases "c = 42")
      case True
      define w where "w = takeWhile (\<lambda>c. c = 42) qs"
      define t where "t = dropWhile (\<lambda>c. c = 42) qs"
      have qs: "qs = w @ t" by (simp add: w_def t_def)
      have t: "dropWhile (\<lambda>c. c = 42) t = t" by (simp add: t_def dropWhile_idem)
      have col: "collapse_stars (pre @ q @ [0]) (length pre) (int (length q)) =
          Some (length pre + length w, int (length t) + 1)"
        using collapse_stars_eq [of pre qs] q True arg_cong [OF qs, of length]
        by (simp add: Let_def t_def [symmetric])
      have "star_loop nc ((pre @ 42 # w) @ t @ [0]) (length (pre @ 42 # w)) (int (length t))
          (spre @ r @ [0]) (length spre) (int (length r)) =
          Some (\<exists>i < length r. gmatch (glob_parse nc t) (drop i r))"
        by (rule star_loop_eq, rule "1.IH" [rule_format]) (use q qs in auto)
      then have star: "star_loop nc (pre @ q @ [0]) (length pre + length w + 1) (int (length t))
          (spre @ r @ [0]) (length spre) (int (length r)) =
          Some (\<exists>i < length r. gmatch (glob_parse nc t) (drop i r))"
        using q qs True by simp
      have "gmatch (glob_parse nc q) r \<longleftrightarrow>
          t = [] \<or> (\<exists>i < length r. gmatch (glob_parse nc t) (drop i r))"
        using gmatch_stars [of nc qs r] gmatch_parse_Nil [of nc t] q True t
        by (auto simp: t_def [symmetric] le_less)
      then show ?thesis
        using col star q True by (subst stringmatchlen.simps) auto
    next
      case False
      obtain P rest where one: "glob_one nc c qs = (P, rest)" by fastforce
      obtain d r' where r: "r = d # r'" using "1.prems" by (cases r) auto
      obtain u where u: "qs = u @ rest" using glob_one_suffix [OF one] by (auto simp: suffix_def)
      have m: "match_one nc (pre @ q @ [0]) (length pre) (int (length q))
          (spre @ r @ [0]) (length spre) (int (length r)) =
        Some (if P d then Some (length pre + length u, int (length rest) + 1,
                 Suc (length spre), int (length r')) else None)"
        using match_one_parse [OF False one, of pre spre d r'] q r u by simp
      have ih: "stringmatchlen nc (pre @ q @ [0]) (length pre + length u + 1) (int (length rest))
          (spre @ r @ [0]) (Suc (length spre)) (int (length r')) =
          Some (gmatch (glob_parse nc rest) r')" if "r' \<noteq> []"
        using "1.IH" [rule_format, of rest r' "pre @ c # u" "spre @ [d]"] that q u r by simp
      have sk: "skip_stars (pre @ q @ [0]) (length pre + length u + 1) (int (length rest)) =
          (let t = dropWhile (\<lambda>c. c = 42) rest
           in Some (length pre + length q - length t, int (length t)))"
        using skip_stars_eq [of "pre @ c # u" rest] q u by (simp add: Let_def)
      have g: "gmatch (glob_parse nc q) r \<longleftrightarrow> P d \<and> gmatch (glob_parse nc rest) r'"
        using q r one False by simp
      show ?thesis
        using m ih sk g q False gmatch_parse_Nil [of nc rest]
        by (subst stringmatchlen.simps) (cases "r' = []", auto simp: Let_def)
    qed
  qed
qed

subsection \<open>Properties\<close>

text \<open>
  C22: on NUL-terminated buffers and a non-empty subject, \<open>stringmatch\<close> terminates,
  never reads outside the buffers, and decides exactly the declarative glob semantics:
  the pattern, read as a list of stars and one-character predicates, matches the
  whole subject.
\<close>

theorem stringmatch_correct:
  assumes "str \<noteq> []"
  shows "stringmatch pattern str nocase = Some (gmatch (glob_parse nocase pattern) str)"
  using stringmatchlen_gmatch [OF assms, of nocase "[]" pattern "[]"]
  by (simp add: stringmatch_def)

theorem stringmatch_correct_witness:
  "stringmatch (bytes_of ''h[ae]l*'') (bytes_of ''hallo'') False =
     Some (gmatch (glob_parse False (bytes_of ''h[ae]l*'')) (bytes_of ''hallo''))"
  by (rule stringmatch_correct) (simp add: bytes_of_def)





end
