(* ===== verification/Intset.thy ===== *)
theory Intset
  imports Redis_Prelude
begin

text \<open>
  \<open>intset.c\<close>: a sorted array of distinct integers in a byte buffer, all elements
  stored with the same width of 2, 4 or 8 bytes, widened in place when a value does
  not fit. The record has the fields of \<open>struct intset\<close>; \<open>contents\<close> is the byte
  buffer, so that the in-place upgrade and the moves of the tail are the memory
  operations the code performs. An \<open>int64_t\<close> argument is a 64-bit word read with
  \<^term>\<open>sint\<close>; values read from the buffer are the integers they denote.
  The fields are host-order values: \<open>intrev32ifbe\<close> is the identity on a
  little-endian host and undoes itself on a big-endian one.
\<close>

subsection \<open>Definitions\<close>

record intset =
  encoding :: nat
  ilength :: nat
  contents :: bytes

abbreviation (input) INTSET_ENC_INT16 :: nat where "INTSET_ENC_INT16 \<equiv> 2"
abbreviation (input) INTSET_ENC_INT32 :: nat where "INTSET_ENC_INT32 \<equiv> 4"
abbreviation (input) INTSET_ENC_INT64 :: nat where "INTSET_ENC_INT64 \<equiv> 8"

definition intsetValueEncoding :: "i64 \<Rightarrow> nat" where
  "intsetValueEncoding v =
     (if sint v < - (2 ^ 31) \<or> sint v > 2 ^ 31 - 1 then INTSET_ENC_INT64
      else if sint v < - (2 ^ 15) \<or> sint v > 2 ^ 15 - 1 then INTSET_ENC_INT32
      else INTSET_ENC_INT16)"

text \<open>The element width a (possibly invalid) encoding field selects in the accessors.\<close>

definition enc_width :: "nat \<Rightarrow> nat" where
  "enc_width enc = (if enc = INTSET_ENC_INT64 then 8 else if enc = INTSET_ENC_INT32 then 4 else 2)"

definition intsetGetEncoded :: "intset \<Rightarrow> nat \<Rightarrow> nat \<Rightarrow> int option" where
  "intsetGetEncoded is pos enc =
     map_option le_sint (peeks (contents is) (pos * enc_width enc) (enc_width enc))"

definition intsetGet_priv :: "intset \<Rightarrow> nat \<Rightarrow> int option" where
  "intsetGet_priv is pos = intsetGetEncoded is pos (encoding is)"

definition intsetSet_priv :: "intset \<Rightarrow> nat \<Rightarrow> int \<Rightarrow> intset option" where
  "intsetSet_priv is pos v =
     (let w = enc_width (encoding is) in
      map_option (\<lambda>c. is\<lparr>contents := c\<rparr>) (pokes (contents is) (pos * w) (le_bytes w v)))"

definition intsetNew :: intset where
  "intsetNew = \<lparr>encoding = INTSET_ENC_INT16, ilength = 0, contents = []\<rparr>"

definition intsetResize :: "(nat \<Rightarrow> u8) \<Rightarrow> intset \<Rightarrow> nat \<Rightarrow> intset" where
  "intsetResize junk is len =
     (let size = (len * encoding is) mod 2 ^ 32
      in is\<lparr>contents := realloc junk (contents is) size\<rparr>)"

text \<open>The binary search; the result is \<open>min\<close>, \<open>mid\<close> and \<open>cur\<close> when the loop ends.\<close>

function intsetSearch_loop ::
  "intset \<Rightarrow> int \<Rightarrow> int \<Rightarrow> int \<Rightarrow> int \<Rightarrow> int \<Rightarrow> (int \<times> int \<times> int) option" where
  "intsetSearch_loop is v mn mx mid cur =
     (if mx \<ge> mn then
        let mid = (mn + mx) div 2 in
        case intsetGet_priv is (nat mid) of None \<Rightarrow> None
        | Some cur \<Rightarrow>
            if v > cur then intsetSearch_loop is v (mid + 1) mx mid cur
            else if v < cur then intsetSearch_loop is v mn (mid - 1) mid cur
            else Some (mn, mid, cur)
      else Some (mn, mid, cur))"
  by pat_completeness auto
termination
  by (relation "measure (\<lambda>(is, v, mn, mx, mid, cur). nat (mx - mn + 1))") auto

definition intsetSearch :: "intset \<Rightarrow> i64 \<Rightarrow> (bool \<times> nat) option" where
  "intsetSearch is value =
     (if ilength is = 0 then Some (False, 0)
      else do {
        last \<leftarrow> intsetGet_priv is (ilength is - 1);
        if sint value > last then Some (False, ilength is)
        else do {
          first \<leftarrow> intsetGet_priv is 0;
          if sint value < first then Some (False, 0)
          else do {
            (mn, mid, cur) \<leftarrow>
              intsetSearch_loop is (sint value) 0 (int (ilength is) - 1) (-1) (-1);
            if sint value = cur then Some (True, nat mid) else Some (False, nat mn) } } })"

fun upgrade_loop :: "intset \<Rightarrow> nat \<Rightarrow> nat \<Rightarrow> nat \<Rightarrow> intset option" where
  "upgrade_loop is curenc prepend 0 = Some is"
| "upgrade_loop is curenc prepend (Suc k) = do {
     v \<leftarrow> intsetGetEncoded is k curenc;
     is \<leftarrow> intsetSet_priv is (k + prepend) v;
     upgrade_loop is curenc prepend k }"

definition intsetUpgradeAndAdd :: "(nat \<Rightarrow> u8) \<Rightarrow> intset \<Rightarrow> i64 \<Rightarrow> intset option" where
  "intsetUpgradeAndAdd junk is value = do {
     let curenc = encoding is;
     let prepend = (if sint value < 0 then 1 else 0);
     let is = is\<lparr>encoding := intsetValueEncoding value\<rparr>;
     let is = intsetResize junk is (ilength is + 1);
     is \<leftarrow> upgrade_loop is curenc prepend (ilength is);
     is \<leftarrow> intsetSet_priv is (if prepend = 1 then 0 else ilength is) (sint value);
     Some (is\<lparr>ilength := (ilength is + 1) mod 2 ^ 32\<rparr>) }"

definition intsetMoveTail :: "intset \<Rightarrow> nat \<Rightarrow> nat \<Rightarrow> intset option" where
  "intsetMoveTail is from to =
     (let w = enc_width (encoding is); n = ((ilength is - from) * w) mod 2 ^ 32 in
      map_option (\<lambda>c. is\<lparr>contents := c\<rparr>) (memmove (contents is) (to * w) (from * w) n))"

definition intsetAdd :: "(nat \<Rightarrow> u8) \<Rightarrow> intset \<Rightarrow> i64 \<Rightarrow> (intset \<times> bool) option" where
  "intsetAdd junk is value =
     (if intsetValueEncoding value > encoding is then
        map_option (\<lambda>is. (is, True)) (intsetUpgradeAndAdd junk is value)
      else do {
        (found, pos) \<leftarrow> intsetSearch is value;
        if found then Some (is, False)
        else do {
          let is = intsetResize junk is (ilength is + 1);
          is \<leftarrow> (if pos < ilength is then intsetMoveTail is pos (pos + 1) else Some is);
          is \<leftarrow> intsetSet_priv is pos (sint value);
          Some (is\<lparr>ilength := (ilength is + 1) mod 2 ^ 32\<rparr>, True) } })"

definition intsetRemove :: "(nat \<Rightarrow> u8) \<Rightarrow> intset \<Rightarrow> i64 \<Rightarrow> (intset \<times> bool) option" where
  "intsetRemove junk is value =
     (if intsetValueEncoding value \<le> encoding is then do {
        (found, pos) \<leftarrow> intsetSearch is value;
        if found then do {
          let len = ilength is;
          is \<leftarrow> (if pos < len - 1 then intsetMoveTail is (pos + 1) pos else Some is);
          let is = intsetResize junk is (len - 1);
          Some (is\<lparr>ilength := len - 1\<rparr>, True) }
        else Some (is, False) }
      else Some (is, False))"

definition intsetFind :: "intset \<Rightarrow> i64 \<Rightarrow> bool option" where
  "intsetFind is value =
     (if intsetValueEncoding value \<le> encoding is
      then map_option fst (intsetSearch is value) else Some False)"

text \<open>\<open>rand()\<close> is a parameter; on an empty set the C code divides by zero.\<close>

definition intsetRandom :: "nat \<Rightarrow> intset \<Rightarrow> int option" where
  "intsetRandom rnd is =
     (if ilength is = 0 then None else intsetGet_priv is (rnd mod ilength is))"

text \<open>The outer option is memory safety, the inner one the 0/1 result.\<close>

definition intsetGet :: "intset \<Rightarrow> nat \<Rightarrow> int option option" where
  "intsetGet is pos =
     (if pos < ilength is then map_option Some (intsetGet_priv is pos) else Some None)"

definition intsetLen :: "intset \<Rightarrow> nat" where
  "intsetLen is = ilength is"

text \<open>\<open>sizeof(intset)\<close> is the 8 bytes of the two header fields.\<close>

definition intsetBlobLen :: "intset \<Rightarrow> nat" where
  "intsetBlobLen is = 8 + (ilength is * encoding is) mod 2 ^ 32"

text \<open>The abstraction: the stored values in order; and the representation invariant.\<close>

definition intset_vals :: "intset \<Rightarrow> int list" where
  "intset_vals is = map (\<lambda>i. le_sint (take (encoding is) (drop (i * encoding is) (contents is))))
     [0..<ilength is]"

definition intset_inv :: "intset \<Rightarrow> bool" where
  "intset_inv is \<longleftrightarrow> encoding is \<in> {2, 4, 8} \<and>
     length (contents is) = ilength is * encoding is \<and> sorted_wrt (<) (intset_vals is)"

declare intsetSearch_loop.simps [simp del]

subsection \<open>Arrays of fixed-width integers in a buffer\<close>

definition enc_all :: "nat \<Rightarrow> int list \<Rightarrow> bytes" where
  "enc_all w vs = concat (map (le_bytes w) vs)"

definition fits :: "nat \<Rightarrow> int \<Rightarrow> bool" where
  "fits w v \<longleftrightarrow> - (2 ^ (8 * w - 1)) \<le> v \<and> v < 2 ^ (8 * w - 1)"

lemma enc_all_simps [simp]:
  "enc_all w [] = []" "enc_all w (v # vs) = le_bytes w v @ enc_all w vs"
  "enc_all w (us @ vs) = enc_all w us @ enc_all w vs"
  by (simp_all add: enc_all_def)

lemma length_enc_all [simp]: "length (enc_all w vs) = length vs * w"
  by (induction vs) auto

lemma peeks_enc_all:
  assumes "i < length vs"
  shows "peeks (enc_all w vs @ t) (i * w) w = Some (le_bytes w (vs ! i))"
proof -
  have "enc_all w vs @ t = enc_all w (take i vs) @ le_bytes w (vs ! i) @ enc_all w (drop (Suc i) vs) @ t"
    using arg_cong [OF id_take_nth_drop [OF assms], of "enc_all w"] by simp
  then show ?thesis using assms by (simp add: peeks_append_at)
qed

lemma pokes_enc_all:
  assumes "i < length vs"
  shows "pokes (enc_all w vs @ t) (i * w) (le_bytes w v) = Some (enc_all w (vs[i := v]) @ t)"
proof -
  have "enc_all w vs @ t = enc_all w (take i vs) @ le_bytes w (vs ! i) @ enc_all w (drop (Suc i) vs) @ t"
    using arg_cong [OF id_take_nth_drop [OF assms], of "enc_all w"] by simp
  then show ?thesis using assms by (simp add: pokes_append_at upd_conv_take_nth_drop)
qed

lemma fits_le_sint: "0 < w \<Longrightarrow> length bs = w \<Longrightarrow> fits w (le_sint bs)"
  using le_sint_bounds [of bs] by (auto simp: fits_def)

lemma le_sint_fits: "0 < w \<Longrightarrow> fits w v \<Longrightarrow> le_sint (le_bytes w v) = v"
  by (simp add: fits_def le_sint_roundtrip)

lemma le_bytes_le_sint:
  assumes "0 < w" "length bs = w"
  shows "le_bytes w (le_sint bs) = bs"
proof -
  have p: "(256::int) ^ w = 2 ^ (8 * w)" by (simp add: power_mult)
  have "take_bit (8 * w) (signed_take_bit (8 * w - 1) (le_uint bs)) = take_bit (8 * w) (le_uint bs)"
    using assms(1) by (intro take_bit_signed_take_bit) simp
  also have "\<dots> = le_uint bs"
    using le_uint_less [of bs] assms(2) p by (simp add: take_bit_int_eq_self)
  finally have "le_uint (le_bytes w (le_sint bs)) = le_uint bs"
    using assms(2) p by (simp add: le_uint_le_bytes le_sint_def take_bit_eq_mod)
  then show ?thesis
    using le_bytes_le_uint [of bs] le_bytes_le_uint [of "le_bytes w (le_sint bs)"] assms by simp
qed

subsection \<open>The representation\<close>

definition intset_rep :: "intset \<Rightarrow> int list \<Rightarrow> bool" where
  "intset_rep is vs \<longleftrightarrow> encoding is \<in> {2, 4, 8} \<and> ilength is = length vs \<and>
     contents is = enc_all (encoding is) vs \<and> (\<forall>v \<in> set vs. fits (encoding is) v)"

lemma enc_width_valid [simp]: "e \<in> {2, 4, 8} \<Longrightarrow> enc_width e = e"
  by (auto simp: enc_width_def)

lemma intset_rep_get:
  assumes "intset_rep is vs" "i < length vs"
  shows "intsetGet_priv is i = Some (vs ! i)"
proof -
  have "0 < encoding is" "fits (encoding is) (vs ! i)"
    using assms by (auto simp: intset_rep_def)
  then show ?thesis
    using assms peeks_enc_all [of i vs "encoding is" "[]"]
    by (auto simp: intset_rep_def intsetGet_priv_def intsetGetEncoded_def le_sint_fits)
qed

lemma intset_rep_vals:
  assumes "intset_rep is vs"
  shows "intset_vals is = vs"
proof (rule nth_equalityI)
  show l: "length (intset_vals is) = length vs" using assms by (simp add: intset_vals_def intset_rep_def)
  fix i assume "i < length (intset_vals is)"
  then have i: "i < length vs" using l by simp
  from assms i have e: "0 < encoding is" "fits (encoding is) (vs ! i)" "ilength is = length vs"
      "contents is = enc_all (encoding is) vs" by (auto simp: intset_rep_def)
  have "take (encoding is) (drop (i * encoding is) (contents is)) = le_bytes (encoding is) (vs ! i)"
    using peeks_enc_all [OF i, of "encoding is" "[]"] e(4) by (simp add: peeks_def split: if_splits)
  then show "intset_vals is ! i = vs ! i"
    using e i by (simp add: intset_vals_def le_sint_fits)
qed

lemma enc_all_chunks:
  assumes "0 < w" "length b = n * w"
  shows "enc_all w (map (\<lambda>i. le_sint (take w (drop (i * w) b))) [0..<n]) = b"
  using assms(2)
proof (induction n arbitrary: b)
  case (Suc n)
  have "map (\<lambda>i. le_sint (take w (drop (i * w) b))) [0..<Suc n] =
      le_sint (take w b) # map (\<lambda>i. le_sint (take w (drop (i * w) (drop w b)))) [0..<n]"
    unfolding upt_0_Suc by (simp add: comp_def add.commute)
  moreover have "le_bytes w (le_sint (take w b)) = take w b"
    using assms(1) Suc.prems by (intro le_bytes_le_sint) auto
  ultimately show ?case using Suc.IH [of "drop w b"] Suc.prems by simp
qed simp

lemma intset_inv_rep:
  assumes "intset_inv is"
  shows "intset_rep is (intset_vals is)"
proof -
  have e: "encoding is \<in> {2, 4, 8}" "length (contents is) = ilength is * encoding is"
    using assms by (auto simp: intset_inv_def)
  have pos: "0 < encoding is" using e(1) by auto
  have "fits (encoding is) (le_sint (take (encoding is) (drop (i * encoding is) (contents is))))"
    if "i < ilength is" for i
  proof (rule fits_le_sint [OF pos])
    have "Suc i * encoding is \<le> ilength is * encoding is" using that by (intro mult_le_mono1) simp
    then show "length (take (encoding is) (drop (i * encoding is) (contents is))) = encoding is"
      using e(2) by simp
  qed
  then have "\<forall>v \<in> set (intset_vals is). fits (encoding is) v" by (simp add: intset_vals_def)
  moreover have "contents is = enc_all (encoding is) (intset_vals is)"
    using enc_all_chunks [OF pos e(2)] by (simp add: intset_vals_def)
  moreover have "ilength is = length (intset_vals is)" by (simp add: intset_vals_def)
  ultimately show ?thesis unfolding intset_rep_def using e(1) by blast
qed

lemma intset_repI_inv: "intset_rep is vs \<Longrightarrow> sorted_wrt (<) vs \<Longrightarrow> intset_inv is"
  using intset_rep_vals [of "is" vs] by (auto simp: intset_inv_def intset_rep_def)

subsection \<open>Search\<close>

text \<open>Where \<open>v\<close> belongs in a strictly sorted list.\<close>

definition ins_pos :: "int list \<Rightarrow> int \<Rightarrow> nat \<Rightarrow> bool" where
  "ins_pos vs v k \<longleftrightarrow> k \<le> length vs \<and> (\<forall>i < k. vs ! i < v) \<and> (\<forall>i < length vs. k \<le> i \<longrightarrow> v < vs ! i)"

lemma intsetSearch_loop_correct:
  assumes rep: "intset_rep is vs" and sorted: "sorted_wrt (<) vs"
  shows "0 \<le> mn \<Longrightarrow> mx < int (length vs) \<Longrightarrow> mn \<le> mx + 1 \<Longrightarrow> mn \<le> mx \<or> cur \<noteq> v \<Longrightarrow>
    (\<forall>i < nat mn. vs ! i < v) \<Longrightarrow> (\<forall>i < length vs. mx < int i \<longrightarrow> v < vs ! i) \<Longrightarrow>
    \<exists>mn' mid' cur'. intsetSearch_loop is v mn mx mid cur = Some (mn', mid', cur') \<and>
      (if cur' = v then 0 \<le> mid' \<and> nat mid' < length vs \<and> vs ! nat mid' = v
       else 0 \<le> mn' \<and> ins_pos vs v (nat mn'))"
proof (induction "nat (mx - mn + 1)" arbitrary: mn mx mid cur rule: less_induct)
  case less
  show ?case
  proof (cases "mn \<le> mx")
    case False
    with less.prems have "mx < int i" if "nat mn \<le> i" for i using that by linarith
    with False less.prems have "ins_pos vs v (nat mn)" by (simp add: ins_pos_def nat_le_iff)
    with False less.prems show ?thesis by (subst intsetSearch_loop.simps) simp
  next
    case True
    define m where "m = (mn + mx) div 2"
    have m: "mn \<le> m" "m \<le> mx" "0 \<le> m" "nat m < length vs"
      using True less.prems by (auto simp: m_def)
    have get: "intsetGet_priv is (nat m) = Some (vs ! nat m)"
      using rep m(4) by (rule intset_rep_get)
    have lt: "vs ! i < vs ! j" if "i < j" "j < length vs" for i j
      using sorted that by (simp add: sorted_wrt_iff_nth_less)
    consider "v > vs ! nat m" | "v < vs ! nat m" | "v = vs ! nat m" by linarith
    then show ?thesis
    proof cases
      case 1
      have below: "\<forall>i < nat (m + 1). vs ! i < v"
        using 1 m by (auto simp: nat_add_distrib less_Suc_eq intro: order.strict_trans [OF lt])
      have "\<exists>mn' mid' cur'. intsetSearch_loop is v (m + 1) mx m (vs ! nat m) = Some (mn', mid', cur') \<and>
          (if cur' = v then 0 \<le> mid' \<and> nat mid' < length vs \<and> vs ! nat mid' = v
           else 0 \<le> mn' \<and> ins_pos vs v (nat mn'))"
      proof (rule less.hyps)
        show "m + 1 \<le> mx \<or> vs ! nat m \<noteq> v" using 1 by simp
      qed (use less.prems m below in simp_all)
      with 1 True get show ?thesis
        by (subst intsetSearch_loop.simps) (simp add: m_def [symmetric] Let_def)
    next
      case 2
      have above: "v < vs ! i" if "i < length vs" "m - 1 < int i" for i
      proof (cases "i = nat m")
        case False
        with that m have "nat m < i" by linarith
        with 2 lt [of "nat m" i] that show ?thesis by linarith
      qed (use 2 in simp)
      have "\<exists>mn' mid' cur'. intsetSearch_loop is v mn (m - 1) m (vs ! nat m) = Some (mn', mid', cur') \<and>
          (if cur' = v then 0 \<le> mid' \<and> nat mid' < length vs \<and> vs ! nat mid' = v
           else 0 \<le> mn' \<and> ins_pos vs v (nat mn'))"
      proof (rule less.hyps)
        show "mn \<le> m - 1 \<or> vs ! nat m \<noteq> v" using 2 by simp
      qed (use less.prems m above in simp_all)
      with 2 True get show ?thesis
        by (subst intsetSearch_loop.simps) (simp add: m_def [symmetric] Let_def)
    next
      case 3
      with True get m show ?thesis
        by (subst intsetSearch_loop.simps) (simp add: m_def [symmetric] Let_def)
    qed
  qed
qed

lemma ins_pos_not_mem:
  assumes "ins_pos vs v k"
  shows "v \<notin> set vs"
proof
  assume "v \<in> set vs"
  then obtain i where "i < length vs" "vs ! i = v" by (auto simp: in_set_conv_nth)
  with assms show False by (cases "i < k") (auto simp: ins_pos_def)
qed

text \<open>The contract of \<open>intsetSearch\<close>: found at its position, or not there and insertable.\<close>

lemma intsetSearch_correct:
  assumes rep: "intset_rep is vs" and sorted: "sorted_wrt (<) vs"
  obtains (found) pos where "intsetSearch is value = Some (True, pos)" "pos < length vs"
      "vs ! pos = sint value"
  | (absent) pos where "intsetSearch is value = Some (False, pos)" "ins_pos vs (sint value) pos"
proof -
  have len: "ilength is = length vs" using rep by (simp add: intset_rep_def)
  have lt: "vs ! i < vs ! j" if "i < j" "j < length vs" for i j
    using sorted that by (simp add: sorted_wrt_iff_nth_less)
  consider "vs = []" | "vs \<noteq> []" "sint value > vs ! (length vs - 1)"
    | "vs \<noteq> []" "sint value < vs ! 0"
    | "vs \<noteq> []" "sint value \<le> vs ! (length vs - 1)" "vs ! 0 \<le> sint value" by linarith
  then show ?thesis
  proof cases
    case 1
    then show ?thesis using absent [of 0] len by (simp add: intsetSearch_def ins_pos_def)
  next
    case 2
    have "vs ! i < sint value" if "i < length vs" for i
    proof (cases "i = length vs - 1")
      case False
      then have "vs ! i < vs ! (length vs - 1)" using that by (intro lt) auto
      with 2 show ?thesis by linarith
    qed (use 2 in simp)
    then show ?thesis using absent [of "length vs"] 2 len intset_rep_get [OF rep, of "length vs - 1"]
      by (simp add: intsetSearch_def ins_pos_def)
  next
    case 3
    have g: "sint value < vs ! i" if "i < length vs" for i
      using 3 lt [of 0 i] that by (cases "i = 0") auto
    have "sint value < vs ! (length vs - 1)" using g 3(1) by simp
    moreover have "intsetGet_priv is (length vs - 1) = Some (vs ! (length vs - 1))"
      "intsetGet_priv is 0 = Some (vs ! 0)" using 3(1) by (auto intro: intset_rep_get [OF rep])
    ultimately have "intsetSearch is value = Some (False, 0)"
      using 3 len by (simp add: intsetSearch_def)
    then show ?thesis by (rule absent) (use g in \<open>simp add: ins_pos_def\<close>)
  next
    case 4
    then have "0 \<le> int (length vs) - 1" by (cases vs) auto
    then have "\<exists>mn mid cur.
      intsetSearch_loop is (sint value) 0 (int (length vs) - 1) (-1) (-1) = Some (mn, mid, cur) \<and>
      (if cur = sint value then 0 \<le> mid \<and> nat mid < length vs \<and> vs ! nat mid = sint value
       else 0 \<le> mn \<and> ins_pos vs (sint value) (nat mn))"
      by (intro intsetSearch_loop_correct [OF rep sorted]) simp_all
    then obtain mn mid cur where loop:
      "intsetSearch_loop is (sint value) 0 (int (length vs) - 1) (-1) (-1) = Some (mn, mid, cur)"
      "if cur = sint value then 0 \<le> mid \<and> nat mid < length vs \<and> vs ! nat mid = sint value
       else 0 \<le> mn \<and> ins_pos vs (sint value) (nat mn)"
      by blast
    have get: "intsetGet_priv is (length vs - 1) = Some (vs ! (length vs - 1))"
      "intsetGet_priv is 0 = Some (vs ! 0)" using 4(1) by (auto intro: intset_rep_get [OF rep])
    show ?thesis
    proof (cases "cur = sint value")
      case True
      with loop get have "intsetSearch is value = Some (True, nat mid)"
        using 4 len by (simp add: intsetSearch_def)
      with True loop(2) show ?thesis using found by simp
    next
      case False
      with loop get have "intsetSearch is value = Some (False, nat mn)"
        using 4 len by (simp add: intsetSearch_def)
      with False loop(2) show ?thesis using absent by simp
    qed
  qed
qed

subsection \<open>Insertion without a change of width\<close>

lemma sorted_wrt_ins_pos:
  assumes "sorted_wrt (<) vs" "ins_pos vs v k"
  shows "sorted_wrt (<) (take k vs @ v # drop k vs)"
proof -
  have "x < v" if "x \<in> set (take k vs)" for x
    using that assms(2) by (auto simp: ins_pos_def in_set_conv_nth)
  moreover have "v < x" if "x \<in> set (drop k vs)" for x
    using that assms(2) by (auto simp: ins_pos_def in_set_conv_nth)
  moreover have "x < y" if "x \<in> set (take k vs)" "y \<in> set (drop k vs)" for x y
    using calculation that by fastforce
  ultimately show ?thesis
    using assms(1) by (auto simp: sorted_wrt_append sorted_wrt_take sorted_wrt_drop)
qed

lemma set_take_drop_insert: "set (take k vs @ v # drop k vs) = insert v (set vs)"
  by (metis Un_insert_right append_take_drop_id list.simps(15) set_append)

lemma intsetResize_grow:
  assumes "intset_rep is vs" "(length vs + 1) * 8 < 2 ^ 32"
  obtains J where "length J = encoding is"
    "intsetResize junk is (ilength is + 1) = is\<lparr>contents := enc_all (encoding is) vs @ J\<rparr>"
proof
  let ?e = "encoding is"
  let ?J = "map junk [length vs * ?e..<(length vs + 1) * ?e]"
  have e: "?e \<le> 8" "ilength is = length vs" "contents is = enc_all ?e vs"
    using assms(1) by (auto simp: intset_rep_def)
  have "(length vs + 1) * ?e \<le> (length vs + 1) * 8" using e(1) by (rule mult_le_mono2)
  then have "(length vs + 1) * ?e mod 2 ^ 32 = (length vs + 1) * ?e" using assms(2) by simp
  then show "intsetResize junk is (ilength is + 1) = is\<lparr>contents := enc_all ?e vs @ ?J\<rparr>"
    using e by (simp add: intsetResize_def realloc_grow del: upt_Suc)
  show "length ?J = ?e" by simp
qed

text \<open>Making room at position \<open>k\<close>: the tail moves up by one element.\<close>

lemma move_tail_up:
  assumes "k \<le> length vs" "length J = w"
  obtains X where "length X = w"
    "memmove (enc_all w vs @ J) ((k + 1) * w) (k * w) ((length vs - k) * w) =
       Some (enc_all w (take k vs) @ X @ enc_all w (drop k vs))"
proof -
  let ?A = "enc_all w (take k vs)" and ?D = "enc_all w (drop k vs)"
  have "length (?D @ J) = w + (length vs - k) * w" using assms by simp
  then obtain X Y where XY: "?D @ J = X @ Y" "length X = w" "length Y = (length vs - k) * w"
    by (metis length_append_split_ex)
  have c: "enc_all w vs @ J = ?A @ ?D @ J"
    by (metis append_assoc append_take_drop_id enc_all_simps(3))
  have "peeks (?A @ ?D @ J) (k * w) ((length vs - k) * w) = Some ?D"
    using assms by (intro peeks_append_at) auto
  moreover have "pokes ((?A @ X) @ Y) ((k + 1) * w) ?D = Some ((?A @ X) @ ?D)"
    using assms XY by (intro pokes_append_end) (auto simp: min_def)
  ultimately have "memmove (enc_all w vs @ J) ((k + 1) * w) (k * w) ((length vs - k) * w) =
      Some (?A @ X @ ?D)"
    unfolding memmove_def c using XY(1) by (simp del: mult_Suc)
  with XY(2) show ?thesis by (rule that)
qed

lemma intset_insert_at:
  assumes rep: "intset_rep is vs" and k: "k \<le> length vs" and v: "fits (encoding is) v"
    and size: "(length vs + 1) * 8 < 2 ^ 32"
  shows "\<exists>is'. do {
      is \<leftarrow> (if k < ilength (intsetResize junk is (ilength is + 1))
            then intsetMoveTail (intsetResize junk is (ilength is + 1)) k (k + 1)
            else Some (intsetResize junk is (ilength is + 1)));
      is \<leftarrow> intsetSet_priv is k v;
      Some (is\<lparr>ilength := (ilength is + 1) mod 2 ^ 32\<rparr>) } = Some is' \<and>
    intset_rep is' (take k vs @ v # drop k vs) \<and> encoding is' = encoding is"
proof -
  let ?e = "encoding is" and ?vs = "take k vs @ v # drop k vs"
  have e: "?e \<in> {2, 4, 8}" "ilength is = length vs" "\<forall>v \<in> set vs. fits ?e v"
    using rep by (auto simp: intset_rep_def)
  obtain J where J: "length J = ?e"
    "intsetResize junk is (ilength is + 1) = is\<lparr>contents := enc_all ?e vs @ J\<rparr>"
    using rep size by (rule intsetResize_grow)
  obtain X where X: "length X = ?e" and mv:
    "(if k < ilength is then intsetMoveTail (is\<lparr>contents := enc_all ?e vs @ J\<rparr>) k (k + 1)
      else Some (is\<lparr>contents := enc_all ?e vs @ J\<rparr>)) =
     Some (is\<lparr>contents := enc_all ?e (take k vs) @ X @ enc_all ?e (drop k vs)\<rparr>)"
  proof (cases "k < length vs")
    case True
    obtain X where X: "length X = ?e" "memmove (enc_all ?e vs @ J) ((k + 1) * ?e) (k * ?e)
        ((length vs - k) * ?e) = Some (enc_all ?e (take k vs) @ X @ enc_all ?e (drop k vs))"
      using k J(1) by (rule move_tail_up)
    have "(length vs - k) * ?e \<le> (length vs + 1) * 8" using e(1) by (intro mult_le_mono) auto
    then have "(length vs - k) * ?e mod 2 ^ 32 = (length vs - k) * ?e" using size by simp
    then show ?thesis
      using that [of X] X True e by (simp add: intsetMoveTail_def Let_def)
  next
    case False
    then show ?thesis using that [of J] J(1) k e by simp
  qed
  have set: "pokes (enc_all ?e (take k vs) @ X @ enc_all ?e (drop k vs)) (k * ?e) (le_bytes ?e v) =
      Some (enc_all ?e ?vs)"
    using X k by (subst pokes_append_at) auto
  let ?is = "is\<lparr>contents := enc_all ?e ?vs, ilength := (ilength is + 1) mod 2 ^ 32\<rparr>"
  have "intset_rep ?is ?vs"
    using e v size k by (auto simp: intset_rep_def dest: in_set_takeD in_set_dropD)
  moreover have "do {
      is \<leftarrow> (if k < ilength (intsetResize junk is (ilength is + 1))
            then intsetMoveTail (intsetResize junk is (ilength is + 1)) k (k + 1)
            else Some (intsetResize junk is (ilength is + 1)));
      is \<leftarrow> intsetSet_priv is k v;
      Some (is\<lparr>ilength := (ilength is + 1) mod 2 ^ 32\<rparr>) } = Some ?is"
    unfolding J(2) using mv set e by (simp add: intsetSet_priv_def Let_def)
  ultimately show ?thesis by fastforce
qed

subsection \<open>Removal\<close>

lemma move_tail_down:
  assumes "k < length vs"
  obtains Z where "length Z = w"
    "memmove (enc_all w vs) (k * w) ((k + 1) * w) ((length vs - (k + 1)) * w) =
       Some (enc_all w (take k vs) @ enc_all w (drop (k + 1) vs) @ Z)"
proof -
  let ?A = "enc_all w (take k vs)" and ?E = "le_bytes w (vs ! k)" and ?D = "enc_all w (drop (k + 1) vs)"
  have c: "enc_all w vs = ?A @ ?E @ ?D"
    using arg_cong [OF id_take_nth_drop [OF assms], of "enc_all w"] by simp
  have "length (?E @ ?D) = (length vs - (k + 1)) * w + w" by simp
  then obtain Y Z where YZ: "?E @ ?D = Y @ Z" "length Y = (length vs - (k + 1)) * w" "length Z = w"
    by (metis length_append_split_ex)
  have "peeks ((?A @ ?E) @ ?D) ((k + 1) * w) ((length vs - (k + 1)) * w) = Some ?D"
    using assms by (intro peeks_append_end) (auto simp: min_def)
  moreover have "pokes (?A @ Y @ Z) (k * w) ?D = Some (?A @ ?D @ Z)"
    using assms YZ by (intro pokes_append_at) auto
  ultimately have "memmove (enc_all w vs) (k * w) ((k + 1) * w) ((length vs - (k + 1)) * w) =
      Some (?A @ ?D @ Z)"
    unfolding memmove_def c using YZ(1) by (simp del: mult_Suc)
  with YZ(3) show ?thesis by (rule that)
qed

lemma intset_remove_at:
  assumes rep: "intset_rep is vs" and k: "k < length vs" and size: "length vs * 8 < 2 ^ 32"
  shows "\<exists>is'. do {
      is \<leftarrow> (if k < ilength is - 1 then intsetMoveTail is (k + 1) k else Some is);
      Some ((intsetResize junk is (ilength is - 1))\<lparr>ilength := ilength is - 1\<rparr>) } = Some is' \<and>
    intset_rep is' (take k vs @ drop (k + 1) vs) \<and> encoding is' = encoding is"
proof -
  let ?e = "encoding is" and ?vs = "take k vs @ drop (k + 1) vs"
  have e: "?e \<in> {2, 4, 8}" "ilength is = length vs" "\<forall>v \<in> set vs. fits ?e v"
      "contents is = enc_all ?e vs"
    using rep by (auto simp: intset_rep_def)
  have le: "n * ?e < 2 ^ 32" if "n \<le> length vs" for n
  proof -
    have "n * ?e \<le> length vs * 8" using that e(1) by (intro mult_le_mono) auto
    then show ?thesis using size by linarith
  qed
  obtain Z where Z: "length Z = ?e" and mv:
    "(if k < ilength is - 1 then intsetMoveTail is (k + 1) k else Some is) =
     Some (is\<lparr>contents := enc_all ?e ?vs @ Z\<rparr>)"
  proof (cases "k < length vs - 1")
    case True
    obtain Z where Z: "length Z = ?e" "memmove (enc_all ?e vs) (k * ?e) ((k + 1) * ?e)
        ((length vs - (k + 1)) * ?e) = Some (enc_all ?e (take k vs) @ enc_all ?e (drop (k + 1) vs) @ Z)"
      using k by (rule move_tail_down)
    show ?thesis
      using that [of Z] Z True e le [of "length vs - (k + 1)"]
      by (simp add: intsetMoveTail_def Let_def)
  next
    case False
    have "enc_all ?e vs = enc_all ?e ?vs @ le_bytes ?e (vs ! k)"
      using False k arg_cong [OF id_take_nth_drop [OF k], of "enc_all ?e"] by simp
    then show ?thesis using that [of "le_bytes ?e (vs ! k)"] False e by simp
  qed
  have "k + (length vs - (k + 1)) = length vs - 1" using k by simp
  then have len: "length (enc_all ?e ?vs) = (length vs - 1) * ?e"
    using k by (simp add: add_mult_distrib [symmetric])
  have "intsetResize junk (is\<lparr>contents := enc_all ?e ?vs @ Z\<rparr>) (length vs - 1) =
      is\<lparr>contents := enc_all ?e ?vs\<rparr>"
    using le [of "length vs - 1"] realloc_prefix [OF len, of junk Z]
    by (simp add: intsetResize_def Let_def del: enc_all_simps(3) append_assoc)
  then have "do {
      is \<leftarrow> (if k < ilength is - 1 then intsetMoveTail is (k + 1) k else Some is);
      Some ((intsetResize junk is (ilength is - 1))\<lparr>ilength := ilength is - 1\<rparr>) } =
      Some (is\<lparr>contents := enc_all ?e ?vs, ilength := length vs - 1\<rparr>)"
    unfolding mv using e by simp
  moreover have "intset_rep (is\<lparr>contents := enc_all ?e ?vs, ilength := length vs - 1\<rparr>) ?vs"
    using e k by (auto simp: intset_rep_def dest: in_set_takeD in_set_dropD)
  ultimately show ?thesis by fastforce
qed

lemma set_take_drop_remove:
  assumes "sorted_wrt (<) vs" "k < length vs"
  shows "set (take k vs @ drop (k + 1) vs) = set vs - {vs ! k :: int}"
    and "sorted_wrt (<) (take k vs @ drop (k + 1) vs)"
proof -
  have "sorted_wrt (<) (take k vs @ vs ! k # drop (Suc k) vs)"
    using assms by (metis id_take_nth_drop)
  then have "vs ! k \<notin> set (take k vs)" "vs ! k \<notin> set (drop (Suc k) vs)"
    "sorted_wrt (<) (take k vs @ drop (Suc k) vs)"
    by (auto simp: sorted_wrt_append)
  moreover have "set vs = set (take k vs) \<union> {vs ! k} \<union> set (drop (Suc k) vs)"
    using arg_cong [OF id_take_nth_drop [OF assms(2)], of set] by simp
  ultimately show "set (take k vs @ drop (k + 1) vs) = set vs - {vs ! k}"
    "sorted_wrt (<) (take k vs @ drop (k + 1) vs)" by auto
qed

subsection \<open>Widening in place\<close>

text \<open>
  The loop runs from the last element down. Before the step for element \<open>k\<close> the first
  \<open>k\<close> elements are still there in the old width and the others are in their final
  place in the new width: a write never lands on an element not yet read.
\<close>

lemma upgrade_loop_correct:
  assumes "cur \<in> {2, 4, 8}" "encoding is \<in> {2, 4, 8}" "cur \<le> encoding is"
    and "\<forall>v \<in> set vs. fits cur v" "k \<le> length vs" "prepend \<le> 1"
    and "length (contents is) = (length vs + 1) * encoding is"
    and "take (k * cur) (contents is) = enc_all cur (take k vs)"
    and "drop ((k + prepend) * encoding is) (contents is) = enc_all (encoding is) (drop k vs) @ T"
  shows "\<exists>b. upgrade_loop is cur prepend k = Some (is\<lparr>contents := b\<rparr>) \<and>
    length b = (length vs + 1) * encoding is \<and>
    drop (prepend * encoding is) b = enc_all (encoding is) vs @ T"
  using assms
proof (induction k arbitrary: "is")
  case 0
  then show ?case by (intro exI [of _ "contents is"]) simp
next
  case (Suc k)
  let ?e = "encoding is" and ?b = "contents is"
  have k: "k < length vs" and cur: "0 < cur" "fits cur (vs ! k)" using Suc.prems by auto
  have "?b = enc_all cur (take (Suc k) vs) @ drop (Suc k * cur) ?b"
    using Suc.prems(8) by (metis append_take_drop_id)
  then have "peeks ?b (k * cur) cur = Some (le_bytes cur (take (Suc k) vs ! k))"
    using peeks_enc_all [of k "take (Suc k) vs" cur "drop (Suc k * cur) ?b"] k by simp
  then have read: "intsetGetEncoded is k cur = Some (vs ! k)"
    using Suc.prems(1) cur by (simp add: intsetGetEncoded_def le_sint_fits)
  let ?p = "(k + prepend) * ?e"
  let ?b2 = "take ?p ?b @ le_bytes ?e (vs ! k) @ drop (?p + ?e) ?b"
  have room: "?p + ?e \<le> length ?b"
  proof -
    have "Suc (k + prepend) * ?e \<le> (length vs + 1) * ?e" using k Suc.prems(6) by (intro mult_le_mono1) simp
    then show ?thesis using Suc.prems(7) by (simp add: add.commute)
  qed
  have wr: "intsetSet_priv is (k + prepend) (vs ! k) = Some (is\<lparr>contents := ?b2\<rparr>)"
    using Suc.prems(2) room by (simp add: intsetSet_priv_def Let_def pokes_Some)
  have below: "k * cur \<le> ?p" using Suc.prems(3) by (intro mult_le_mono) auto
  have "take (k * cur) ?b = take (k * cur) (enc_all cur (take (Suc k) vs))"
    using Suc.prems(8) by (metis add.commute le_add1 min.absorb1 mult_Suc take_take)
  also have "\<dots> = enc_all cur (take k vs)"
    using k by (simp add: take_Suc_conv_app_nth)
  finally have "take (k * cur) ?b2 = enc_all cur (take k vs)"
    using below room by (simp add: min_def)
  moreover have "drop ?p ?b2 = enc_all ?e (drop k vs) @ T"
    using Suc.prems(9) room k by (simp add: Cons_nth_drop_Suc [symmetric] add.commute add.assoc)
  moreover have "length ?b2 = (length vs + 1) * ?e" using room Suc.prems(7) by simp
  ultimately have "\<exists>b. upgrade_loop (is\<lparr>contents := ?b2\<rparr>) cur prepend k = Some (is\<lparr>contents := b\<rparr>) \<and>
      length b = (length vs + 1) * ?e \<and> drop (prepend * ?e) b = enc_all ?e vs @ T"
    using Suc.IH [of "is\<lparr>contents := ?b2\<rparr>"] Suc.prems(1-6) by simp
  then show ?case using read wr by simp
qed

lemma fits_mono:
  assumes "fits w v" "w \<le> w'"
  shows "fits w' v"
proof -
  have "(2::int) ^ (8 * w - 1) \<le> 2 ^ (8 * w' - 1)" using assms(2) by (intro power_increasing) auto
  then show ?thesis using assms(1) unfolding fits_def by linarith
qed

lemma fits_intsetValueEncoding: "fits (intsetValueEncoding v) (sint v)"
proof -
  have "- (2 ^ 63) \<le> sint v" "sint v < 2 ^ 63"
    using sint_greater_eq [of v] sint_less [of v] by simp_all
  then show ?thesis by (auto simp: fits_def intsetValueEncoding_def)
qed

lemma intset_upgrade:
  assumes rep: "intset_rep is vs" and size: "(length vs + 1) * 8 < 2 ^ 32"
    and enc: "intsetValueEncoding value > encoding is"
  shows "\<exists>is'. intsetUpgradeAndAdd junk is value = Some is' \<and>
    encoding is' = intsetValueEncoding value \<and>
    intset_rep is' (if sint value < 0 then sint value # vs else vs @ [sint value])"
proof -
  let ?v = "sint value" and ?e = "encoding is" and ?n = "intsetValueEncoding value"
  define p :: nat where "p = (if ?v < 0 then 1 else 0)"
  have e: "?e \<in> {2, 4, 8}" "ilength is = length vs" "\<forall>v \<in> set vs. fits ?e v"
      "contents is = enc_all ?e vs"
    using rep by (auto simp: intset_rep_def)
  have n: "?n \<in> {2, 4, 8}" "?e \<le> ?n" using enc by (auto simp: intsetValueEncoding_def)
  have vfit: "fits ?n ?v" by (rule fits_intsetValueEncoding)
  have "(length vs + 1) * ?n \<le> (length vs + 1) * 8" using n(1) by (intro mult_le_mono2) auto
  then have sz: "(length vs + 1) * ?n mod 2 ^ 32 = (length vs + 1) * ?n" using size by simp
  let ?is = "is\<lparr>encoding := ?n, contents := realloc junk (contents is) ((length vs + 1) * ?n)\<rparr>"
  have "length (contents is) \<le> (length vs + 1) * ?n"
    using e(4) n(2) by (simp add: mult_le_mono trans_le_add2)
  then have tk: "take (length vs * ?e) (contents ?is) = enc_all ?e (take (length vs) vs)"
    using e(4) by (simp add: realloc_grow del: mult_Suc add_Suc_right)
  define T where "T = drop ((length vs + p) * ?n) (contents ?is)"
  have "p \<le> 1" by (simp add: p_def)
  then have "\<exists>b. upgrade_loop ?is ?e p (length vs) = Some (?is\<lparr>contents := b\<rparr>) \<and>
      length b = (length vs + 1) * encoding ?is \<and>
      drop (p * encoding ?is) b = enc_all (encoding ?is) vs @ T"
    by (intro upgrade_loop_correct) (use e(1,3) n tk in \<open>simp_all add: T_def\<close>)
  then obtain b where b: "upgrade_loop ?is ?e p (length vs) = Some (?is\<lparr>contents := b\<rparr>)"
      "length b = (length vs + 1) * ?n" "drop (p * ?n) b = enc_all ?n vs @ T" by auto
  let ?vs = "if ?v < 0 then ?v # vs else vs @ [?v]"
  have set: "pokes b ((if p = 1 then 0 else length vs) * ?n) (le_bytes ?n ?v) = Some (enc_all ?n ?vs)"
  proof (cases "?v < 0")
    case True
    then have "length (enc_all ?n vs @ T) = length vs * ?n"
      using b by (metis (no_types, lifting) add_diff_cancel_right' add_mult_distrib length_drop mult_1 p_def)
    then have "T = []" by simp
    then have "b = take ?n b @ enc_all ?n vs" using True b(3) append_take_drop_id [of ?n b] by (simp add: p_def)
    then show ?thesis
      using True b(2) pokes_append_at [of "[]" 0 "take ?n b" "le_bytes ?n ?v" "enc_all ?n vs"]
      by (simp add: p_def)
  next
    case False
    then have "b = enc_all ?n vs @ T" using b(3) by (simp add: p_def)
    moreover from this have "length T = ?n" using b(2) by simp
    ultimately show ?thesis
      using False pokes_append_end [of "enc_all ?n vs" "length vs * ?n" T "le_bytes ?n ?v"]
      by (simp add: p_def)
  qed
  let ?is' = "is\<lparr>encoding := ?n, contents := enc_all ?n ?vs, ilength := (length vs + 1) mod 2 ^ 32\<rparr>"
  have "intsetUpgradeAndAdd junk is value = Some ?is'"
    using b(1) set sz n e(2) unfolding intsetUpgradeAndAdd_def p_def
    by (cases "?v < 0") (simp_all add: Let_def intsetResize_def intsetSet_priv_def)
  moreover have "intset_rep ?is' ?vs"
    using n size vfit e(3) by (auto simp: intset_rep_def intro: fits_mono)
  ultimately show ?thesis by fastforce
qed

text \<open>A value too wide for the set is smaller or larger than all its elements.\<close>

lemma upgrade_out_of_range:
  assumes rep: "intset_rep is vs" and enc: "intsetValueEncoding value > encoding is" and x: "x \<in> set vs"
  shows "if sint value < 0 then sint value < x else x < sint value"
proof -
  have "encoding is = 2 \<or> encoding is = 4 \<or> encoding is = 8" "fits (encoding is) x"
    using rep x by (auto simp: intset_rep_def)
  then show ?thesis using enc by (auto simp: intsetValueEncoding_def fits_def split: if_splits)
qed

lemma too_wide_not_mem:
  "intset_rep is vs \<Longrightarrow> intsetValueEncoding value > encoding is \<Longrightarrow> sint value \<notin> set vs"
  using upgrade_out_of_range [of "is" vs "value" "sint value"] by (auto split: if_splits)

lemma intset_length: "intset_inv is \<Longrightarrow> length (intset_vals is) = ilength is"
  by (simp add: intset_vals_def)

subsection \<open>Contracts\<close>

lemma intsetNew_inv: "intset_inv intsetNew" "intset_vals intsetNew = []"
  by (simp_all add: intset_inv_def intset_vals_def intsetNew_def)

lemma intset_add:
  assumes inv: "intset_inv is" and size: "(ilength is + 1) * 8 < 2 ^ 32"
  shows "\<exists>is'. intsetAdd junk is value = Some (is', sint value \<notin> set (intset_vals is)) \<and>
    intset_inv is' \<and> set (intset_vals is') = insert (sint value) (set (intset_vals is)) \<and>
    encoding is' = max (encoding is) (intsetValueEncoding value)"
proof (cases "intsetValueEncoding value > encoding is")
  case True
  note rep = intset_inv_rep [OF inv]
  let ?vs = "if sint value < 0 then sint value # intset_vals is else intset_vals is @ [sint value]"
  obtain is' where is': "intsetUpgradeAndAdd junk is value = Some is'"
      "encoding is' = intsetValueEncoding value" "intset_rep is' ?vs"
    using intset_upgrade [OF rep _ True] size by (auto simp: intset_length [OF inv])
  have "sorted_wrt (<) ?vs"
    using inv upgrade_out_of_range [OF rep True]
    by (auto simp: intset_inv_def sorted_wrt_append)
  with is' True too_wide_not_mem [OF rep True] show ?thesis
    using intset_repI_inv [OF is'(3)] intset_rep_vals [OF is'(3)]
    by (auto simp: intsetAdd_def)
next
  case False
  note rep = intset_inv_rep [OF inv]
  have sorted: "sorted_wrt (<) (intset_vals is)" using inv by (simp add: intset_inv_def)
  from rep sorted show ?thesis
  proof (cases rule: intsetSearch_correct [of "is" "intset_vals is" "value"])
    case (found pos)
    then show ?thesis using inv False nth_mem [OF found(2)] by (auto simp: intsetAdd_def max_def)
  next
    case (absent pos)
    have fit: "fits (encoding is) (sint value)"
      using False by (intro fits_mono [OF fits_intsetValueEncoding]) simp
    have pos: "pos \<le> length (intset_vals is)" using absent(2) by (simp add: ins_pos_def)
    have len: "(length (intset_vals is) + 1) * 8 < 2 ^ 32" using size intset_length [OF inv] by simp
    obtain is' where is': "do {
        is \<leftarrow> (if pos < ilength (intsetResize junk is (ilength is + 1))
              then intsetMoveTail (intsetResize junk is (ilength is + 1)) pos (pos + 1)
              else Some (intsetResize junk is (ilength is + 1)));
        is \<leftarrow> intsetSet_priv is pos (sint value);
        Some (is\<lparr>ilength := (ilength is + 1) mod 2 ^ 32\<rparr>) } = Some is'"
      "intset_rep is' (take pos (intset_vals is) @ sint value # drop pos (intset_vals is))"
      "encoding is' = encoding is"
      using intset_insert_at [OF rep pos fit len, of junk] by blast
    then have "intsetAdd junk is value = Some (is', True)"
      using False absent(1) by (auto simp: intsetAdd_def Let_def bind_eq_Some_conv)
    then show ?thesis
      using is'(3) False ins_pos_not_mem [OF absent(2)] intset_rep_vals [OF is'(2)] set_take_drop_insert
        intset_repI_inv [OF is'(2) sorted_wrt_ins_pos [OF sorted absent(2)]] by (simp add: max_def)
  qed
qed

text \<open>
  C20: \<open>intsetAdd\<close>, on every set within the 32-bit size of the blob, never accesses
  memory out of bounds, returns success exactly if the value was absent, and yields a
  valid (sorted, duplicate-free, uniformly encoded) set with exactly the value added;
  this includes the in-place widening of all elements.
\<close>

theorem intsetAdd_correct:
  assumes inv: "intset_inv is" and size: "(ilength is + 1) * 8 < 2 ^ 32"
  shows "\<exists>is'. intsetAdd junk is value = Some (is', sint value \<notin> set (intset_vals is)) \<and>
    intset_inv is' \<and> set (intset_vals is') = insert (sint value) (set (intset_vals is)) \<and>
    encoding is' = max (encoding is) (intsetValueEncoding value)"
  by (rule intset_add [OF inv size])

theorem intsetAdd_correct_witness:
  "\<exists>is'. intsetAdd (\<lambda>_. 0) \<lparr>encoding = 2, ilength = 2, contents = [1, 0, 5, 0]\<rparr> 70000 =
      Some (is', True) \<and> set (intset_vals is') = {1, 5, 70000}"
proof -
  let ?is = "\<lparr>encoding = 2, ilength = 2, contents = [1, 0, 5, 0]\<rparr>"
  have v: "intset_vals ?is = [1, 5]" by code_simp
  then have "intset_inv ?is" by (simp add: intset_inv_def)
  from intsetAdd_correct [OF this, of "\<lambda>_. 0" 70000] show ?thesis
    unfolding v by (auto simp: insert_commute)
qed

lemma intset_remove:
  assumes inv: "intset_inv is" and size: "ilength is * 8 < 2 ^ 32"
  shows "\<exists>is'. intsetRemove junk is value = Some (is', sint value \<in> set (intset_vals is)) \<and>
    intset_inv is' \<and> set (intset_vals is') = set (intset_vals is) - {sint value} \<and>
    encoding is' = encoding is"
proof (cases "intsetValueEncoding value \<le> encoding is")
  case True
  note rep = intset_inv_rep [OF inv]
  have sorted: "sorted_wrt (<) (intset_vals is)" using inv by (simp add: intset_inv_def)
  from rep sorted show ?thesis
  proof (cases rule: intsetSearch_correct [of "is" "intset_vals is" "value"])
    case (found pos)
    have len: "length (intset_vals is) * 8 < 2 ^ 32" using size intset_length [OF inv] by simp
    obtain is' where is': "do {
        is \<leftarrow> (if pos < ilength is - 1 then intsetMoveTail is (pos + 1) pos else Some is);
        Some ((intsetResize junk is (ilength is - 1))\<lparr>ilength := ilength is - 1\<rparr>) } = Some is'"
      "intset_rep is' (take pos (intset_vals is) @ drop (pos + 1) (intset_vals is))"
      "encoding is' = encoding is"
      using intset_remove_at [OF rep found(2) len, of junk] by blast
    then have "intsetRemove junk is value = Some (is', True)"
      using True found(1) by (auto simp: intsetRemove_def Let_def bind_eq_Some_conv intsetMoveTail_def)
    then show ?thesis
      using is'(3) found intset_rep_vals [OF is'(2)] set_take_drop_remove [OF sorted found(2)]
        intset_repI_inv [OF is'(2)] nth_mem [OF found(2)] by simp
  next
    case (absent pos)
    then show ?thesis
      using inv True ins_pos_not_mem [OF absent(2)] by (auto simp: intsetRemove_def)
  qed
next
  case False
  then show ?thesis
    using inv too_wide_not_mem [OF intset_inv_rep [OF inv]] by (auto simp: intsetRemove_def)
qed

text \<open>
  C21: \<open>intsetRemove\<close> never accesses memory out of bounds, reports whether the value was
  present, and yields a valid set of the same encoding without it.
\<close>

theorem intsetRemove_correct:
  assumes inv: "intset_inv is" and size: "ilength is * 8 < 2 ^ 32"
  shows "\<exists>is'. intsetRemove junk is value = Some (is', sint value \<in> set (intset_vals is)) \<and>
    intset_inv is' \<and> set (intset_vals is') = set (intset_vals is) - {sint value} \<and>
    encoding is' = encoding is"
  by (rule intset_remove [OF inv size])

theorem intsetRemove_correct_witness:
  "\<exists>is'. intsetRemove (\<lambda>_. 0) \<lparr>encoding = 2, ilength = 2, contents = [1, 0, 5, 0]\<rparr> 1 =
      Some (is', True) \<and> set (intset_vals is') = {5}"
proof -
  let ?is = "\<lparr>encoding = 2, ilength = 2, contents = [1, 0, 5, 0]\<rparr>"
  have v: "intset_vals ?is = [1, 5]" by code_simp
  then have "intset_inv ?is" by (simp add: intset_inv_def)
  from intsetRemove_correct [OF this, of "\<lambda>_. 0" 1] show ?thesis unfolding v by auto
qed

lemma intset_find:
  assumes inv: "intset_inv is"
  shows "intsetFind is value = Some (sint value \<in> set (intset_vals is))"
proof (cases "intsetValueEncoding value \<le> encoding is")
  case True
  from inv have "sorted_wrt (<) (intset_vals is)" by (simp add: intset_inv_def)
  with intset_inv_rep [OF inv] show ?thesis
  proof (cases rule: intsetSearch_correct [of "is" "intset_vals is" "value"])
    case (found pos)
    then show ?thesis using True nth_mem [OF found(2)] by (simp add: intsetFind_def)
  next
    case (absent pos)
    then show ?thesis using True ins_pos_not_mem [OF absent(2)] by (simp add: intsetFind_def)
  qed
next
  case False
  then show ?thesis using too_wide_not_mem [OF intset_inv_rep [OF inv]] by (simp add: intsetFind_def)
qed

text \<open>\<open>intsetFind\<close> decides membership.\<close>

theorem intsetFind_correct:
  assumes inv: "intset_inv is"
  shows "intsetFind is value = Some (sint value \<in> set (intset_vals is))"
  by (rule intset_find [OF inv])

theorem intsetFind_correct_witness:
  "intsetFind \<lparr>encoding = 2, ilength = 2, contents = [254, 255, 5, 0]\<rparr> (- 2) = Some True"
proof -
  let ?is = "\<lparr>encoding = 2, ilength = 2, contents = [254, 255, 5, 0]\<rparr>"
  have v: "intset_vals ?is = [- 2, 5]" by code_simp
  then have "intset_inv ?is" by (simp add: intset_inv_def)
  from intsetFind_correct [OF this, of "- 2"] show ?thesis unfolding v by simp
qed

end
