(* ===== verification/Dict.thy ===== *)
theory Dict
  imports Redis_Prelude
begin

text \<open>
  \<open>dict.c\<close>, \<open>dict.h\<close>: chained hash tables with incremental rehashing. A dictionary has
  two tables; while \<open>rehashidx\<close> is not \<open>-1\<close> the buckets of the first one are moved to
  the second one a few at a time, by the very operations that use the dictionary.

  A bucket, the chain of entries linked by \<open>next\<close>, is a list and \<open>NULL\<close> the empty
  list; \<open>ht_table\<close> is \<^term>\<open>None\<close> for a table pointer that is \<open>NULL\<close>. A pointer to
  an entry inside a dictionary is a triple of table number, bucket and position. Keys
  are values of a type \<open>'k\<close> whose equality is the equality of pointers; the functions
  of the \<open>dictType\<close> are its record fields, an absent function being \<^term>\<open>None\<close>.
  Destructors only release memory and have no counterpart here, but for the order in
  which \<open>_dictClear\<close> releases the entries. An access outside a table, a \<open>NULL\<close>
  dereference and a failed \<open>assert\<close> are \<^term>\<open>None\<close>. The process-wide flag
  \<open>dict_can_resize\<close> is the argument \<open>can_resize\<close>.
\<close>

subsection \<open>Data\<close>

record ('k, 'v) dictEntry =
  ekey :: 'k
  evalue :: 'v

record ('k, 'v) dictType =
  hashFunction :: "'k \<Rightarrow> u64"
  keyDup :: "('k \<Rightarrow> 'k) option"
  valDup :: "('v \<Rightarrow> 'v) option"
  keyCompare :: "('k \<Rightarrow> 'k \<Rightarrow> bool) option"

record ('k, 'v) dictht =
  ht_table :: "('k, 'v) dictEntry list list option"
  ht_size :: nat
  ht_sizemask :: u64
  ht_used :: nat

record ('k, 'v) dict =
  ht0 :: "('k, 'v) dictht"
  ht1 :: "('k, 'v) dictht"
  rehashidx :: int
  iterators :: nat

type_synonym eref = "nat \<times> nat \<times> nat"

abbreviation (input) DICT_HT_INITIAL_SIZE :: nat where "DICT_HT_INITIAL_SIZE \<equiv> 4"
abbreviation (input) dict_force_resize_ratio :: nat where "dict_force_resize_ratio \<equiv> 5"

text \<open>Memory accesses to the buckets and to entries.\<close>

definition chain_at :: "('k, 'v) dictht \<Rightarrow> nat \<Rightarrow> ('k, 'v) dictEntry list option" where
  "chain_at ht idx = (case ht_table ht of None \<Rightarrow> None | Some t \<Rightarrow> peek t idx)"

definition set_chain ::
  "('k, 'v) dictht \<Rightarrow> nat \<Rightarrow> ('k, 'v) dictEntry list \<Rightarrow> ('k, 'v) dictht option" where
  "set_chain ht idx c = (case ht_table ht of None \<Rightarrow> None
     | Some t \<Rightarrow> if idx < length t then Some (ht\<lparr>ht_table := Some (t[idx := c])\<rparr>) else None)"

definition get_ht :: "('k, 'v) dict \<Rightarrow> nat \<Rightarrow> ('k, 'v) dictht" where
  "get_ht d table = (if table = 0 then ht0 d else ht1 d)"

definition set_ht :: "('k, 'v) dict \<Rightarrow> nat \<Rightarrow> ('k, 'v) dictht \<Rightarrow> ('k, 'v) dict" where
  "set_ht d table ht = (if table = 0 then d\<lparr>ht0 := ht\<rparr> else d\<lparr>ht1 := ht\<rparr>)"

definition deref :: "('k, 'v) dict \<Rightarrow> eref \<Rightarrow> ('k, 'v) dictEntry option" where
  "deref d r = (case r of (table, idx, pos) \<Rightarrow> do { c \<leftarrow> chain_at (get_ht d table) idx; peek c pos })"

definition write_entry ::
  "('k, 'v) dict \<Rightarrow> eref \<Rightarrow> ('k, 'v) dictEntry \<Rightarrow> ('k, 'v) dict option" where
  "write_entry d r e = (case r of (table, idx, pos) \<Rightarrow> do {
     c \<leftarrow> chain_at (get_ht d table) idx;
     if pos < length c then do {
       ht \<leftarrow> set_chain (get_ht d table) idx (c[pos := e]);
       Some (set_ht d table ht) }
     else None })"

subsection \<open>The macros of \<open>dict.h\<close>\<close>

definition dictSetKey :: "('k, 'v) dictType \<Rightarrow> 'k \<Rightarrow> 'k" where
  "dictSetKey ty key = (case keyDup ty of Some dup \<Rightarrow> dup key | None \<Rightarrow> key)"

definition stored_val :: "('k, 'v) dictType \<Rightarrow> 'v \<Rightarrow> 'v" where
  "stored_val ty v = (case valDup ty of Some dup \<Rightarrow> dup v | None \<Rightarrow> v)"

definition dictSetVal ::
  "('k, 'v) dictType \<Rightarrow> ('k, 'v) dict \<Rightarrow> eref \<Rightarrow> 'v \<Rightarrow> ('k, 'v) dict option" where
  "dictSetVal ty d r v = do {
     e \<leftarrow> deref d r;
     write_entry d r (e\<lparr>evalue := stored_val ty v\<rparr>) }"

definition dictCompareKeys :: "('k, 'v) dictType \<Rightarrow> 'k \<Rightarrow> 'k \<Rightarrow> bool" where
  "dictCompareKeys ty key1 key2 =
     (case keyCompare ty of Some cmp \<Rightarrow> cmp key1 key2 | None \<Rightarrow> key1 = key2)"

definition dictSlots :: "('k, 'v) dict \<Rightarrow> nat" where
  "dictSlots d = ht_size (ht0 d) + ht_size (ht1 d)"

definition dictSize :: "('k, 'v) dict \<Rightarrow> nat" where
  "dictSize d = ht_used (ht0 d) + ht_used (ht1 d)"

definition dictIsRehashing :: "('k, 'v) dict \<Rightarrow> bool" where
  "dictIsRehashing d \<longleftrightarrow> rehashidx d \<noteq> -1"

subsection \<open>Creation and resizing\<close>

definition dictReset_priv :: "('k, 'v) dictht" where
  "dictReset_priv = \<lparr>ht_table = None, ht_size = 0, ht_sizemask = 0, ht_used = 0\<rparr>"

definition dictInit_priv :: "('k, 'v) dict" where
  "dictInit_priv = \<lparr>ht0 = dictReset_priv, ht1 = dictReset_priv, rehashidx = -1, iterators = 0\<rparr>"

definition dictCreate :: "('k, 'v) dict" where
  "dictCreate = dictInit_priv"

text \<open>\<open>LONG_MAX\<close> is \<open>2 ^ 63 - 1\<close>.\<close>

function dictNextPower_loop :: "nat \<Rightarrow> nat \<Rightarrow> nat" where
  "dictNextPower_loop i sz = (if i \<ge> sz \<or> i = 0 then i else dictNextPower_loop (i * 2) sz)"
  by pat_completeness auto
termination by (relation "measure (\<lambda>(i, sz). sz - i)") auto

definition dictNextPower_priv :: "nat \<Rightarrow> nat" where
  "dictNextPower_priv sz =
     (if sz \<ge> 2 ^ 63 - 1 then 2 ^ 63 else dictNextPower_loop DICT_HT_INITIAL_SIZE sz)"

text \<open>
  The size in bytes of the new table is a \<open>size_t\<close> product that may wrap around; the
  table then has fewer buckets than \<open>size\<close> says.
\<close>

definition dictExpand :: "('k, 'v) dict \<Rightarrow> nat \<Rightarrow> ('k, 'v) dict \<times> bool" where
  "dictExpand d sz =
     (let realsize = dictNextPower_priv sz in
      if dictIsRehashing d \<or> ht_used (ht0 d) > sz then (d, False)
      else if realsize = ht_size (ht0 d) then (d, False)
      else
        let n = \<lparr>ht_table = Some (replicate (realsize * 8 mod 2 ^ 64 div 8) []),
                 ht_size = realsize, ht_sizemask = of_nat realsize - 1, ht_used = 0\<rparr> in
        if ht_table (ht0 d) = None then (d\<lparr>ht0 := n\<rparr>, True)
        else (d\<lparr>ht1 := n, rehashidx := 0\<rparr>, True))"

text \<open>\<open>minimal\<close> is an \<open>int\<close>: it gets the low 32 bits of \<open>used\<close>, read as a signed number, and
  a negative one is replaced by the initial size.\<close>

definition dictResize :: "bool \<Rightarrow> ('k, 'v) dict \<Rightarrow> ('k, 'v) dict \<times> bool" where
  "dictResize can_resize d =
     (if \<not> can_resize \<or> dictIsRehashing d then (d, False)
      else
        let minimal = sint (of_nat (ht_used (ht0 d)) :: 32 word);
            minimal = (if minimal < int DICT_HT_INITIAL_SIZE then int DICT_HT_INITIAL_SIZE else minimal)
        in dictExpand d (nat minimal))"

definition dictExpandIfNeeded_priv :: "bool \<Rightarrow> ('k, 'v) dict \<Rightarrow> ('k, 'v) dict \<times> bool" where
  "dictExpandIfNeeded_priv can_resize d =
     (if dictIsRehashing d then (d, True)
      else if ht_size (ht0 d) = 0 then dictExpand d DICT_HT_INITIAL_SIZE
      else if ht_used (ht0 d) \<ge> ht_size (ht0 d) \<and>
              (can_resize \<or> ht_used (ht0 d) div ht_size (ht0 d) > dict_force_resize_ratio)
      then dictExpand d (ht_used (ht0 d) * 2 mod 2 ^ 64)
      else (d, True))"

subsection \<open>Incremental rehashing\<close>

text \<open>The loop over empty buckets; the flag says that the visits are used up (\<open>return 1\<close>).\<close>

function rehash_skip :: "('k, 'v) dictEntry list list \<Rightarrow> nat \<Rightarrow> int \<Rightarrow> (nat \<times> int \<times> bool) option" where
  "rehash_skip t idx empty_visits =
     (case peek t idx of None \<Rightarrow> None
      | Some [] \<Rightarrow> if empty_visits - 1 = 0 then Some (idx + 1, 0, True)
                  else rehash_skip t (idx + 1) (empty_visits - 1)
      | Some c \<Rightarrow> Some (idx, empty_visits, False))"
  by pat_completeness auto
termination
  by (relation "measure (\<lambda>(t, idx, _). length t - idx)") (auto simp: peek_def split: if_splits)

fun rehash_move :: "('k, 'v) dictType \<Rightarrow> ('k, 'v) dictEntry list \<Rightarrow> ('k, 'v) dict \<Rightarrow> ('k, 'v) dict option" where
  "rehash_move ty [] d = Some d"
| "rehash_move ty (de # nextde) d = do {
     let h = unat (hashFunction ty (ekey de) AND ht_sizemask (ht1 d));
     c \<leftarrow> chain_at (ht1 d) h;
     ht \<leftarrow> set_chain (ht1 d) h (de # c);
     rehash_move ty nextde
       (d\<lparr>ht0 := (ht0 d)\<lparr>ht_used := ht_used (ht0 d) - 1\<rparr>, ht1 := ht\<lparr>ht_used := ht_used ht + 1\<rparr>\<rparr>) }"

text \<open>The flag says that the function returned from inside the loop.\<close>

fun rehash_loop ::
  "('k, 'v) dictType \<Rightarrow> nat \<Rightarrow> int \<Rightarrow> ('k, 'v) dict \<Rightarrow> (('k, 'v) dict \<times> bool) option" where
  "rehash_loop ty 0 empty_visits d = Some (d, False)"
| "rehash_loop ty (Suc n) empty_visits d =
     (if ht_used (ht0 d) = 0 then Some (d, False)
      else if \<not> ht_size (ht0 d) > nat (rehashidx d) then None
      else do {
        t \<leftarrow> ht_table (ht0 d);
        (idx, empty_visits, early) \<leftarrow> rehash_skip t (nat (rehashidx d)) empty_visits;
        let d = d\<lparr>rehashidx := int idx\<rparr>;
        if early then Some (d, True)
        else do {
          de \<leftarrow> chain_at (ht0 d) idx;
          d \<leftarrow> rehash_move ty de d;
          ht \<leftarrow> set_chain (ht0 d) idx [];
          rehash_loop ty n empty_visits (d\<lparr>ht0 := ht, rehashidx := int (idx + 1)\<rparr>) } })"

text \<open>\<open>n\<close> is an \<open>int\<close> in the code; the callers pass 1 and 100, so that \<open>n*10\<close> is neither negative nor overflows.\<close>

definition dictRehash :: "('k, 'v) dictType \<Rightarrow> ('k, 'v) dict \<Rightarrow> nat \<Rightarrow> (('k, 'v) dict \<times> bool) option" where
  "dictRehash ty d n =
     (if \<not> dictIsRehashing d then Some (d, False)
      else do {
        (d, early) \<leftarrow> rehash_loop ty n (int n * 10) d;
        if early then Some (d, True)
        else if ht_used (ht0 d) = 0
        then Some (d\<lparr>ht0 := ht1 d, ht1 := dictReset_priv, rehashidx := -1\<rparr>, False)
        else Some (d, True) })"

text \<open>\<open>clock k\<close> is the \<open>k\<close>-th reading of the clock, \<open>k = 0\<close> being \<open>start\<close>.\<close>

partial_function (option) rehash_ms_loop ::
  "('k, 'v) dictType \<Rightarrow> (nat \<Rightarrow> int) \<Rightarrow> int \<Rightarrow> nat \<Rightarrow> ('k, 'v) dict \<Rightarrow> (('k, 'v) dict \<times> nat) option" where
  "rehash_ms_loop ty clock ms k d =
     (case dictRehash ty d 100 of None \<Rightarrow> None
      | Some (d, again) \<Rightarrow>
          if \<not> again then Some (d, 100 * k)
          else if clock (k + 1) - clock 0 > ms then Some (d, 100 * (k + 1))
          else rehash_ms_loop ty clock ms (k + 1) d)"

definition dictRehashMilliseconds ::
  "('k, 'v) dictType \<Rightarrow> (nat \<Rightarrow> int) \<Rightarrow> ('k, 'v) dict \<Rightarrow> int \<Rightarrow> (('k, 'v) dict \<times> nat) option" where
  "dictRehashMilliseconds ty clock d ms = rehash_ms_loop ty clock ms 0 d"

definition dictRehashStep_priv :: "('k, 'v) dictType \<Rightarrow> ('k, 'v) dict \<Rightarrow> ('k, 'v) dict option" where
  "dictRehashStep_priv ty d =
     (if iterators d = 0 then map_option fst (dictRehash ty d 1) else Some d)"

subsection \<open>Lookup, insertion and removal\<close>

text \<open>The test of the chain loops, \<open>key == he->key || dictCompareKeys(d, key, he->key)\<close>.\<close>

definition keq :: "('k, 'v) dictType \<Rightarrow> 'k \<Rightarrow> 'k \<Rightarrow> bool" where
  "keq ty key k \<longleftrightarrow> key = k \<or> dictCompareKeys ty key k"

fun chain_find :: "('k, 'v) dictType \<Rightarrow> 'k \<Rightarrow> ('k, 'v) dictEntry list \<Rightarrow> nat option" where
  "chain_find ty key [] = None"
| "chain_find ty key (he # c) =
     (if keq ty key (ekey he) then Some 0 else map_option Suc (chain_find ty key c))"

text \<open>
  The loop over the tables that \<open>dictFind\<close>, \<open>dictGenericDelete\<close> and \<open>_dictKeyIndex\<close>
  have in common: the second table is only searched while rehashing.
\<close>

definition find_in :: "('k, 'v) dictType \<Rightarrow> ('k, 'v) dict \<Rightarrow> 'k \<Rightarrow> u64 \<Rightarrow> nat \<Rightarrow> eref option option" where
  "find_in ty d key h table = do {
     let idx = unat (h AND ht_sizemask (get_ht d table));
     c \<leftarrow> chain_at (get_ht d table) idx;
     Some (map_option (\<lambda>pos. (table, idx, pos)) (chain_find ty key c)) }"

definition find_tables :: "('k, 'v) dictType \<Rightarrow> ('k, 'v) dict \<Rightarrow> 'k \<Rightarrow> u64 \<Rightarrow> eref option option" where
  "find_tables ty d key h = do {
     r \<leftarrow> find_in ty d key h 0;
     case r of Some ref \<Rightarrow> Some (Some ref)
     | None \<Rightarrow> if \<not> dictIsRehashing d then Some None else find_in ty d key h 1 }"

definition dictFind :: "('k, 'v) dictType \<Rightarrow> ('k, 'v) dict \<Rightarrow> 'k \<Rightarrow> (('k, 'v) dict \<times> eref option) option" where
  "dictFind ty d key =
     (if ht_used (ht0 d) + ht_used (ht1 d) = 0 then Some (d, None)
      else do {
        d \<leftarrow> (if dictIsRehashing d then dictRehashStep_priv ty d else Some d);
        r \<leftarrow> find_tables ty d key (hashFunction ty key);
        Some (d, r) })"

definition dictFetchValue ::
  "('k, 'v) dictType \<Rightarrow> ('k, 'v) dict \<Rightarrow> 'k \<Rightarrow> (('k, 'v) dict \<times> 'v option) option" where
  "dictFetchValue ty d key = do {
     (d, r) \<leftarrow> dictFind ty d key;
     case r of None \<Rightarrow> Some (d, None)
     | Some ref \<Rightarrow> do { e \<leftarrow> deref d ref; Some (d, Some (evalue e)) } }"

text \<open>The index (\<^term>\<open>None\<close> for \<open>-1\<close>) and \<open>*existing\<close>.\<close>

definition dictKeyIndex_priv ::
  "('k, 'v) dictType \<Rightarrow> bool \<Rightarrow> ('k, 'v) dict \<Rightarrow> 'k \<Rightarrow> u64 \<Rightarrow>
   (('k, 'v) dict \<times> nat option \<times> eref option) option" where
  "dictKeyIndex_priv ty can_resize d key hash =
     (let (d, ok) = dictExpandIfNeeded_priv can_resize d in
      if \<not> ok then Some (d, None, None)
      else do {
        r \<leftarrow> find_tables ty d key hash;
        case r of Some ref \<Rightarrow> Some (d, None, Some ref)
        | None \<Rightarrow>
            let table = (if dictIsRehashing d then 1 else 0)
            in Some (d, Some (unat (hash AND ht_sizemask (get_ht d table))), None) })"

text \<open>
  The result is the new entry (\<^term>\<open>None\<close> for \<open>NULL\<close>) and \<open>*existing\<close>; \<open>junk\<close> is the
  value field of a fresh allocation.
\<close>

definition dictAddRaw ::
  "('k, 'v) dictType \<Rightarrow> bool \<Rightarrow> 'v \<Rightarrow> ('k, 'v) dict \<Rightarrow> 'k \<Rightarrow>
   (('k, 'v) dict \<times> eref option \<times> eref option) option" where
  "dictAddRaw ty can_resize junk d key = do {
     d \<leftarrow> (if dictIsRehashing d then dictRehashStep_priv ty d else Some d);
     (d, index, existing) \<leftarrow> dictKeyIndex_priv ty can_resize d key (hashFunction ty key);
     case index of None \<Rightarrow> Some (d, None, existing)
     | Some idx \<Rightarrow> do {
         let table = (if dictIsRehashing d then 1 else 0);
         c \<leftarrow> chain_at (get_ht d table) idx;
         ht \<leftarrow> set_chain (get_ht d table) idx (\<lparr>ekey = dictSetKey ty key, evalue = junk\<rparr> # c);
         Some (set_ht d table (ht\<lparr>ht_used := ht_used ht + 1\<rparr>), Some (table, idx, 0), None) } }"

definition dictAdd ::
  "('k, 'v) dictType \<Rightarrow> bool \<Rightarrow> 'v \<Rightarrow> ('k, 'v) dict \<Rightarrow> 'k \<Rightarrow> 'v \<Rightarrow> (('k, 'v) dict \<times> bool) option" where
  "dictAdd ty can_resize junk d key v = do {
     (d, entry, existing) \<leftarrow> dictAddRaw ty can_resize junk d key;
     case entry of None \<Rightarrow> Some (d, False)
     | Some r \<Rightarrow> do { d \<leftarrow> dictSetVal ty d r v; Some (d, True) } }"

text \<open>\<open>existing\<close> is dereferenced when no entry was added.\<close>

definition dictReplace ::
  "('k, 'v) dictType \<Rightarrow> bool \<Rightarrow> 'v \<Rightarrow> ('k, 'v) dict \<Rightarrow> 'k \<Rightarrow> 'v \<Rightarrow> (('k, 'v) dict \<times> bool) option" where
  "dictReplace ty can_resize junk d key v = do {
     (d, entry, existing) \<leftarrow> dictAddRaw ty can_resize junk d key;
     case entry of Some r \<Rightarrow> do { d \<leftarrow> dictSetVal ty d r v; Some (d, True) }
     | None \<Rightarrow> do {
         r \<leftarrow> existing;
         d \<leftarrow> dictSetVal ty d r v;
         Some (d, False) } }"

definition dictAddOrFind ::
  "('k, 'v) dictType \<Rightarrow> bool \<Rightarrow> 'v \<Rightarrow> ('k, 'v) dict \<Rightarrow> 'k \<Rightarrow> (('k, 'v) dict \<times> eref option) option" where
  "dictAddOrFind ty can_resize junk d key = do {
     (d, entry, existing) \<leftarrow> dictAddRaw ty can_resize junk d key;
     Some (d, if entry \<noteq> None then entry else existing) }"

text \<open>The unlinked entry is returned; it is no longer part of the dictionary.\<close>

definition dictGenericDelete ::
  "('k, 'v) dictType \<Rightarrow> ('k, 'v) dict \<Rightarrow> 'k \<Rightarrow> (('k, 'v) dict \<times> ('k, 'v) dictEntry option) option" where
  "dictGenericDelete ty d key =
     (if ht_used (ht0 d) = 0 \<and> ht_used (ht1 d) = 0 then Some (d, None)
      else do {
        d \<leftarrow> (if dictIsRehashing d then dictRehashStep_priv ty d else Some d);
        r \<leftarrow> find_tables ty d key (hashFunction ty key);
        case r of None \<Rightarrow> Some (d, None)
        | Some (table, idx, pos) \<Rightarrow> do {
            c \<leftarrow> chain_at (get_ht d table) idx;
            he \<leftarrow> peek c pos;
            ht \<leftarrow> set_chain (get_ht d table) idx (take pos c @ drop (pos + 1) c);
            Some (set_ht d table (ht\<lparr>ht_used := ht_used ht - 1\<rparr>), Some he) } })"

definition dictDelete :: "('k, 'v) dictType \<Rightarrow> ('k, 'v) dict \<Rightarrow> 'k \<Rightarrow> (('k, 'v) dict \<times> bool) option" where
  "dictDelete ty d key = do { (d, he) \<leftarrow> dictGenericDelete ty d key; Some (d, he \<noteq> None) }"

definition dictUnlink ::
  "('k, 'v) dictType \<Rightarrow> ('k, 'v) dict \<Rightarrow> 'k \<Rightarrow> (('k, 'v) dict \<times> ('k, 'v) dictEntry option) option" where
  "dictUnlink ty d key = dictGenericDelete ty d key"

text \<open>Clearing a table also yields the entries in the order they are released.\<close>

function clear_loop ::
  "('k, 'v) dictht \<Rightarrow> nat \<Rightarrow> nat \<Rightarrow> ('k, 'v) dictEntry list \<Rightarrow> ('k, 'v) dictEntry list option" where
  "clear_loop ht i used freed =
     (if i < ht_size ht \<and> used > 0 then
        case chain_at ht i of None \<Rightarrow> None
        | Some c \<Rightarrow> clear_loop ht (i + 1) (used - length c) (freed @ c)
      else Some freed)"
  by pat_completeness auto
termination by (relation "measure (\<lambda>(ht, i, _). ht_size ht - i)") auto

definition dictClear_priv :: "('k, 'v) dictht \<Rightarrow> (('k, 'v) dictht \<times> ('k, 'v) dictEntry list) option" where
  "dictClear_priv ht = do { freed \<leftarrow> clear_loop ht 0 (ht_used ht) []; Some (dictReset_priv, freed) }"

definition dictEmpty :: "('k, 'v) dict \<Rightarrow> (('k, 'v) dict \<times> ('k, 'v) dictEntry list) option" where
  "dictEmpty d = do {
     (h0, f0) \<leftarrow> dictClear_priv (ht0 d);
     (h1, f1) \<leftarrow> dictClear_priv (ht1 d);
     Some (\<lparr>ht0 = h0, ht1 = h1, rehashidx = -1, iterators = 0\<rparr>, f0 @ f1) }"

definition dictRelease :: "('k, 'v) dict \<Rightarrow> ('k, 'v) dictEntry list option" where
  "dictRelease d = do {
     (h0, f0) \<leftarrow> dictClear_priv (ht0 d);
     (h1, f1) \<leftarrow> dictClear_priv (ht1 d);
     Some (f0 @ f1) }"

definition dictGetHash :: "('k, 'v) dictType \<Rightarrow> 'k \<Rightarrow> u64" where
  "dictGetHash ty key = hashFunction ty key"

declare dictNextPower_loop.simps [simp del] rehash_skip.simps [simp del] clear_loop.simps [simp del]

end
