(* ===== verification/Dict_Refine.thy ===== *)
theory Dict_Refine
  imports Dict "HOL-Library.Multiset"
begin

text \<open>
  Correctness of the dictionary of \<^verbatim>\<open>dict.c\<close>: the representation invariant, that
  every operation keeps it and never faults, and that the operations implement a
  finite map up to the key equality of the \<open>dictType\<close>, whatever the state of an
  incremental rehashing.
\<close>

subsection \<open>Abstraction and invariant\<close>

definition ht_entries :: "('k, 'v) dictht \<Rightarrow> ('k, 'v) dictEntry list" where
  "ht_entries ht = (case ht_table ht of None \<Rightarrow> [] | Some t \<Rightarrow> concat t)"

definition dict_entries :: "('k, 'v) dict \<Rightarrow> ('k, 'v) dictEntry list" where
  "dict_entries d = ht_entries (ht0 d) @ ht_entries (ht1 d)"

definition dict_map :: "('k, 'v) dictType \<Rightarrow> ('k, 'v) dict \<Rightarrow> 'k \<Rightarrow> 'v option" where
  "dict_map ty d k = map_option evalue (find (\<lambda>e. keq ty k (ekey e)) (dict_entries d))"

definition slot :: "('k, 'v) dictType \<Rightarrow> ('k, 'v) dictht \<Rightarrow> 'k \<Rightarrow> nat" where
  "slot ty ht k = unat (hashFunction ty k AND ht_sizemask ht)"

text \<open>A table is absent, or has a power of two of buckets with every key in its bucket.\<close>

definition ht_wf :: "('k, 'v) dictType \<Rightarrow> ('k, 'v) dictht \<Rightarrow> bool" where
  "ht_wf ty ht \<longleftrightarrow> (case ht_table ht of None \<Rightarrow> ht = dictReset_priv
     | Some t \<Rightarrow> (\<exists>n \<le> 60. ht_size ht = 2 ^ n) \<and> length t = ht_size ht \<and>
         ht_sizemask ht = of_nat (ht_size ht) - 1 \<and> ht_used ht = length (concat t) \<and>
         (\<forall>i < length t. \<forall>e \<in> set (t ! i). slot ty ht (ekey e) = i))"

definition distinct_keys :: "('k, 'v) dictType \<Rightarrow> ('k, 'v) dictEntry multiset \<Rightarrow> bool" where
  "distinct_keys ty M \<longleftrightarrow> (\<forall>e \<in># M. \<forall>e' \<in># M - {#e#}. \<not> keq ty (ekey e) (ekey e'))"

definition dict_wf :: "('k, 'v) dictType \<Rightarrow> ('k, 'v) dict \<Rightarrow> bool" where
  "dict_wf ty d \<longleftrightarrow> ht_wf ty (ht0 d) \<and> ht_wf ty (ht1 d) \<and>
     distinct_keys ty (mset (dict_entries d)) \<and>
     (if dictIsRehashing d then
        ht_table (ht0 d) \<noteq> None \<and> ht_table (ht1 d) \<noteq> None \<and>
        0 \<le> rehashidx d \<and> rehashidx d \<le> int (ht_size (ht0 d)) \<and>
        (\<forall>i < nat (rehashidx d). chain_at (ht0 d) i = Some [])
      else ht1 d = dictReset_priv)"

text \<open>What the dictionary relies on in the functions of its \<open>dictType\<close>.\<close>

locale hash_type =
  fixes ty :: "('k, 'v) dictType"
  assumes keq_sym: "keq ty a b \<Longrightarrow> keq ty b a"
    and keq_trans: "keq ty a b \<Longrightarrow> keq ty b c \<Longrightarrow> keq ty a c"
    and keq_hash: "keq ty a b \<Longrightarrow> hashFunction ty a = hashFunction ty b"
    and keq_dup: "keq ty (dictSetKey ty k) k"

subsection \<open>Tables\<close>

lemma keq_refl [simp]: "keq ty k k"
  by (simp add: keq_def)

lemma mset_concat_update:
  "i < length t \<Longrightarrow> mset (concat (t[i := c])) = mset (concat t) - mset (t ! i) + mset c"
proof -
  assume i: "i < length t"
  have "mset (concat t) = mset (concat (take i t)) + mset (t ! i) + mset (concat (drop (Suc i) t))"
    using arg_cong [OF id_take_nth_drop [OF i], of "\<lambda>t. mset (concat t)"] by simp
  moreover have "mset (concat (t[i := c])) =
      mset (concat (take i t)) + mset c + mset (concat (drop (Suc i) t))"
    using i by (simp add: upd_conv_take_nth_drop)
  ultimately show ?thesis by simp
qed

lemma chain_subset: "i < length t \<Longrightarrow> mset (t ! i) \<subseteq># mset (concat t)"
  using arg_cong [OF id_take_nth_drop, of i t "\<lambda>t. mset (concat t)"] by (simp add: subset_mset.add_increasing)

text \<open>Masks of tables.\<close>

lemma unat_and_mask:
  assumes "n \<le> 60"
  shows "unat ((h :: u64) AND (of_nat (2 ^ n) - 1)) = unat h mod 2 ^ n"
proof -
  have "(of_nat (2 ^ n) - 1 :: u64) = mask n" by (simp add: mask_eq_exp_minus_1)
  then show ?thesis
    by (simp only: take_bit_eq_mask [symmetric] unsigned_take_bit_eq) (simp add: take_bit_eq_mod)
qed

lemma slot_less:
  assumes "ht_wf ty ht" "ht_table ht = Some t"
  shows "slot ty ht k < length t"
proof -
  obtain n where "n \<le> 60" "ht_size ht = 2 ^ n" "length t = ht_size ht"
      "ht_sizemask ht = of_nat (ht_size ht) - 1"
    using assms by (auto simp: ht_wf_def)
  then show ?thesis by (simp only: slot_def unat_and_mask) simp
qed

lemma ht_wf_set_chain:
  assumes wf: "ht_wf ty ht" and c: "chain_at ht idx = Some c"
    and c': "\<forall>e \<in> set c'. slot ty ht (ekey e) = idx"
  obtains ht' where "set_chain ht idx c' = Some ht'" "ht_used ht' = ht_used ht" "ht_size ht' = ht_size ht"
    "ht_sizemask ht' = ht_sizemask ht" "ht_table ht' \<noteq> None"
    "\<forall>i. chain_at ht' i = (if i = idx then Some c' else chain_at ht i)"
    "ht_wf ty (ht'\<lparr>ht_used := ht_used ht + length c' - length c\<rparr>)"
    "mset c \<subseteq># mset (ht_entries ht)" "length c \<le> ht_used ht"
    "mset (ht_entries ht') = mset (ht_entries ht) - mset c + mset c'"
proof -
  obtain t where t: "ht_table ht = Some t" "idx < length t" "t ! idx = c"
    using c by (auto simp: chain_at_def peek_def split: option.splits if_splits)
  let ?ht = "ht\<lparr>ht_table := Some (t[idx := c'])\<rparr>"
  have sub: "mset c \<subseteq># mset (concat t)" using chain_subset [OF t(2)] t(3) by simp
  have m: "mset (concat (t[idx := c'])) = mset (concat t) - mset c + mset c'"
    using mset_concat_update [OF t(2)] t(3) by simp
  have "length c \<le> length (concat t)" using size_mset_mono [OF sub] by simp
  moreover have "size (mset (concat (t[idx := c']))) = length (concat t) - length c + length c'"
    by (simp only: m size_union size_Diff_submset [OF sub] size_mset)
  ultimately have "length c \<le> length (concat t)"
      "length (concat (t[idx := c'])) = length (concat t) + length c' - length c"
    by simp_all
  moreover have "slot ty (?ht\<lparr>ht_used := u\<rparr>) k = slot ty ht k" for u k by (simp add: slot_def)
  ultimately have "ht_wf ty (?ht\<lparr>ht_used := ht_used ht + length c' - length c\<rparr>)" "length c \<le> ht_used ht"
    using wf t c' by (auto simp: ht_wf_def nth_list_update)
  moreover have "set_chain ht idx c' = Some ?ht" using t by (simp add: set_chain_def)
  moreover have "\<forall>i. chain_at ?ht i = (if i = idx then Some c' else chain_at ht i)"
    using t by (auto simp: chain_at_def peek_def)
  ultimately show ?thesis using sub m t by (intro that [of ?ht]) (simp_all add: ht_entries_def)
qed

subsection \<open>Entries with distinct keys\<close>

lemma distinct_keys_sub:
  assumes "distinct_keys ty M" "N \<subseteq># M"
  shows "distinct_keys ty N"
  unfolding distinct_keys_def
proof (intro ballI)
  fix e e' assume "e \<in># N" "e' \<in># N - {#e#}"
  moreover have "N - {#e#} \<subseteq># M - {#e#}" using assms(2) by (simp add: subseteq_mset_def diff_le_mono)
  ultimately have "e \<in># M" "e' \<in># M - {#e#}" using assms(2) by (blast dest: mset_subset_eqD)+
  then show "\<not> keq ty (ekey e) (ekey e')"
    using assms(1) unfolding distinct_keys_def by blast
qed

context hash_type
begin

lemma distinct_keys_add:
  "distinct_keys ty (add_mset e M) \<longleftrightarrow>
     distinct_keys ty M \<and> (\<forall>e' \<in># M. \<not> keq ty (ekey e) (ekey e'))"
proof
  assume *: "distinct_keys ty (add_mset e M)"
  then have "distinct_keys ty M" by (rule distinct_keys_sub) simp
  moreover have "\<forall>e' \<in># add_mset e M - {#e#}. \<not> keq ty (ekey e) (ekey e')"
    using * unfolding distinct_keys_def by (rule bspec) simp
  ultimately show "distinct_keys ty M \<and> (\<forall>e' \<in># M. \<not> keq ty (ekey e) (ekey e'))" by simp
next
  assume *: "distinct_keys ty M \<and> (\<forall>e' \<in># M. \<not> keq ty (ekey e) (ekey e'))"
  show "distinct_keys ty (add_mset e M)"
    unfolding distinct_keys_def
  proof (intro ballI)
    fix a b assume ab: "a \<in># add_mset e M" "b \<in># add_mset e M - {#a#}"
    show "\<not> keq ty (ekey a) (ekey b)"
    proof (cases "a = e")
      case False
      then have "a \<in># M" "b = e \<or> b \<in># M - {#a#}" using ab by auto
      then show ?thesis using * keq_sym [of "ekey a" "ekey b"] unfolding distinct_keys_def by blast
    qed (use ab * in simp)
  qed
qed

lemma lookup_iff:
  assumes "distinct_keys ty (mset es)"
  shows "map_option evalue (find (\<lambda>e. keq ty k (ekey e)) es) = Some v \<longleftrightarrow>
    (\<exists>e \<in> set es. keq ty k (ekey e) \<and> evalue e = v)"
  using assms
proof (induction es)
  case (Cons a es)
  show ?case
  proof (cases "keq ty k (ekey a)")
    case True
    have "\<not> keq ty k (ekey e)" if "e \<in> set es" for e
      using that Cons.prems keq_trans [OF keq_sym [OF True], of "ekey e"] by (auto simp: distinct_keys_add)
    then show ?thesis using True by auto
  qed (use Cons in \<open>simp add: distinct_keys_add\<close>)
qed simp

lemma dict_map_iff:
  assumes "dict_wf ty d"
  shows "dict_map ty d k = Some v \<longleftrightarrow>
    (\<exists>e \<in># mset (dict_entries d). keq ty k (ekey e) \<and> evalue e = v)"
  using assms lookup_iff [of "dict_entries d"] by (simp add: dict_map_def dict_wf_def)

lemma dict_map_None_iff:
  "dict_map ty d k = None \<longleftrightarrow> (\<forall>e \<in># mset (dict_entries d). \<not> keq ty k (ekey e))"
  by (auto simp: dict_map_def find_None_iff)

lemma dict_map_cong:
  assumes "dict_wf ty d" "dict_wf ty d'" "mset (dict_entries d') = mset (dict_entries d)"
  shows "dict_map ty d' = dict_map ty d"
proof (intro ext option_eqI)
  fix k v
  show "dict_map ty d' k = Some v \<longleftrightarrow> dict_map ty d k = Some v"
    by (simp only: dict_map_iff assms)
qed

end

subsection \<open>Resizing\<close>

lemma dictNextPower_loop_pow:
  "\<exists>n. dictNextPower_loop (2 ^ m) sz = 2 ^ n \<and> m \<le> n \<and> sz \<le> 2 ^ n \<and> (m < n \<longrightarrow> 2 ^ n < 2 * sz)"
proof (induction "sz - 2 ^ m" arbitrary: m rule: less_induct)
  case less
  show ?case
  proof (cases "sz \<le> 2 ^ m")
    case True
    then show ?thesis by (subst dictNextPower_loop.simps) auto
  next
    case False
    then have "sz - 2 ^ Suc m < sz - 2 ^ m" by (simp add: diff_less_mono2)
    from less.hyps [OF this] obtain n where
      "dictNextPower_loop (2 ^ Suc m) sz = 2 ^ n" "Suc m \<le> n" "sz \<le> 2 ^ n" "Suc m < n \<longrightarrow> 2 ^ n < 2 * sz"
      by blast
    moreover have "2 ^ n < 2 * sz" using calculation False by (cases "Suc m = n") auto
    ultimately show ?thesis
      using False by (subst dictNextPower_loop.simps) (auto simp: mult.commute intro!: exI [of _ n])
  qed
qed

lemma dictNextPower_pow:
  assumes "sz \<le> 2 ^ 60"
  obtains n where "dictNextPower_priv sz = 2 ^ n" "2 \<le> n" "n \<le> 60" "sz \<le> 2 ^ n"
    "2 < n \<longrightarrow> 2 ^ n < 2 * sz"
proof -
  have e: "dictNextPower_priv sz = dictNextPower_loop (2 ^ 2) sz"
    using assms by (simp add: dictNextPower_priv_def)
  obtain n where n: "dictNextPower_loop (2 ^ 2) sz = 2 ^ n" "2 \<le> n" "sz \<le> 2 ^ n" "2 < n \<longrightarrow> 2 ^ n < 2 * sz"
    using dictNextPower_loop_pow [of 2 sz] by blast
  have "n \<le> 60"
  proof (rule ccontr)
    assume "\<not> n \<le> 60"
    then have "(2::nat) ^ 61 \<le> 2 ^ n" by (intro power_increasing) auto
    then show False using n(4) assms \<open>\<not> n \<le> 60\<close> by simp
  qed
  with n e show ?thesis by (intro that) simp_all
qed

lemma ht_entries_Reset [simp]: "ht_entries dictReset_priv = []"
  by (simp add: ht_entries_def dictReset_priv_def)

lemma ht_wf_Reset [simp]: "ht_wf ty dictReset_priv"
  by (simp add: ht_wf_def dictReset_priv_def)

lemma ht_table_Reset [simp]: "ht_table dictReset_priv = None" "ht_size dictReset_priv = 0"
  "ht_used dictReset_priv = 0"
  by (simp_all add: dictReset_priv_def)

lemma ht_wf_None: "ht_wf ty ht \<Longrightarrow> ht_table ht = None \<Longrightarrow> ht = dictReset_priv"
  by (simp add: ht_wf_def)

lemma ht_wf_used: "ht_wf ty ht \<Longrightarrow> ht_used ht = length (ht_entries ht)"
  by (auto simp: ht_wf_def ht_entries_def split: option.splits)

lemma dictSize_entries: "dict_wf ty d \<Longrightarrow> dictSize d = size (mset (dict_entries d))"
  by (auto simp: dict_wf_def dictSize_def dict_entries_def ht_wf_used)

lemma dict_wf_create: "dict_wf ty dictCreate" "dict_entries dictCreate = []"
  by (simp_all add: dict_wf_def dictCreate_def dictInit_priv_def dictIsRehashing_def
      dict_entries_def distinct_keys_def)

lemma dictExpand_ok:
  fixes d :: "('k, 'v) dict"
  assumes wf: "dict_wf ty d" and sz: "sz \<le> 2 ^ 60"
    and ok: "\<not> dictIsRehashing d" "ht_used (ht0 d) \<le> sz" "dictNextPower_priv sz \<noteq> ht_size (ht0 d)"
  shows "\<exists>d'. dictExpand d sz = (d', True) \<and> dict_wf ty d' \<and> dict_entries d' = dict_entries d \<and>
    iterators d' = iterators d \<and> ht_table (ht0 d') \<noteq> None \<and>
    (if ht_table (ht0 d) = None then \<not> dictIsRehashing d' \<and> ht_size (ht0 d') = dictNextPower_priv sz
     else rehashidx d' = 0 \<and> ht0 d' = ht0 d \<and> ht_size (ht1 d') = dictNextPower_priv sz)"
proof -
  obtain n where n: "dictNextPower_priv sz = 2 ^ n" "n \<le> 60" using sz by (rule dictNextPower_pow)
  let ?n = "\<lparr>ht_table = Some (replicate (2 ^ n) []), ht_size = 2 ^ n,
      ht_sizemask = of_nat (2 ^ n) - 1, ht_used = 0\<rparr> :: ('k, 'v) dictht"
  have "(2::nat) ^ n \<le> 2 ^ 60" using n(2) by (intro power_increasing) auto
  then have m: "(2::nat) ^ n * 8 mod 2 ^ 64 div 8 = 2 ^ n" by simp
  have h1: "ht1 d = dictReset_priv" using wf ok(1) by (simp add: dict_wf_def)
  have nwf: "ht_wf ty ?n" "ht_entries ?n = []" using n(2)
    by (auto simp: ht_wf_def ht_entries_def)
  show ?thesis
  proof (cases "ht_table (ht0 d)")
    case None
    then have h0: "ht0 d = dictReset_priv" using wf by (auto simp: dict_wf_def dest: ht_wf_None)
    then have "dictExpand d sz = (d\<lparr>ht0 := ?n\<rparr>, True)"
      using ok n m by (simp add: dictExpand_def Let_def del: of_nat_power)
    moreover have "dict_wf ty (d\<lparr>ht0 := ?n\<rparr>)" "dict_entries (d\<lparr>ht0 := ?n\<rparr>) = dict_entries d"
      using nwf wf h0 h1 ok(1) by (auto simp: dict_wf_def dict_entries_def dictIsRehashing_def)
    ultimately show ?thesis using None n ok(1) by (simp add: dictIsRehashing_def)
  next
    case (Some t)
    then have "dictExpand d sz = (d\<lparr>ht1 := ?n, rehashidx := 0\<rparr>, True)"
      using ok n m by (simp add: dictExpand_def Let_def del: of_nat_power)
    moreover have "dict_wf ty (d\<lparr>ht1 := ?n, rehashidx := 0\<rparr>)"
        "dict_entries (d\<lparr>ht1 := ?n, rehashidx := 0\<rparr>) = dict_entries d"
      using nwf wf h1 Some ok(1) by (auto simp: dict_wf_def dict_entries_def dictIsRehashing_def)
    ultimately show ?thesis using Some n by simp
  qed
qed

lemma dictExpand_err:
  assumes "dictIsRehashing d \<or> ht_used (ht0 d) > sz \<or> dictNextPower_priv sz = ht_size (ht0 d)"
  shows "dictExpand d sz = (d, False)"
  using assms by (auto simp: dictExpand_def Let_def)

lemma dictExpand_keeps:
  assumes "dict_wf ty d" "sz \<le> 2 ^ 60"
  shows "\<exists>d' ok. dictExpand d sz = (d', ok) \<and> dict_wf ty d' \<and> dict_entries d' = dict_entries d \<and>
    iterators d' = iterators d"
  using dictExpand_ok [OF assms] dictExpand_err [of d sz] assms(1) by (metis not_less)

lemma dictExpandIfNeeded_ok:
  assumes wf: "dict_wf ty d" and sz: "dictSize d < 2 ^ 59"
  shows "\<exists>d'. dictExpandIfNeeded_priv can_resize d = (d', True) \<and> dict_wf ty d' \<and>
    dict_entries d' = dict_entries d \<and> iterators d' = iterators d \<and> ht_table (ht0 d') \<noteq> None"
proof -
  have used: "ht_used (ht0 d) < 2 ^ 59" using sz by (simp add: dictSize_def)
  have wf0: "ht_wf ty (ht0 d)" using wf by (simp add: dict_wf_def)
  consider (re) "dictIsRehashing d" | (init) "\<not> dictIsRehashing d" "ht_size (ht0 d) = 0"
    | (grow) "\<not> dictIsRehashing d" "ht_size (ht0 d) \<noteq> 0" "ht_used (ht0 d) \<ge> ht_size (ht0 d)"
        "can_resize \<or> ht_used (ht0 d) div ht_size (ht0 d) > dict_force_resize_ratio"
    | (keep) "\<not> dictIsRehashing d" "ht_size (ht0 d) \<noteq> 0" "\<not> (ht_used (ht0 d) \<ge> ht_size (ht0 d) \<and>
        (can_resize \<or> ht_used (ht0 d) div ht_size (ht0 d) > dict_force_resize_ratio))" by blast
  then show ?thesis
  proof cases
    case re
    then show ?thesis using wf by (simp add: dictExpandIfNeeded_priv_def dict_wf_def)
  next
    case init
    then have "ht_table (ht0 d) = None" using wf0 by (auto simp: ht_wf_def split: option.splits)
    then have "ht_used (ht0 d) = 0" using wf0 by (auto dest: ht_wf_None)
    moreover have "dictNextPower_priv 4 = 4"
      by (simp add: dictNextPower_priv_def dictNextPower_loop.simps)
    ultimately show ?thesis
      using dictExpand_ok [OF wf _ init(1), of 4] init by (auto simp: dictExpandIfNeeded_priv_def)
  next
    case grow
    have "ht_used (ht0 d) * 2 \<le> 2 ^ 60" using used by simp
    then obtain n where "dictNextPower_priv (ht_used (ht0 d) * 2) = 2 ^ n" "ht_used (ht0 d) * 2 \<le> 2 ^ n"
      by (rule dictNextPower_pow)
    then have "dictNextPower_priv (ht_used (ht0 d) * 2) \<noteq> ht_size (ht0 d)" using grow by linarith
    then show ?thesis
      using dictExpand_ok [OF wf _ grow(1), of "ht_used (ht0 d) * 2"] grow used
      by (auto simp: dictExpandIfNeeded_priv_def)
  next
    case keep
    then have "ht_table (ht0 d) \<noteq> None" using wf0 by (auto dest: ht_wf_None)
    then show ?thesis using keep wf by (auto simp: dictExpandIfNeeded_priv_def)
  qed
qed

subsection \<open>Incremental rehashing\<close>

lemma chain_slot:
  "ht_wf ty ht \<Longrightarrow> chain_at ht idx = Some c \<Longrightarrow> e \<in> set c \<Longrightarrow> slot ty ht (ekey e) = idx"
  by (auto simp: ht_wf_def chain_at_def peek_def split: option.splits if_splits)

lemma chain_at_slot:
  assumes "ht_wf ty ht" "ht_table ht \<noteq> None"
  obtains c where "chain_at ht (slot ty ht k) = Some c"
  using assms slot_less [of ty ht _ k] by (auto simp: chain_at_def peek_def)

lemma rehash_move_correct:
  assumes "ht_wf ty (ht1 d)" "ht_table (ht1 d) \<noteq> None"
  shows "\<exists>h. rehash_move ty c d =
      Some (d\<lparr>ht0 := (ht0 d)\<lparr>ht_used := ht_used (ht0 d) - length c\<rparr>, ht1 := h\<rparr>) \<and>
    ht_wf ty h \<and> ht_table h \<noteq> None \<and> mset (ht_entries h) = mset c + mset (ht_entries (ht1 d)) \<and>
    ht_size h = ht_size (ht1 d)"
  using assms
proof (induction c arbitrary: d)
  case (Cons e c)
  obtain c0 where c0: "chain_at (ht1 d) (slot ty (ht1 d) (ekey e)) = Some c0"
    using Cons.prems by (rule chain_at_slot)
  have sl: "\<forall>x \<in> set (e # c0). slot ty (ht1 d) (ekey x) = slot ty (ht1 d) (ekey e)"
    using chain_slot [OF Cons.prems(1) c0] by auto
  obtain h where h: "set_chain (ht1 d) (slot ty (ht1 d) (ekey e)) (e # c0) = Some h"
      "ht_wf ty (h\<lparr>ht_used := ht_used (ht1 d) + length (e # c0) - length c0\<rparr>)"
      "ht_used h = ht_used (ht1 d)" "ht_table h \<noteq> None" "ht_size h = ht_size (ht1 d)"
      "mset (ht_entries h) = mset (ht_entries (ht1 d)) - mset c0 + mset (e # c0)"
      "mset c0 \<subseteq># mset (ht_entries (ht1 d))"
    using ht_wf_set_chain [OF Cons.prems(1) c0 sl] by metis
  let ?d = "d\<lparr>ht0 := (ht0 d)\<lparr>ht_used := ht_used (ht0 d) - 1\<rparr>, ht1 := h\<lparr>ht_used := ht_used h + 1\<rparr>\<rparr>"
  have step: "rehash_move ty (e # c) d = rehash_move ty c ?d"
    using c0 h(1) by (simp add: slot_def [symmetric])
  have ent: "mset (ht_entries (h\<lparr>ht_used := u\<rparr>)) = add_mset e (mset (ht_entries (ht1 d)))" for u
    using h(6,7) by (simp add: ht_entries_def)
  have "ht_wf ty (ht1 ?d)" "ht_table (ht1 ?d) \<noteq> None" using h by simp_all
  from Cons.IH [OF this] obtain h' where "rehash_move ty c ?d =
      Some (?d\<lparr>ht0 := (ht0 ?d)\<lparr>ht_used := ht_used (ht0 ?d) - length c\<rparr>, ht1 := h'\<rparr>)"
    "ht_wf ty h'" "ht_table h' \<noteq> None" "mset (ht_entries h') = mset c + mset (ht_entries (ht1 ?d))"
    "ht_size h' = ht_size (ht1 ?d)" by blast
  then show ?case unfolding step using h(5) ent by (intro exI [of _ h']) simp
next
  case Nil
  then show ?case by (intro exI [of _ "ht1 d"]) simp
qed

lemma rehash_skip_stop:
  "idx < length t \<Longrightarrow> t ! idx \<noteq> [] \<Longrightarrow> rehash_skip t idx ev = Some (idx, ev, False)"
  by (subst rehash_skip.simps) (auto simp: peek_def split: list.splits)

lemma rehash_skip_correct:
  assumes "idx \<le> j" "j < length t" "t ! j \<noteq> []"
  shows "\<exists>idx' ev' early. rehash_skip t idx ev = Some (idx', ev', early) \<and> idx \<le> idx' \<and> idx' \<le> length t \<and>
    (\<forall>i. idx \<le> i \<and> i < idx' \<longrightarrow> t ! i = []) \<and>
    (if early then idx < idx' else idx' < length t \<and> t ! idx' \<noteq> [])"
  using assms(1)
proof (induction "j - idx" arbitrary: idx ev)
  case 0
  then have "idx = j" using assms by simp
  then show ?case using assms rehash_skip_stop [of idx t ev]
    by (intro exI [of _ idx] exI [of _ ev] exI [of _ False]) auto
next
  case (Suc n)
  then have idx: "idx < length t" "idx < j" using assms(2) by linarith+
  show ?case
  proof (cases "t ! idx = []")
    case True
    show ?thesis
    proof (cases "ev - 1 = 0")
      case True
      then have "rehash_skip t idx ev = Some (idx + 1, 0, True)"
        using \<open>t ! idx = []\<close> idx by (subst rehash_skip.simps) (simp add: peek_def)
      moreover have "\<forall>i. idx \<le> i \<and> i < idx + 1 \<longrightarrow> t ! i = []"
        using \<open>t ! idx = []\<close> by (auto simp: less_Suc_eq)
      ultimately show ?thesis using idx
        by (intro exI [of _ "idx + 1"] exI [of _ 0] exI [of _ True]) simp
    next
      case False
      have "n = j - (idx + 1)" "idx + 1 \<le> j" using Suc.hyps(2) idx by linarith+
      from Suc.hyps(1) [OF this, of "ev - 1"] obtain idx' ev' early where r:
        "rehash_skip t (idx + 1) (ev - 1) = Some (idx', ev', early)" "idx + 1 \<le> idx'" "idx' \<le> length t"
        "\<forall>i. idx + 1 \<le> i \<and> i < idx' \<longrightarrow> t ! i = []"
        "if early then idx + 1 < idx' else idx' < length t \<and> t ! idx' \<noteq> []" by blast
      have "t ! i = []" if "idx \<le> i" "i < idx'" for i
        using that r(4) \<open>t ! idx = []\<close> by (cases "i = idx") auto
      moreover have "rehash_skip t idx ev = Some (idx', ev', early)"
        using False \<open>t ! idx = []\<close> idx r(1) by (subst rehash_skip.simps) (simp add: peek_def)
      moreover have "if early then idx < idx' else idx' < length t \<and> t ! idx' \<noteq> []"
        using r(2,5) by (simp split: if_splits)
      ultimately show ?thesis using r(2,3) by (intro exI [of _ idx'] exI [of _ ev'] exI [of _ early]) simp
    qed
  next
    case False
    then show ?thesis using idx rehash_skip_stop [of idx t ev]
      by (intro exI [of _ idx] exI [of _ ev] exI [of _ False]) auto
  qed
qed

lemma chain_at_Some: "ht_table ht = Some t \<Longrightarrow> chain_at ht i = (if i < length t then Some (t ! i) else None)"
  by (simp add: chain_at_def peek_def)

text \<open>Moving one bucket: from a rehashing state to the next one.\<close>

lemma rehash_bucket:
  assumes wf: "dict_wf ty d" and re: "dictIsRehashing d" and t: "ht_table (ht0 d) = Some t"
    and idx: "idx < length t" and below: "\<forall>i < idx. t ! i = []"
  obtains d' where "do { de \<leftarrow> chain_at (ht0 d) idx; d \<leftarrow> rehash_move ty de (d\<lparr>rehashidx := int idx\<rparr>);
      ht \<leftarrow> set_chain (ht0 d) idx []; Some (d\<lparr>ht0 := ht, rehashidx := int (idx + 1)\<rparr>) } = Some d'"
    "dict_wf ty d'" "dictIsRehashing d'" "mset (dict_entries d') = mset (dict_entries d)"
    "iterators d' = iterators d" "ht_size (ht0 d') = ht_size (ht0 d)" "ht_size (ht1 d') = ht_size (ht1 d)"
    "rehashidx d' = int (idx + 1)"
proof -
  let ?d = "d\<lparr>rehashidx := int idx\<rparr>" and ?c = "t ! idx"
  from wf re have w: "ht_wf ty (ht0 d)" "ht_wf ty (ht1 ?d)" "ht_table (ht1 ?d) \<noteq> None" "length t = ht_size (ht0 d)"
    using t by (auto simp: dict_wf_def ht_wf_def)
  have c: "chain_at (ht0 d) idx = Some ?c" using t idx by (simp add: chain_at_Some)
  obtain h where h: "rehash_move ty ?c ?d =
      Some (?d\<lparr>ht0 := (ht0 ?d)\<lparr>ht_used := ht_used (ht0 ?d) - length ?c\<rparr>, ht1 := h\<rparr>)"
    "ht_wf ty h" "ht_table h \<noteq> None" "mset (ht_entries h) = mset ?c + mset (ht_entries (ht1 ?d))"
    "ht_size h = ht_size (ht1 ?d)"
    using rehash_move_correct [OF w(2,3), of ?c] by blast
  let ?h0 = "(ht0 d)\<lparr>ht_used := ht_used (ht0 d) - length ?c, ht_table := Some (t[idx := []])\<rparr>"
  have sub: "mset ?c \<subseteq># mset (concat t)" using idx by (rule chain_subset)
  have m: "mset (concat (t[idx := []])) = mset (concat t) - mset ?c"
    using mset_concat_update [OF idx, of "[]"] by simp
  have "size (mset (concat (t[idx := []]))) = length (concat t) - length ?c"
    by (simp only: m size_Diff_submset [OF sub] size_mset)
  moreover have "slot ty ?h0 k = slot ty (ht0 d) k" for k by (simp add: slot_def)
  ultimately have h0: "ht_wf ty ?h0" using w(1) t idx by (auto simp: ht_wf_def nth_list_update)
  let ?d' = "d\<lparr>ht0 := ?h0, ht1 := h, rehashidx := int (idx + 1)\<rparr>"
  have ent: "mset (dict_entries ?d') = mset (dict_entries d)"
    using h(4) m sub t by (simp add: dict_entries_def ht_entries_def)
  have "\<forall>i < nat (rehashidx ?d'). chain_at (ht0 ?d') i = Some []"
    using below idx by (auto simp: chain_at_Some nth_list_update less_Suc_eq nat_add_distrib)
  moreover have "distinct_keys ty (mset (dict_entries ?d'))" unfolding ent using wf by (simp add: dict_wf_def)
  ultimately have "dict_wf ty ?d'"
    using h0 h(2,3) idx w(4) by (simp add: dict_wf_def dictIsRehashing_def)
  moreover have "do { de \<leftarrow> chain_at (ht0 d) idx; d \<leftarrow> rehash_move ty de (d\<lparr>rehashidx := int idx\<rparr>);
      ht \<leftarrow> set_chain (ht0 d) idx []; Some (d\<lparr>ht0 := ht, rehashidx := int (idx + 1)\<rparr>) } = Some ?d'"
    using c h(1) t idx by (simp add: set_chain_def)
  ultimately show ?thesis using ent h(5) by (intro that [of ?d']) (simp_all add: dictIsRehashing_def)
qed

lemma used_nonempty_bucket:
  assumes wf: "dict_wf ty d" and re: "dictIsRehashing d" and used: "ht_used (ht0 d) \<noteq> 0"
  obtains t j where "ht_table (ht0 d) = Some t" "nat (rehashidx d) \<le> j" "j < length t" "t ! j \<noteq> []"
    "length t = ht_size (ht0 d)" "\<forall>i < nat (rehashidx d). t ! i = []"
proof -
  from wf re obtain t where t: "ht_table (ht0 d) = Some t" "length t = ht_size (ht0 d)"
      "ht_used (ht0 d) = length (concat t)" "nat (rehashidx d) \<le> length t"
      "\<forall>i < nat (rehashidx d). chain_at (ht0 d) i = Some []"
    by (auto simp: dict_wf_def ht_wf_def)
  have below: "\<forall>i < nat (rehashidx d). t ! i = []"
    using t(1,4,5) by (auto simp: chain_at_Some)
  from used t(3) obtain c where "c \<in> set t" "c \<noteq> []" by (auto simp: concat_eq_Nil_conv)
  then obtain j where j: "j < length t" "t ! j \<noteq> []" by (auto simp: in_set_conv_nth)
  then have "nat (rehashidx d) \<le> j" using below by (auto simp: not_less [symmetric])
  with t j below show ?thesis by (intro that) auto
qed

lemma rehash_loop_correct:
  assumes "dict_wf ty d" "dictIsRehashing d"
  shows "\<exists>d' early. rehash_loop ty n ev d = Some (d', early) \<and> dict_wf ty d' \<and> dictIsRehashing d' \<and>
    mset (dict_entries d') = mset (dict_entries d) \<and> iterators d' = iterators d \<and>
    ht_size (ht0 d') = ht_size (ht0 d) \<and> ht_size (ht1 d') = ht_size (ht1 d) \<and>
    rehashidx d \<le> rehashidx d' \<and> (early \<longrightarrow> ht_used (ht0 d') \<noteq> 0) \<and>
    (0 < n \<and> ht_used (ht0 d) \<noteq> 0 \<longrightarrow> rehashidx d < rehashidx d')"
  using assms
proof (induction n arbitrary: ev d)
  case (Suc n)
  show ?case
  proof (cases "ht_used (ht0 d) = 0")
    case False
    obtain t j where t: "ht_table (ht0 d) = Some t" "nat (rehashidx d) \<le> j" "j < length t" "t ! j \<noteq> []"
        "length t = ht_size (ht0 d)" "\<forall>i < nat (rehashidx d). t ! i = []"
      using Suc.prems False by (rule used_nonempty_bucket)
    obtain idx ev' early where sk: "rehash_skip t (nat (rehashidx d)) ev = Some (idx, ev', early)"
        "nat (rehashidx d) \<le> idx" "idx \<le> length t" "\<forall>i. nat (rehashidx d) \<le> i \<and> i < idx \<longrightarrow> t ! i = []"
        "if early then nat (rehashidx d) < idx else idx < length t \<and> t ! idx \<noteq> []"
      using rehash_skip_correct [OF t(2,3,4), of ev] by blast
    have below: "\<forall>i < idx. t ! i = []" using t(6) sk(4) by (meson not_less)
    have idx0: "0 \<le> rehashidx d" using Suc.prems by (simp add: dict_wf_def)
    have lt: "nat (rehashidx d) < ht_size (ht0 d)" using t by linarith
    show ?thesis
    proof (cases early)
      case True
      have "dict_wf ty (d\<lparr>rehashidx := int idx\<rparr>)"
        using Suc.prems below t(1,5) sk(3)
        by (auto simp: dict_wf_def dictIsRehashing_def dict_entries_def chain_at_Some)
      moreover have "rehash_loop ty (Suc n) ev d = Some (d\<lparr>rehashidx := int idx\<rparr>, True)"
        using False lt t(1) sk(1) True by simp
      ultimately show ?thesis using True sk(5) idx0 False
        by (intro exI [of _ "d\<lparr>rehashidx := int idx\<rparr>"] exI [of _ True])
          (auto simp: dictIsRehashing_def dict_entries_def)
    next
      case not_early: False
      then have "idx < length t" using sk(5) by simp
      from Suc.prems t(1) this below obtain d' where
        d': "do { de \<leftarrow> chain_at (ht0 d) idx; d \<leftarrow> rehash_move ty de (d\<lparr>rehashidx := int idx\<rparr>);
            ht \<leftarrow> set_chain (ht0 d) idx []; Some (d\<lparr>ht0 := ht, rehashidx := int (idx + 1)\<rparr>) } = Some d'"
          "dict_wf ty d'" "dictIsRehashing d'" "mset (dict_entries d') = mset (dict_entries d)"
          "iterators d' = iterators d" "ht_size (ht0 d') = ht_size (ht0 d)"
          "ht_size (ht1 d') = ht_size (ht1 d)" "rehashidx d' = int (idx + 1)"
        by (rule rehash_bucket)
      have eq: "rehash_loop ty (Suc n) ev d = rehash_loop ty n ev' d'"
        using d'(1) False lt t(1) sk(1) not_early by (auto simp: bind_eq_Some_conv)
      have "rehashidx d < rehashidx d'" using d'(8) sk(2) idx0 by linarith
      moreover have "rehashidx d \<le> i" "rehashidx d < i" if "rehashidx d' \<le> i" for i
        using that calculation by linarith+
      ultimately show ?thesis unfolding eq using Suc.IH [OF d'(2,3), of ev'] d'(4-7) by fastforce
    qed
  qed (use Suc.prems in auto)
qed auto

lemma dictRehash_correct:
  assumes wf: "dict_wf ty d"
  obtains d' where "dictRehash ty d n = Some (d', dictIsRehashing d')" "dict_wf ty d'"
    "mset (dict_entries d') = mset (dict_entries d)" "iterators d' = iterators d"
    "dictIsRehashing d' \<longrightarrow> dictIsRehashing d \<and> ht_size (ht0 d') = ht_size (ht0 d) \<and>
       ht_size (ht1 d') = ht_size (ht1 d) \<and> rehashidx d \<le> rehashidx d' \<and>
       (0 < n \<longrightarrow> rehashidx d < rehashidx d')"
    "dictIsRehashing d \<longrightarrow> ht_table (ht0 d') \<noteq> None"
proof (cases "dictIsRehashing d")
  case True
  obtain d' early where r: "rehash_loop ty n (int n * 10) d = Some (d', early)" "dict_wf ty d'"
      "dictIsRehashing d'" "mset (dict_entries d') = mset (dict_entries d)" "iterators d' = iterators d"
      "ht_size (ht0 d') = ht_size (ht0 d)" "ht_size (ht1 d') = ht_size (ht1 d)"
      "rehashidx d \<le> rehashidx d'" "early \<longrightarrow> ht_used (ht0 d') \<noteq> 0"
      "0 < n \<and> ht_used (ht0 d) \<noteq> 0 \<longrightarrow> rehashidx d < rehashidx d'"
    using rehash_loop_correct [OF wf True, of n "int n * 10"] by blast
  show ?thesis
  proof (cases "ht_used (ht0 d') = 0")
    case used0: True
    let ?d = "d'\<lparr>ht0 := ht1 d', ht1 := dictReset_priv, rehashidx := -1\<rparr>"
    have "ht_entries (ht0 d') = []" using used0 r(2) by (auto simp: dict_wf_def dest: ht_wf_used)
    then have ent: "dict_entries ?d = dict_entries d'" by (simp add: dict_entries_def)
    then have "dict_wf ty ?d" using r(2,3) by (simp add: dict_wf_def dictIsRehashing_def)
    moreover have "dictRehash ty d n = Some (?d, False)" "ht_table (ht0 ?d) \<noteq> None"
      using True r used0 by (auto simp: dictRehash_def dict_wf_def)
    ultimately show ?thesis using ent r(4,5) by (intro that [of ?d]) (simp_all add: dictIsRehashing_def)
  next
    case False
    have "ht_used (ht0 d) \<noteq> 0" if "0 < n"
    proof
      assume "ht_used (ht0 d) = 0"
      then have "d' = d" using r(1) that by (cases n) auto
      then show False using False \<open>ht_used (ht0 d) = 0\<close> by simp
    qed
    moreover have "dictRehash ty d n = Some (d', True)" using True r(1) False by (auto simp: dictRehash_def)
    moreover have "ht_table (ht0 d') \<noteq> None" using r(2,3) by (simp add: dict_wf_def)
    ultimately show ?thesis using r True by (intro that [of d']) simp_all
  qed
next
  case False
  then show ?thesis using wf by (intro that [of d]) (simp_all add: dictRehash_def)
qed

subsection \<open>Lookup\<close>

lemma chain_find_Some: "chain_find ty key c = Some pos \<Longrightarrow> pos < length c \<and> keq ty key (ekey (c ! pos))"
  by (induction c arbitrary: pos) (auto split: if_splits)

lemma chain_find_None: "chain_find ty key c = None \<longleftrightarrow> (\<forall>e \<in> set c. \<not> keq ty key (ekey e))"
  by (induction c) auto

lemma get_ht_simps [simp]: "get_ht d 0 = ht0 d" "get_ht d (Suc n) = ht1 d"
  by (simp_all add: get_ht_def)

lemma entry_chain:
  assumes "ht_wf ty ht" "e \<in> set (ht_entries ht)"
  obtains c where "chain_at ht (slot ty ht (ekey e)) = Some c" "e \<in> set c"
proof -
  obtain t where t: "ht_table ht = Some t" "e \<in> set (concat t)"
    using assms(2) by (cases "ht_table ht") (simp_all add: ht_entries_def)
  then obtain c where "c \<in> set t" "e \<in> set c" by auto
  then obtain i where i: "i < length t" "e \<in> set (t ! i)" by (metis in_set_conv_nth)
  then have "slot ty ht (ekey e) = i" using assms(1) t(1) by (auto simp: ht_wf_def)
  with i t show ?thesis by (intro that [of "t ! i"]) (simp_all add: chain_at_Some)
qed

lemma chain_entries: "chain_at ht idx = Some c \<Longrightarrow> e \<in> set c \<Longrightarrow> e \<in> set (ht_entries ht)"
  by (auto simp: chain_at_def peek_def ht_entries_def split: option.splits if_splits)

context hash_type
begin

lemma find_in_correct:
  assumes wf: "ht_wf ty (get_ht d table)" and tab: "ht_table (get_ht d table) \<noteq> None"
  obtains (found) idx pos c where
      "find_in ty d key (hashFunction ty key) table = Some (Some (table, idx, pos))"
      "chain_at (get_ht d table) idx = Some c" "pos < length c" "keq ty key (ekey (c ! pos))"
  | (absent) "find_in ty d key (hashFunction ty key) table = Some None"
      "\<forall>e \<in> set (ht_entries (get_ht d table)). \<not> keq ty key (ekey e)"
proof -
  let ?ht = "get_ht d table"
  obtain c where c: "chain_at ?ht (slot ty ?ht key) = Some c" using wf tab by (rule chain_at_slot)
  have f: "find_in ty d key (hashFunction ty key) table =
      Some (map_option (\<lambda>pos. (table, slot ty ?ht key, pos)) (chain_find ty key c))"
    using c by (simp add: find_in_def slot_def)
  show ?thesis
  proof (cases "chain_find ty key c")
    case None
    have "\<not> keq ty key (ekey e)" if e: "e \<in> set (ht_entries ?ht)" for e
    proof
      assume k: "keq ty key (ekey e)"
      then have "slot ty ?ht (ekey e) = slot ty ?ht key" by (simp add: slot_def keq_hash)
      with entry_chain [OF wf e] c have "e \<in> set c" by auto
      with None k show False by (simp add: chain_find_None)
    qed
    with f None show ?thesis by (intro absent) simp_all
  next
    case (Some pos)
    with f c chain_find_Some [OF this] show ?thesis
      by (intro found [of "slot ty ?ht key" pos c]) simp_all
  qed
qed

lemma find_tables_correct:
  assumes wf: "dict_wf ty d" and tab: "ht_table (ht0 d) \<noteq> None"
  obtains (found) table idx pos c where
      "find_tables ty d key (hashFunction ty key) = Some (Some (table, idx, pos))"
      "chain_at (get_ht d table) idx = Some c" "pos < length c" "keq ty key (ekey (c ! pos))"
  | (absent) "find_tables ty d key (hashFunction ty key) = Some None"
      "\<forall>e \<in> set (dict_entries d). \<not> keq ty key (ekey e)"
proof -
  have wf': "ht_wf ty (get_ht d 0)" "ht_table (get_ht d 0) \<noteq> None" "ht_wf ty (get_ht d 1)"
      "dictIsRehashing d \<Longrightarrow> ht_table (get_ht d 1) \<noteq> None"
      "\<not> dictIsRehashing d \<Longrightarrow> ht_entries (ht1 d) = []"
    using wf tab by (auto simp: dict_wf_def)
  from wf'(1,2) show ?thesis
  proof (cases rule: find_in_correct [where key = key])
    case (found idx pos c)
    then show ?thesis by (intro that(1) [of 0 idx pos c]) (simp_all add: find_tables_def)
  next
    case absent0: absent
    show ?thesis
    proof (cases "dictIsRehashing d")
      case True
      from wf'(3) wf'(4) [OF True] show ?thesis
      proof (cases rule: find_in_correct [where key = key])
        case (found idx pos c)
        then show ?thesis using absent0 True by (intro that(1) [of 1 idx pos c]) (simp_all add: find_tables_def)
      next
        case absent
        then show ?thesis using absent0 True
          by (intro that(2)) (auto simp: find_tables_def dict_entries_def)
      qed
    next
      case False
      then show ?thesis using absent0 wf'(5)
        by (intro that(2)) (auto simp: find_tables_def dict_entries_def)
    qed
  qed
qed

end

subsection \<open>Updates\<close>

text \<open>Replacing the chain of one bucket, as insertion, removal and assignment do.\<close>

lemma dict_update_chain:
  assumes wf: "dict_wf ty d" and c: "chain_at (get_ht d table) idx = Some c"
    and c': "\<forall>e \<in> set c'. slot ty (get_ht d table) (ekey e) = idx"
    and re: "table = 0 \<longrightarrow> \<not> dictIsRehashing d \<or> c \<noteq> []"
    and dist: "distinct_keys ty (mset (dict_entries d) - mset c + mset c')"
  obtains ht d' where "set_chain (get_ht d table) idx c' = Some ht"
    "d' = set_ht d table (ht\<lparr>ht_used := ht_used ht + length c' - length c\<rparr>)"
    "dict_wf ty d'" "mset (dict_entries d') = mset (dict_entries d) - mset c + mset c'"
    "length c \<le> ht_used ht" "chain_at (get_ht d' table) idx = Some c'" "iterators d' = iterators d"
proof -
  let ?ht = "get_ht d table"
  have "ht_wf ty ?ht" using wf by (simp add: dict_wf_def get_ht_def)
  from this c c' obtain ht where ht: "set_chain ?ht idx c' = Some ht" "ht_used ht = ht_used ?ht"
    "ht_size ht = ht_size ?ht" "ht_table ht \<noteq> None"
    "\<forall>i. chain_at ht i = (if i = idx then Some c' else chain_at ?ht i)"
    "ht_wf ty (ht\<lparr>ht_used := ht_used ?ht + length c' - length c\<rparr>)"
    "mset c \<subseteq># mset (ht_entries ?ht)" "length c \<le> ht_used ?ht"
    "mset (ht_entries ht) = mset (ht_entries ?ht) - mset c + mset c'"
    by (rule ht_wf_set_chain)
  let ?h = "ht\<lparr>ht_used := ht_used ht + length c' - length c\<rparr>" and ?d = "set_ht d table"
  have ent: "ht_entries ?h = ht_entries ht" "chain_at ?h i = chain_at ht i" for i
    by (simp_all add: ht_entries_def chain_at_def)
  obtain A where "mset (ht_entries ?ht) = mset c + A"
    using ht(7) by (auto simp: mset_subset_eq_exists_conv)
  then have m: "mset (dict_entries (?d ?h)) = mset (dict_entries d) - mset c + mset c'"
    using ht(9) ent(1) by (auto simp: dict_entries_def set_ht_def get_ht_def split: if_splits)
  have idx: "nat (rehashidx d) \<le> idx" if "table = 0" "dictIsRehashing d"
    using that re wf c by (auto simp: dict_wf_def not_less [symmetric])
  have r: "dictIsRehashing d" if "table \<noteq> 0"
  proof (rule ccontr)
    assume "\<not> dictIsRehashing d"
    then have "ht1 d = dictReset_priv" using wf by (simp add: dict_wf_def)
    then show False using that c by (simp add: get_ht_def chain_at_def)
  qed
  have "dict_wf ty (?d ?h)"
  proof (cases "table = 0")
    case True
    then show ?thesis using wf ht(2-6) m dist idx ent
      by (auto simp: dict_wf_def set_ht_def dictIsRehashing_def)
  next
    case False
    then show ?thesis using wf ht(2-6) m dist r ent
      by (auto simp: dict_wf_def set_ht_def get_ht_def dictIsRehashing_def)
  qed
  moreover have "chain_at (get_ht (?d ?h) table) idx = Some c'" "iterators (?d ?h) = iterators d"
    using ht(5) ent(2) [of idx] by (simp_all add: get_ht_def set_ht_def)
  ultimately show ?thesis using ht(1,2,8) m by (intro that [of ht "?d ?h"]) simp_all
qed

lemma chain_in_entries:
  "chain_at (get_ht d table) idx = Some c \<Longrightarrow> mset c \<subseteq># mset (dict_entries d)"
  using chain_subset
  by (auto simp: chain_at_def peek_def dict_entries_def ht_entries_def get_ht_def
      split: option.splits if_splits intro: subset_mset.add_increasing subset_mset.add_increasing2)

text \<open>The rehashing step that precedes an operation.\<close>

lemma dict_step:
  assumes "dict_wf ty d"
  obtains d' where "(if dictIsRehashing d then dictRehashStep_priv ty d else Some d) = Some d'"
    "dict_wf ty d'" "mset (dict_entries d') = mset (dict_entries d)" "iterators d' = iterators d"
    "ht_table (ht0 d) \<noteq> None \<Longrightarrow> ht_table (ht0 d') \<noteq> None"
proof (cases "dictIsRehashing d \<and> iterators d = 0")
  case True
  obtain d' where "dictRehash ty d 1 = Some (d', dictIsRehashing d')" "dict_wf ty d'"
      "mset (dict_entries d') = mset (dict_entries d)" "iterators d' = iterators d"
      "dictIsRehashing d \<longrightarrow> ht_table (ht0 d') \<noteq> None"
    using dictRehash_correct [OF assms, of 1] by metis
  with True show ?thesis by (intro that [of d']) (simp_all add: dictRehashStep_priv_def)
next
  case False
  then show ?thesis using assms by (intro that [of d]) (auto simp: dictRehashStep_priv_def)
qed

lemma nonempty_table:
  assumes "dict_wf ty d" "ht_used (ht0 d) + ht_used (ht1 d) \<noteq> 0"
  shows "ht_table (ht0 d) \<noteq> None"
  using assms by (cases "dictIsRehashing d") (auto simp: dict_wf_def dest: ht_wf_None)

context hash_type
begin

lemma dictAddRaw_correct:
  assumes wf: "dict_wf ty d" and sz: "dictSize d < 2 ^ 59"
  obtains (added) d' r where "dictAddRaw ty can_resize junk d key = Some (d', Some r, None)"
      "dict_wf ty d'" "mset (dict_entries d') =
        add_mset \<lparr>ekey = dictSetKey ty key, evalue = junk\<rparr> (mset (dict_entries d))"
      "deref d' r = Some \<lparr>ekey = dictSetKey ty key, evalue = junk\<rparr>" "iterators d' = iterators d"
      "\<forall>e \<in> set (dict_entries d). \<not> keq ty key (ekey e)"
  | (exists) d' r e where "dictAddRaw ty can_resize junk d key = Some (d', None, Some r)"
      "dict_wf ty d'" "mset (dict_entries d') = mset (dict_entries d)" "iterators d' = iterators d"
      "deref d' r = Some e" "e \<in> set (dict_entries d)" "keq ty key (ekey e)"
proof -
  obtain d1 where d1: "(if dictIsRehashing d then dictRehashStep_priv ty d else Some d) = Some d1"
      "dict_wf ty d1" "mset (dict_entries d1) = mset (dict_entries d)" "iterators d1 = iterators d"
    using dict_step [OF wf] by metis
  have "dictSize d1 < 2 ^ 59" using sz d1 wf by (simp add: dictSize_entries)
  from dictExpandIfNeeded_ok [OF d1(2) this] obtain d2 where
    d2: "dictExpandIfNeeded_priv can_resize d1 = (d2, True)" "dict_wf ty d2"
      "dict_entries d2 = dict_entries d1" "iterators d2 = iterators d1" "ht_table (ht0 d2) \<noteq> None" by blast
  have set_eq: "set (dict_entries d2) = set (dict_entries d)"
    using d1(3) d2(3) by (metis set_mset_mset)
  from d2(2,5) show ?thesis
  proof (cases rule: find_tables_correct [where key = key])
    case (found table idx pos c)
    then have "c ! pos \<in> set (dict_entries d2)" using chain_entries [OF found(2), of "c ! pos"]
      by (auto simp: dict_entries_def get_ht_def split: if_splits)
    moreover have "deref d2 (table, idx, pos) = Some (c ! pos)"
      using found by (simp add: deref_def peek_def)
    moreover have "dictAddRaw ty can_resize junk d key = Some (d2, None, Some (table, idx, pos))"
      using d1(1) d2(1) found(1) by (simp add: dictAddRaw_def dictKeyIndex_priv_def)
    ultimately show ?thesis using d1 d2 set_eq found(4)
      by (intro that(2) [of d2 "(table, idx, pos)" "c ! pos"]) simp_all
  next
    case absent
    define table where "table = (if dictIsRehashing d2 then 1 else 0 :: nat)"
    let ?ht = "get_ht d2 table" and ?e = "\<lparr>ekey = dictSetKey ty key, evalue = junk\<rparr>"
    have w: "ht_wf ty ?ht" "ht_table ?ht \<noteq> None" using d2(2,5) by (auto simp: dict_wf_def table_def)
    obtain c where c: "chain_at ?ht (slot ty ?ht key) = Some c" using w by (rule chain_at_slot)
    have slots: "\<forall>e \<in> set (?e # c). slot ty ?ht (ekey e) = slot ty ?ht key"
      using chain_slot [OF w(1) c] keq_hash [OF keq_dup] by (auto simp: slot_def)
    have m: "mset (dict_entries d2) - mset c + mset (?e # c) = add_mset ?e (mset (dict_entries d2))"
      using chain_in_entries [OF c] by simp
    have nk: "\<not> keq ty (ekey ?e) (ekey e)" if "e \<in> set (dict_entries d2)" for e
      using that absent(2) keq_trans [OF keq_sym [OF keq_dup], of key "ekey e"] by auto
    have dist: "distinct_keys ty (mset (dict_entries d2) - mset c + mset (?e # c))"
      unfolding m distinct_keys_add using d2(2) nk by (auto simp: dict_wf_def)
    have re: "table = 0 \<longrightarrow> \<not> dictIsRehashing d2 \<or> c \<noteq> []" by (simp add: table_def)
    obtain ht d' where ht: "set_chain ?ht (slot ty ?ht key) (?e # c) = Some ht"
        "d' = set_ht d2 table (ht\<lparr>ht_used := ht_used ht + length (?e # c) - length c\<rparr>)"
        "dict_wf ty d'" "mset (dict_entries d') = mset (dict_entries d2) - mset c + mset (?e # c)"
        "length c \<le> ht_used ht" "chain_at (get_ht d' table) (slot ty ?ht key) = Some (?e # c)"
        "iterators d' = iterators d2"
      using d2(2) c slots re dist by (rule dict_update_chain)
    have "dictAddRaw ty can_resize junk d key = Some (d', Some (table, slot ty ?ht key, 0), None)"
      using d1(1) d2(1) absent(1) c ht(1,2)
      by (simp add: dictAddRaw_def dictKeyIndex_priv_def slot_def table_def [symmetric] Let_def)
    moreover have "deref d' (table, slot ty ?ht key, 0) = Some ?e" using ht(6) by (simp add: deref_def peek_def)
    ultimately show ?thesis
      using ht(3,4,7) m d1(3,4) d2(3,4) absent(2) set_eq
      by (intro that(1) [of d' "(table, slot ty ?ht key, 0)"]) simp_all
  qed
qed

lemma dictSetVal_correct:
  assumes wf: "dict_wf ty d" and r: "deref d r = Some e"
  obtains d' where "dictSetVal ty d r v = Some d'" "dict_wf ty d'" "iterators d' = iterators d"
    "mset (dict_entries d') = add_mset (e\<lparr>evalue := stored_val ty v\<rparr>) (mset (dict_entries d) - {#e#})"
    "e \<in># mset (dict_entries d)"
proof -
  obtain table idx pos c where rc: "r = (table, idx, pos)" "chain_at (get_ht d table) idx = Some c"
      "pos < length c" "c ! pos = e"
    using r by (cases r) (auto simp: deref_def peek_def bind_eq_Some_conv split: if_splits)
  let ?e = "e\<lparr>evalue := stored_val ty v\<rparr>" and ?M = "mset (dict_entries d)"
  have ht_wf: "ht_wf ty (get_ht d table)" using wf by (simp add: dict_wf_def get_ht_def)
  have e: "e \<in> set c" using rc(3,4) by auto
  have sub: "mset c \<subseteq># ?M" using rc(2) by (rule chain_in_entries)
  then have eM: "e \<in># ?M" using mset_subset_eqD [OF sub] e by simp
  obtain A where A: "?M = mset c + A" using sub by (auto simp: mset_subset_eq_exists_conv)
  have m: "?M - mset c + mset (c[pos := ?e]) = add_mset ?e (?M - {#e#})"
    using rc(3,4) e A by (simp add: mset_update union_commute)
  have slots: "\<forall>x \<in> set (c[pos := ?e]). slot ty (get_ht d table) (ekey x) = idx"
    using chain_slot [OF ht_wf rc(2)] e set_update_subset_insert [of c pos ?e] by auto
  have "distinct_keys ty (add_mset e (?M - {#e#}))" using wf eM by (simp add: dict_wf_def)
  then have dist: "distinct_keys ty (?M - mset c + mset (c[pos := ?e]))"
    unfolding m distinct_keys_add by simp
  have "table = 0 \<longrightarrow> \<not> dictIsRehashing d \<or> c \<noteq> []" using rc(3) by auto
  with wf rc(2) slots obtain ht d' where ht: "set_chain (get_ht d table) idx (c[pos := ?e]) = Some ht"
      "d' = set_ht d table (ht\<lparr>ht_used := ht_used ht + length (c[pos := ?e]) - length c\<rparr>)"
      "dict_wf ty d'" "mset (dict_entries d') = ?M - mset c + mset (c[pos := ?e])"
      "length c \<le> ht_used ht" "chain_at (get_ht d' table) idx = Some (c[pos := ?e])"
      "iterators d' = iterators d"
    using dist by (rule dict_update_chain)
  have "dictSetVal ty d r v = Some d'"
    using r rc ht(1,2) by (simp add: dictSetVal_def write_entry_def)
  then show ?thesis using ht(3,4,7) m eM by (intro that) simp_all
qed

lemma mset_delete_nth: "pos < length c \<Longrightarrow> mset c = add_mset (c ! pos) (mset (take pos c @ drop (pos + 1) c))"
  using arg_cong [OF id_take_nth_drop, of pos c mset] by simp

lemma dictGenericDelete_correct:
  assumes wf: "dict_wf ty d"
  obtains (found) d' e where "dictGenericDelete ty d key = Some (d', Some e)" "dict_wf ty d'"
      "iterators d' = iterators d" "e \<in># mset (dict_entries d)" "keq ty key (ekey e)"
      "mset (dict_entries d') = mset (dict_entries d) - {#e#}"
  | (absent) d' where "dictGenericDelete ty d key = Some (d', None)" "dict_wf ty d'"
      "iterators d' = iterators d" "mset (dict_entries d') = mset (dict_entries d)"
      "\<forall>e \<in> set (dict_entries d). \<not> keq ty key (ekey e)"
proof (cases "ht_used (ht0 d) = 0 \<and> ht_used (ht1 d) = 0")
  case True
  then have "dict_entries d = []" using wf by (auto simp: dict_wf_def dict_entries_def dest: ht_wf_used)
  then show ?thesis using True wf by (intro that(2) [of d]) (simp_all add: dictGenericDelete_def)
next
  case used: False
  then have tab: "ht_table (ht0 d) \<noteq> None" using nonempty_table [OF wf] by simp
  obtain d1 where d1: "(if dictIsRehashing d then dictRehashStep_priv ty d else Some d) = Some d1"
      "dict_wf ty d1" "mset (dict_entries d1) = mset (dict_entries d)" "iterators d1 = iterators d"
      "ht_table (ht0 d1) \<noteq> None"
    using dict_step [OF wf] tab by metis
  have set_eq: "set (dict_entries d1) = set (dict_entries d)" using d1(3) by (metis set_mset_mset)
  let ?M = "mset (dict_entries d1)"
  from d1(2,5) show ?thesis
  proof (cases rule: find_tables_correct [where key = key])
    case (found table idx pos c)
    let ?c = "take pos c @ drop (pos + 1) c"
    have ht_wf: "ht_wf ty (get_ht d1 table)" using d1(2) by (simp add: dict_wf_def get_ht_def)
    have c: "mset c = add_mset (c ! pos) (mset ?c)" using found(3) by (rule mset_delete_nth)
    obtain A where A: "?M = mset c + A"
      using chain_in_entries [OF found(2)] by (auto simp: mset_subset_eq_exists_conv)
    have m: "?M - mset c + mset ?c = ?M - {#c ! pos#}" unfolding A c by simp
    have "distinct_keys ty (?M - mset c + mset ?c)"
      unfolding m using d1(2) by (auto simp: dict_wf_def intro: distinct_keys_sub)
    moreover have "\<forall>x \<in> set ?c. slot ty (get_ht d1 table) (ekey x) = idx"
      using chain_slot [OF ht_wf found(2)] by (auto dest: in_set_takeD in_set_dropD)
    moreover have "table = 0 \<longrightarrow> \<not> dictIsRehashing d1 \<or> c \<noteq> []" using found(3) by auto
    ultimately obtain ht d' where ht: "set_chain (get_ht d1 table) idx ?c = Some ht"
        "d' = set_ht d1 table (ht\<lparr>ht_used := ht_used ht + length ?c - length c\<rparr>)"
        "dict_wf ty d'" "mset (dict_entries d') = ?M - mset c + mset ?c"
        "length c \<le> ht_used ht" "iterators d' = iterators d1"
      using dict_update_chain [OF d1(2) found(2), of ?c] by metis
    have "ht_used ht + length ?c - length c = ht_used ht - 1" using found(3) ht(5) by simp
    then have "dictGenericDelete ty d key = Some (d', Some (c ! pos))"
      using used d1(1) found(1-3) ht(1,2) by (simp add: dictGenericDelete_def peek_def)
    moreover have "c ! pos \<in># mset (dict_entries d)" using A c d1(3) by (metis add_mset_add_single
        multi_member_last union_iff)
    ultimately show ?thesis using ht(3,4,6) m d1(3,4) found(4)
      by (intro that(1) [of d' "c ! pos"]) simp_all
  next
    case absent
    then show ?thesis using used d1 set_eq
      by (intro that(2) [of d1]) (auto simp: dictGenericDelete_def)
  qed
qed

lemma dictFind_correct:
  assumes wf: "dict_wf ty d"
  obtains (found) d' r e where "dictFind ty d key = Some (d', Some r)" "dict_wf ty d'"
      "mset (dict_entries d') = mset (dict_entries d)" "iterators d' = iterators d"
      "deref d' r = Some e" "e \<in># mset (dict_entries d)" "keq ty key (ekey e)"
  | (absent) d' where "dictFind ty d key = Some (d', None)" "dict_wf ty d'"
      "mset (dict_entries d') = mset (dict_entries d)" "iterators d' = iterators d"
      "\<forall>e \<in> set (dict_entries d). \<not> keq ty key (ekey e)"
proof (cases "ht_used (ht0 d) + ht_used (ht1 d) = 0")
  case True
  then have "dict_entries d = []" using wf by (auto simp: dict_wf_def dict_entries_def dest: ht_wf_used)
  then show ?thesis using True wf by (intro that(2) [of d]) (simp_all add: dictFind_def)
next
  case used: False
  then have tab: "ht_table (ht0 d) \<noteq> None" using nonempty_table [OF wf] by simp
  obtain d1 where d1: "(if dictIsRehashing d then dictRehashStep_priv ty d else Some d) = Some d1"
      "dict_wf ty d1" "mset (dict_entries d1) = mset (dict_entries d)" "iterators d1 = iterators d"
      "ht_table (ht0 d1) \<noteq> None"
    using dict_step [OF wf] tab by metis
  have set_eq: "set (dict_entries d1) = set (dict_entries d)" using d1(3) by (metis set_mset_mset)
  from d1(2,5) show ?thesis
  proof (cases rule: find_tables_correct [where key = key])
    case (found table idx pos c)
    have "c ! pos \<in># mset (dict_entries d)"
      using chain_in_entries [OF found(2)] found(3) d1(3) by (metis mset_subset_eqD nth_mem set_mset_mset)
    then show ?thesis using used d1 found
      by (intro that(1) [of d1 "(table, idx, pos)" "c ! pos"]) (simp_all add: dictFind_def deref_def peek_def)
  next
    case absent
    then show ?thesis using used d1 set_eq by (intro that(2) [of d1]) (auto simp: dictFind_def)
  qed
qed

lemma dict_map_add:
  assumes wf: "dict_wf ty d" "dict_wf ty d'" and m: "mset (dict_entries d') = add_mset e (mset (dict_entries d))"
  shows "dict_map ty d' k = (if keq ty k (ekey e) then Some (evalue e) else dict_map ty d k)"
proof (rule option_eqI)
  fix v
  have "\<not> keq ty (ekey e) (ekey e')" if "e' \<in># mset (dict_entries d)" for e'
    using wf(2) m that by (simp add: dict_wf_def distinct_keys_add)
  then have "\<not> keq ty k (ekey e')" if "keq ty k (ekey e)" "e' \<in># mset (dict_entries d)" for e'
    using that keq_trans [OF keq_sym] by blast
  then show "dict_map ty d' k = Some v \<longleftrightarrow>
      (if keq ty k (ekey e) then Some (evalue e) else dict_map ty d k) = Some v"
    using dict_map_iff [OF wf(2), of k v] dict_map_iff [OF wf(1), of k v] m
    by (cases "keq ty k (ekey e)") auto
qed

lemma dict_map_remove:
  assumes wf: "dict_wf ty d" "dict_wf ty d'" and e: "e \<in># mset (dict_entries d)"
    and m: "mset (dict_entries d') = mset (dict_entries d) - {#e#}"
  shows "dict_map ty d' k = (if keq ty k (ekey e) then None else dict_map ty d k)"
proof -
  have M: "mset (dict_entries d) = add_mset e (mset (dict_entries d'))" using e m by simp
  have "\<not> keq ty (ekey e) (ekey e')" if "e' \<in># mset (dict_entries d')" for e'
    using wf(1) that unfolding dict_wf_def M distinct_keys_add by blast
  then have "\<forall>e' \<in># mset (dict_entries d'). \<not> keq ty k (ekey e')" if "keq ty k (ekey e)"
    using that keq_trans [OF keq_sym] by blast
  moreover have "dict_map ty d k = (if keq ty k (ekey e) then Some (evalue e) else dict_map ty d' k)"
    using wf(2) wf(1) M by (rule dict_map_add)
  ultimately show ?thesis by (cases "keq ty k (ekey e)") (simp_all add: dict_map_None_iff)
qed

lemma dict_map_update:
  assumes wf: "dict_wf ty d" "dict_wf ty d'" and e: "e \<in># mset (dict_entries d)" "ekey e' = ekey e"
    and m: "mset (dict_entries d') = add_mset e' (mset (dict_entries d) - {#e#})"
  shows "dict_map ty d' k = (if keq ty k (ekey e) then Some (evalue e') else dict_map ty d k)"
proof (rule option_eqI)
  fix v
  define N where "N = mset (dict_entries d) - {#e#}"
  have M: "mset (dict_entries d) = add_mset e N" using e(1) by (simp add: N_def)
  have "\<not> keq ty (ekey e) (ekey x)" if "x \<in># N" for x
    using wf(1) that unfolding dict_wf_def M distinct_keys_add by blast
  then have "\<not> keq ty k (ekey x)" if "keq ty k (ekey e)" "x \<in># N" for x
    using that keq_trans [OF keq_sym] by blast
  then show "dict_map ty d' k = Some v \<longleftrightarrow>
      (if keq ty k (ekey e) then Some (evalue e') else dict_map ty d k) = Some v"
    using dict_map_iff [OF wf(2), of k v, unfolded m, folded N_def] dict_map_iff [OF wf(1), of k v, unfolded M] e(2)
    by (cases "keq ty k (ekey e)") auto
qed

lemma keq_left: "keq ty a b \<Longrightarrow> keq ty k a \<longleftrightarrow> keq ty k b"
  using keq_trans keq_sym by blast

lemma dictAdd_map:
  assumes wf: "dict_wf ty d" and sz: "dictSize d < 2 ^ 59"
  shows "\<exists>d'. dictAdd ty can_resize junk d key v = Some (d', dict_map ty d key = None) \<and> dict_wf ty d' \<and>
    iterators d' = iterators d \<and>
    (\<forall>k. dict_map ty d' k =
      (if keq ty k key \<and> dict_map ty d key = None then Some (stored_val ty v) else dict_map ty d k))"
  using wf sz
proof (cases rule: dictAddRaw_correct [of d can_resize junk key])
  case (added d1 r)
  let ?e = "\<lparr>ekey = dictSetKey ty key, evalue = junk\<rparr>"
  obtain d2 where d2: "dictSetVal ty d1 r v = Some d2" "dict_wf ty d2" "iterators d2 = iterators d1"
    "mset (dict_entries d2) = add_mset (?e\<lparr>evalue := stored_val ty v\<rparr>) (mset (dict_entries d1) - {#?e#})"
    using added(2,4) by (rule dictSetVal_correct)
  have "dict_map ty d2 k = (if keq ty k key then Some (stored_val ty v) else dict_map ty d k)" for k
    using dict_map_add [OF wf d2(2), of "?e\<lparr>evalue := stored_val ty v\<rparr>"] d2(4) added(3)
      keq_left [OF keq_dup] by simp
  moreover have "dict_map ty d key = None" using added(6) by (simp add: dict_map_None_iff)
  ultimately show ?thesis using added(1,5) d2(1-3) by (simp add: dictAdd_def)
next
  case (exists d1 r e)
  then have "dict_map ty d key \<noteq> None" by (auto simp: dict_map_None_iff)
  moreover have "dict_map ty d1 = dict_map ty d" using wf exists(2,3) by (rule dict_map_cong)
  ultimately show ?thesis using exists(1,2,4) by (auto simp: dictAdd_def)
qed

lemma dictReplace_map:
  assumes wf: "dict_wf ty d" and sz: "dictSize d < 2 ^ 59"
  shows "\<exists>d'. dictReplace ty can_resize junk d key v = Some (d', dict_map ty d key = None) \<and> dict_wf ty d' \<and>
    iterators d' = iterators d \<and>
    (\<forall>k. dict_map ty d' k = (if keq ty k key then Some (stored_val ty v) else dict_map ty d k))"
  using wf sz
proof (cases rule: dictAddRaw_correct [of d can_resize junk key])
  case (added d1 r)
  let ?e = "\<lparr>ekey = dictSetKey ty key, evalue = junk\<rparr>"
  obtain d2 where d2: "dictSetVal ty d1 r v = Some d2" "dict_wf ty d2" "iterators d2 = iterators d1"
    "mset (dict_entries d2) = add_mset (?e\<lparr>evalue := stored_val ty v\<rparr>) (mset (dict_entries d1) - {#?e#})"
    using added(2,4) by (rule dictSetVal_correct)
  have "dict_map ty d2 k = (if keq ty k key then Some (stored_val ty v) else dict_map ty d k)" for k
    using dict_map_add [OF wf d2(2), of "?e\<lparr>evalue := stored_val ty v\<rparr>"] d2(4) added(3)
      keq_left [OF keq_dup] by simp
  moreover have "dict_map ty d key = None" using added(6) by (simp add: dict_map_None_iff)
  ultimately show ?thesis using added(1,5) d2(1-3) by (simp add: dictReplace_def)
next
  case (exists d1 r e)
  obtain d2 where d2: "dictSetVal ty d1 r v = Some d2" "dict_wf ty d2" "iterators d2 = iterators d1"
    "mset (dict_entries d2) = add_mset (e\<lparr>evalue := stored_val ty v\<rparr>) (mset (dict_entries d1) - {#e#})"
    using exists(2,5) by (rule dictSetVal_correct)
  have "dict_map ty d2 k = (if keq ty k key then Some (stored_val ty v) else dict_map ty d k)" for k
    using dict_map_update [OF wf d2(2), of e "e\<lparr>evalue := stored_val ty v\<rparr>"] d2(4) exists(3,6)
      keq_left [OF exists(7)] by simp
  moreover have "dict_map ty d key \<noteq> None" using exists(6,7) by (auto simp: dict_map_None_iff)
  ultimately show ?thesis using exists(1,4) d2(1-3) by (simp add: dictReplace_def)
qed

lemma dictDelete_map:
  assumes wf: "dict_wf ty d"
  shows "\<exists>d'. dictDelete ty d key = Some (d', dict_map ty d key \<noteq> None) \<and> dict_wf ty d' \<and>
    iterators d' = iterators d \<and>
    (\<forall>k. dict_map ty d' k = (if keq ty k key then None else dict_map ty d k))"
  using wf
proof (cases rule: dictGenericDelete_correct [of d key])
  case (found d' e)
  have "dict_map ty d' k = (if keq ty k key then None else dict_map ty d k)" for k
    using dict_map_remove [OF wf found(2,4,6)] keq_left [OF found(5)] by simp
  moreover have "dict_map ty d key \<noteq> None" using found(4,5) by (auto simp: dict_map_None_iff)
  ultimately show ?thesis using found(1-3) by (simp add: dictDelete_def)
next
  case (absent d')
  have none: "dict_map ty d k = None" if "keq ty k key" for k
    using absent(5) keq_trans [OF keq_sym [OF that]] by (auto simp: dict_map_None_iff)
  moreover have "dict_map ty d' = dict_map ty d" using wf absent(2,4) by (rule dict_map_cong)
  ultimately show ?thesis using absent(1-3) by (simp add: dictDelete_def)
qed

lemma dictFetchValue_map:
  assumes wf: "dict_wf ty d"
  shows "\<exists>d'. dictFetchValue ty d key = Some (d', dict_map ty d key) \<and> dict_wf ty d' \<and>
    iterators d' = iterators d \<and> dict_map ty d' = dict_map ty d"
  using wf
proof (cases rule: dictFind_correct [of d key])
  case (found d' r e)
  have "dict_map ty d key = Some (evalue e)" using found(6,7) dict_map_iff [OF wf] by blast
  moreover have "dict_map ty d' = dict_map ty d" using wf found(2,3) by (rule dict_map_cong)
  ultimately show ?thesis using found(1,2,4,5) by (simp add: dictFetchValue_def)
next
  case (absent d')
  have "dict_map ty d key = None" using absent(5) by (simp add: dict_map_None_iff)
  moreover have "dict_map ty d' = dict_map ty d" using wf absent(2,3) by (rule dict_map_cong)
  ultimately show ?thesis using absent(1,2,4) by (simp add: dictFetchValue_def)
qed

end

subsection \<open>Clearing\<close>

lemma clear_loop_correct:
  assumes "ht_table ht = Some t" "ht_size ht = length t"
    "u = length (concat (drop i t))" "i \<le> length t"
  shows "clear_loop ht i u freed = Some (freed @ concat (drop i t))"
  using assms(3,4)
proof (induction "length t - i" arbitrary: i u freed)
  case 0
  then show ?case using assms(2) by (subst clear_loop.simps) simp
next
  case (Suc n)
  then have i: "i < length t" by simp
  have d: "concat (drop i t) = t ! i @ concat (drop (i + 1) t)" using i by (simp add: Cons_nth_drop_Suc [symmetric])
  show ?case
  proof (cases "u = 0")
    case True
    then show ?thesis using Suc.prems by (subst clear_loop.simps) simp
  next
    case False
    have "n = length t - (i + 1)" "i + 1 \<le> length t" using Suc.hyps(2) i by simp_all
    moreover have "u - length (t ! i) = length (concat (drop (i + 1) t))" using Suc.prems(1) d by simp
    ultimately have "clear_loop ht (i + 1) (u - length (t ! i)) (freed @ t ! i) =
        Some ((freed @ t ! i) @ concat (drop (i + 1) t))" using Suc.hyps(1) by blast
    then show ?thesis using False i assms(1,2) d by (subst clear_loop.simps) (simp add: chain_at_Some)
  qed
qed

lemma dictClear_correct: "ht_wf ty ht \<Longrightarrow> dictClear_priv ht = Some (dictReset_priv, ht_entries ht)"
proof (cases "ht_table ht")
  case None
  assume "ht_wf ty ht"
  then have "ht = dictReset_priv" using None by (rule ht_wf_None)
  then show ?thesis by (simp add: dictClear_priv_def clear_loop.simps)
next
  case (Some t)
  moreover assume "ht_wf ty ht"
  ultimately show ?thesis using clear_loop_correct [of ht t "ht_used ht" 0 "[]"]
    by (auto simp: ht_wf_def dictClear_priv_def ht_entries_def)
qed

subsection \<open>Rehashing for a given time\<close>

lemma rehash_ms_loop_correct:
  assumes "dict_wf ty d"
  shows "\<exists>d' n. rehash_ms_loop ty clock ms k d = Some (d', n) \<and> dict_wf ty d' \<and>
    mset (dict_entries d') = mset (dict_entries d)"
  using assms
proof (induction "nat (int (ht_size (ht0 d)) - rehashidx d)" arbitrary: k d rule: less_induct)
  case less
  obtain d' where d': "dictRehash ty d 100 = Some (d', dictIsRehashing d')" "dict_wf ty d'"
      "mset (dict_entries d') = mset (dict_entries d)"
      "dictIsRehashing d' \<longrightarrow> dictIsRehashing d \<and> ht_size (ht0 d') = ht_size (ht0 d) \<and>
         (0 < (100::nat) \<longrightarrow> rehashidx d < rehashidx d')"
    using dictRehash_correct [OF less.prems, of 100] by metis
  show ?case
  proof (cases "dictIsRehashing d' \<and> \<not> clock (k + 1) - clock 0 > ms")
    case True
    have "rehashidx d' \<le> int (ht_size (ht0 d'))" using True d'(2) by (simp add: dict_wf_def)
    with True d'(4) have "nat (int (ht_size (ht0 d')) - rehashidx d') < nat (int (ht_size (ht0 d)) - rehashidx d)"
      by linarith
    from less.hyps [OF this d'(2), of "k + 1"] show ?thesis
      using True d'(1,3) by (subst rehash_ms_loop.simps) auto
  next
    case False
    then show ?thesis using d' by (subst rehash_ms_loop.simps) auto
  qed
qed

subsection \<open>A concrete dictionary\<close>

text \<open>
  A type without comparison function, whose keys are equal only if identical, and a
  dictionary in the middle of a rehashing: the examples of the properties use them.
\<close>

definition nat_type :: "(nat, nat) dictType" where
  "nat_type = \<lparr>hashFunction = of_nat, keyDup = None, valDup = None, keyCompare = None\<rparr>"

definition demo_dict :: "(nat, nat) dict" where
  "demo_dict =
     \<lparr>ht0 = \<lparr>ht_table = Some [[], [\<lparr>ekey = 1, evalue = 10\<rparr>, \<lparr>ekey = 5, evalue = 50\<rparr>], [], []],
              ht_size = 4, ht_sizemask = 3, ht_used = 2\<rparr>,
      ht1 = \<lparr>ht_table = Some [[], [], [], [], [\<lparr>ekey = 12, evalue = 7\<rparr>], [], [], []],
              ht_size = 8, ht_sizemask = 7, ht_used = 1\<rparr>,
      rehashidx = 1, iterators = 0\<rparr>"

lemma nat_type_hash: "hash_type nat_type"
  by unfold_locales (auto simp: nat_type_def keq_def dictCompareKeys_def dictSetKey_def)

lemma nat_type_keq [simp]: "keq nat_type k k' \<longleftrightarrow> k = k'"
  by (simp add: nat_type_def keq_def dictCompareKeys_def)

lemma nat_type_val [simp]: "stored_val nat_type v = v"
  by (simp add: nat_type_def stored_val_def)

lemma demo_wf: "dict_wf nat_type demo_dict"
  by code_simp

lemma demo_map: "dict_map nat_type demo_dict = [1 \<mapsto> 10, 5 \<mapsto> 50, 12 \<mapsto> 7]"
  by (rule ext) (simp add: dict_map_def demo_dict_def dict_entries_def ht_entries_def)

subsection \<open>Properties\<close>

text \<open>
  C2: \<open>dictAdd\<close> never faults, in whatever stage of an incremental rehashing the
  dictionary is, keeps the representation invariant, and inserts exactly the new binding;
  it reports failure and leaves the mapping alone if an equal key is there already.
\<close>

theorem dictAdd_refines:
  assumes "hash_type ty" "dict_wf ty d" "dictSize d < 2 ^ 59"
  shows "\<exists>d'. dictAdd ty can_resize junk d key v = Some (d', dict_map ty d key = None) \<and> dict_wf ty d' \<and>
    (\<forall>k. dict_map ty d' k =
      (if keq ty k key \<and> dict_map ty d key = None then Some (stored_val ty v) else dict_map ty d k))"
  using hash_type.dictAdd_map [OF assms] by blast

theorem dictAdd_refines_witness:
  "\<exists>d'. dictAdd nat_type True 0 demo_dict 9 90 = Some (d', True) \<and>
    dict_map nat_type d' = [1 \<mapsto> 10, 5 \<mapsto> 50, 12 \<mapsto> 7, 9 \<mapsto> 90]"
proof -
  have "dictSize demo_dict < 2 ^ 59" by (simp add: dictSize_def demo_dict_def)
  from dictAdd_refines [OF nat_type_hash demo_wf this, of True 0 9 90] obtain d' where
    d': "dictAdd nat_type True 0 demo_dict 9 90 = Some (d', True)"
      "\<forall>k. dict_map nat_type d' k = (if k = 9 then Some 90 else dict_map nat_type demo_dict k)"
    by (elim exE) (simp add: demo_map)
  have "dict_map nat_type d' = [1 \<mapsto> 10, 5 \<mapsto> 50, 12 \<mapsto> 7, 9 \<mapsto> 90]"
    by (rule ext) (simp add: d'(2) demo_map)
  with d'(1) show ?thesis by blast
qed

text \<open>
  C6: \<open>dictReplace\<close> never faults (the existing entry it dereferences is always there),
  keeps the invariant and makes the value of the key the new one, reporting whether the
  key was new.
\<close>

theorem dictReplace_refines:
  assumes "hash_type ty" "dict_wf ty d" "dictSize d < 2 ^ 59"
  shows "\<exists>d'. dictReplace ty can_resize junk d key v = Some (d', dict_map ty d key = None) \<and> dict_wf ty d' \<and>
    (\<forall>k. dict_map ty d' k = (if keq ty k key then Some (stored_val ty v) else dict_map ty d k))"
  using hash_type.dictReplace_map [OF assms] by blast

theorem dictReplace_refines_witness:
  "\<exists>d'. dictReplace nat_type True 0 demo_dict 5 51 = Some (d', False) \<and>
    dict_map nat_type d' = [1 \<mapsto> 10, 5 \<mapsto> 51, 12 \<mapsto> 7]"
proof -
  have "dictSize demo_dict < 2 ^ 59" by (simp add: dictSize_def demo_dict_def)
  from dictReplace_refines [OF nat_type_hash demo_wf this, of True 0 5 51] obtain d' where
    d': "dictReplace nat_type True 0 demo_dict 5 51 = Some (d', False)"
      "\<forall>k. dict_map nat_type d' k = (if k = 5 then Some 51 else dict_map nat_type demo_dict k)"
    by (elim exE) (simp add: demo_map)
  have "dict_map nat_type d' = [1 \<mapsto> 10, 5 \<mapsto> 51, 12 \<mapsto> 7]"
    by (rule ext) (simp add: d'(2) demo_map)
  with d'(1) show ?thesis by blast
qed

text \<open>
  C3: \<open>dictDelete\<close> never faults, keeps the invariant, reports whether the key was present
  and removes exactly its binding.
\<close>

theorem dictDelete_refines:
  assumes "hash_type ty" "dict_wf ty d"
  shows "\<exists>d'. dictDelete ty d key = Some (d', dict_map ty d key \<noteq> None) \<and> dict_wf ty d' \<and>
    (\<forall>k. dict_map ty d' k = (if keq ty k key then None else dict_map ty d k))"
  using hash_type.dictDelete_map [OF assms] by blast

theorem dictDelete_refines_witness:
  "\<exists>d'. dictDelete nat_type demo_dict 5 = Some (d', True) \<and> dict_map nat_type d' = [1 \<mapsto> 10, 12 \<mapsto> 7]"
proof -
  from dictDelete_refines [OF nat_type_hash demo_wf, of 5] obtain d' where
    d': "dictDelete nat_type demo_dict 5 = Some (d', True)"
      "\<forall>k. dict_map nat_type d' k = (if k = 5 then None else dict_map nat_type demo_dict k)"
    by (elim exE) (simp add: demo_map)
  have "dict_map nat_type d' = [1 \<mapsto> 10, 12 \<mapsto> 7]" by (rule ext) (simp add: d'(2) demo_map)
  with d'(1) show ?thesis by blast
qed

text \<open>
  C7: \<open>dictFetchValue\<close> returns the value of the key, and the rehashing step it performs
  on the way does not change the mapping.
\<close>

theorem dictFetchValue_refines:
  assumes "hash_type ty" "dict_wf ty d"
  shows "\<exists>d'. dictFetchValue ty d key = Some (d', dict_map ty d key) \<and> dict_wf ty d' \<and>
    dict_map ty d' = dict_map ty d"
  using hash_type.dictFetchValue_map [OF assms] by blast

theorem dictFetchValue_refines_witness:
  "\<exists>d'. dictFetchValue nat_type demo_dict 12 = Some (d', Some 7) \<and>
    dict_map nat_type d' = dict_map nat_type demo_dict"
  using dictFetchValue_refines [OF nat_type_hash demo_wf, of 12] by (auto simp: demo_map)

text \<open>
  C8: \<open>dictRehash\<close> never faults (its assertion holds, and it stops skipping empty buckets
  inside the table), keeps the entries, reports whether the rehashing is still going on,
  and then has advanced by at least one bucket.
\<close>

theorem dictRehash_progress:
  assumes "dict_wf ty d"
  shows "\<exists>d'. dictRehash ty d n = Some (d', dictIsRehashing d') \<and> dict_wf ty d' \<and>
    mset (dict_entries d') = mset (dict_entries d) \<and>
    (dictIsRehashing d' \<and> 0 < n \<longrightarrow> dictIsRehashing d \<and> rehashidx d < rehashidx d')"
  using dictRehash_correct [OF assms, of n] by metis

theorem dictRehash_progress_witness:
  "\<exists>d'. dictRehash nat_type demo_dict 1 = Some (d', dictIsRehashing d') \<and>
    mset (dict_entries d') = mset (dict_entries demo_dict)"
  using dictRehash_progress [OF demo_wf, of 1] by blast

text \<open>
  C9: whatever the clock does, \<open>dictRehashMilliseconds\<close> terminates and keeps the entries.
\<close>

theorem dictRehashMilliseconds_terminates:
  assumes "dict_wf ty d"
  shows "\<exists>d' n. dictRehashMilliseconds ty clock d ms = Some (d', n) \<and> dict_wf ty d' \<and>
    mset (dict_entries d') = mset (dict_entries d)"
  using rehash_ms_loop_correct [OF assms] by (simp add: dictRehashMilliseconds_def)

theorem dictRehashMilliseconds_terminates_witness:
  "\<exists>d' n. dictRehashMilliseconds nat_type (\<lambda>_. 0) demo_dict 1 = Some (d', n) \<and>
    mset (dict_entries d') = mset (dict_entries demo_dict)"
  using dictRehashMilliseconds_terminates [OF demo_wf, of "\<lambda>_. 0" 1] by blast

text \<open>
  C10: \<open>dictEmpty\<close> and \<open>dictRelease\<close> release every entry of both tables exactly once,
  and the emptied dictionary is a valid one without entries.
\<close>

theorem dictEmpty_frees_all:
  assumes "dict_wf ty d"
  shows "\<exists>d'. dictEmpty d = Some (d', dict_entries d) \<and> dictRelease d = Some (dict_entries d) \<and>
    dict_wf ty d' \<and> dict_entries d' = []"
proof -
  have "dictClear_priv (ht0 d) = Some (dictReset_priv, ht_entries (ht0 d))"
    "dictClear_priv (ht1 d) = Some (dictReset_priv, ht_entries (ht1 d))"
    using assms by (auto simp: dict_wf_def intro: dictClear_correct)
  then show ?thesis
    by (simp add: dictEmpty_def dictRelease_def dict_entries_def dict_wf_def dictIsRehashing_def distinct_keys_def)
qed

theorem dictEmpty_frees_all_witness:
  "\<exists>d'. dictEmpty demo_dict = Some (d', dict_entries demo_dict) \<and> dict_entries d' = []"
  using dictEmpty_frees_all [OF demo_wf] by blast

text \<open>
  \<open>dictResize\<close> keeps the entries, and when it starts a resize the new table has the
  least power of two of buckets (at least four) that is not smaller than the number of
  entries: the truncation of that number to an \<open>int\<close> is never visible in the result.
\<close>

theorem dictResize_minimal:
  assumes "dict_wf ty d"
  shows "\<exists>d' ok. dictResize can_resize d = (d', ok) \<and> dict_wf ty d' \<and> dict_entries d' = dict_entries d \<and>
    (ok \<longrightarrow> can_resize \<and> \<not> dictIsRehashing d \<and> (\<exists>n \<ge> 2.
      (if ht_table (ht0 d) = None then ht_size (ht0 d') else ht_size (ht1 d')) = 2 ^ n \<and>
      ht_used (ht0 d) \<le> 2 ^ n \<and> (2 < n \<longrightarrow> 2 ^ n < 2 * ht_used (ht0 d))))"
proof (cases "\<not> can_resize \<or> dictIsRehashing d")
  case True
  then show ?thesis using assms by (auto simp: dictResize_def)
next
  case False
  define u where "u = ht_used (ht0 d)"
  define m where "m = (let m = sint (of_nat u :: 32 word) in nat (if m < 4 then 4 else m))"
  have m: "4 \<le> m" "m < 2 ^ 31"
    using sint_lt [of "of_nat u :: 32 word"] by (auto simp: m_def Let_def)
  have exact: "m = max 4 u" if "u \<le> m"
  proof -
    have "u < 2 ^ 31" using that m by linarith
    then have "sint (of_nat u :: 32 word) = int u"
      by (simp add: signed_of_nat signed_take_bit_int_eq_self)
    then show ?thesis by (simp add: m_def Let_def max_def)
  qed
  have r: "dictResize can_resize d = dictExpand d m"
    using False by (simp add: dictResize_def m_def u_def Let_def)
  have mb: "m \<le> 2 ^ 60" using m(2) by simp
  obtain n where n: "dictNextPower_priv m = 2 ^ n" "2 \<le> n" "m \<le> 2 ^ n" "2 < n \<longrightarrow> 2 ^ n < 2 * m"
    using mb by (rule dictNextPower_pow)
  show ?thesis
  proof (cases "u \<le> m \<and> dictNextPower_priv m \<noteq> ht_size (ht0 d)")
    case True
    have "u = m" if "2 < n"
    proof -
      have "(2::nat) ^ 3 \<le> 2 ^ n" using that by (intro power_increasing) auto
      then have "4 < m" using n(4) that by simp
      then show ?thesis using exact True by (simp add: max_def split: if_splits)
    qed
    then have "\<exists>n \<ge> 2. dictNextPower_priv m = 2 ^ n \<and> u \<le> 2 ^ n \<and> (2 < n \<longrightarrow> 2 ^ n < 2 * u)"
      using n True by (intro exI [of _ n]) auto
    moreover obtain d' where d': "dictExpand d m = (d', True)" "dict_wf ty d'" "dict_entries d' = dict_entries d"
        "(if ht_table (ht0 d) = None then ht_size (ht0 d') else ht_size (ht1 d')) = dictNextPower_priv m"
      using dictExpand_ok [OF assms mb] True False by (auto simp: u_def split: if_splits)
    ultimately have "\<exists>n \<ge> 2. (if ht_table (ht0 d) = None then ht_size (ht0 d') else ht_size (ht1 d')) = 2 ^ n \<and>
        u \<le> 2 ^ n \<and> (2 < n \<longrightarrow> 2 ^ n < 2 * u)" by metis
    then show ?thesis unfolding r u_def [symmetric]
      using d'(1-3) False by (intro exI [of _ d'] exI [of _ True]) blast
  next
    case not_ok: False
    then have "dictExpand d m = (d, False)" by (intro dictExpand_err) (auto simp: u_def)
    then show ?thesis unfolding r using assms by (intro exI [of _ d] exI [of _ False]) simp
  qed
qed

theorem dictResize_minimal_witness:
  "\<exists>d' ok. dictResize True (dictCreate :: (nat, nat) dict) = (d', ok) \<and> dict_wf nat_type d'"
  using dictResize_minimal [OF dict_wf_create(1) [of nat_type], of True] by blast

lemma dictNextPower_large:
  assumes "2 ^ 60 < sz" "sz < 2 ^ 64"
  obtains m where "dictNextPower_priv sz = 2 ^ 61 * 2 ^ m"
proof (cases "sz \<ge> 2 ^ 63 - 1")
  case True
  then have "dictNextPower_priv sz = 2 ^ 61 * 2 ^ 2" by (simp add: dictNextPower_priv_def)
  then show ?thesis by (rule that)
next
  case False
  obtain n where n: "dictNextPower_loop (2 ^ 2) sz = 2 ^ n" "sz \<le> 2 ^ n"
    using dictNextPower_loop_pow [of 2 sz] assms(1) by blast
  have "(2::nat) ^ 60 < 2 ^ n" using assms(1) n(2) by linarith
  then have "60 < n" by (subst (asm) power_strict_increasing_iff) auto
  then have "(2::nat) ^ n = 2 ^ 61 * 2 ^ (n - 61)" using power_add [of "2::nat" 61 "n - 61"] by (simp del: power_Suc)
  then have "dictNextPower_priv sz = 2 ^ 61 * 2 ^ (n - 61)" using n(1) False by (simp add: dictNextPower_priv_def)
  then show ?thesis by (rule that)
qed

text \<open>
  C11: for every requested size above \<open>2 ^ 60\<close> the size in bytes of the table wraps around
  to zero: \<open>dictExpand\<close> on a fresh dictionary reports success, records at least \<open>2 ^ 61\<close> buckets and allocates none. A search is
  still answered, as the dictionary is empty, but the first insertion, of any key, is an access out of bounds.
\<close>

theorem dictExpand_overflow:
  assumes "2 ^ 60 < sz" "sz < 2 ^ 64"
  shows "\<exists>d'. dictExpand dictCreate sz = (d', True) \<and> 2 ^ 61 \<le> ht_size (ht0 d') \<and> ht_table (ht0 d') = Some [] \<and>
    dictFind ty d' key = Some (d', None) \<and> dictAdd ty can_resize junk d' key v = None"
proof -
  obtain m where m: "dictNextPower_priv sz = 2 ^ 61 * 2 ^ m" using assms by (rule dictNextPower_large)
  define R :: nat where "R = 2 ^ 61 * 2 ^ m"
  have "R * 8 = 2 ^ 64 * 2 ^ m" by (simp add: R_def)
  then have w: "R * 8 mod 2 ^ 64 = 0" by simp
  have R: "2 ^ 61 \<le> R" "R \<noteq> 0" by (simp_all add: R_def)
  let ?d = "dictCreate\<lparr>ht0 := \<lparr>ht_table = Some [], ht_size = R, ht_sizemask = of_nat R - 1, ht_used = 0\<rparr>\<rparr> :: ('a, 'b) dict"
  have e: "dictExpand dictCreate sz = (?d, True)"
    unfolding dictExpand_def m R_def [symmetric] Let_def w
    using R(2) by (simp add: dictCreate_def dictInit_priv_def dictReset_priv_def dictIsRehashing_def)
  moreover have "dictFind ty ?d key = Some (?d, None)"
    by (simp add: dictFind_def dictCreate_def dictInit_priv_def dictReset_priv_def)
  moreover have "dictAdd ty can_resize junk ?d key v = None"
    using R(2) by (simp add: dictAdd_def dictAddRaw_def dictKeyIndex_priv_def dictExpandIfNeeded_priv_def dictIsRehashing_def
        dictCreate_def dictInit_priv_def find_tables_def find_in_def chain_at_def get_ht_def peek_def)
  ultimately show ?thesis using R(1) by (intro exI [of _ ?d]) simp
qed

theorem dictExpand_overflow_witness:
  "\<exists>d'. dictExpand dictCreate (2 ^ 60 + 1) = (d', True) \<and> ht_table (ht0 d') = Some [] \<and>
    dictAdd nat_type True 0 d' 7 (8 :: nat) = None"
  using dictExpand_overflow [of "2 ^ 60 + 1" nat_type 7 True 0 8] by auto

end
