(* ===== verification/Dict_Scan.thy ===== *)
theory Dict_Scan
  imports Dict_Refine
begin

text \<open>
  \<open>dictScan\<close> of \<^verbatim>\<open>dict.c\<close>: the stateless cursor iteration behind SCAN. The cursor is
  incremented on its reversed bits, so that a complete iteration returns every key that
  is present throughout, although the table may be resized, and rehashed in part, in
  any way between the calls. The calls of the callbacks are the list of events that
  \<open>dictScan\<close> yields besides the next cursor.
\<close>

subsection \<open>Definitions\<close>

fun rev_loop :: "nat \<Rightarrow> u64 \<Rightarrow> u64 \<Rightarrow> u64" where
  "rev_loop s msk v =
     (let s = s div 2 in
      if s > 0 then
        let msk = msk XOR push_bit s msk;
            v = (drop_bit s v AND msk) OR (push_bit s v AND NOT msk)
        in rev_loop s msk v
      else v)"

definition rev_ul :: "u64 \<Rightarrow> u64" where
  "rev_ul v = rev_loop 64 (NOT 0) v"

datatype ('k, 'v) scan_event = BucketFn nat nat | ScanFn "('k, 'v) dictEntry"

text \<open>The callbacks for one bucket: \<open>bucketfn\<close> says whether that callback is given.\<close>

definition scan_emit ::
  "bool \<Rightarrow> ('k, 'v) dict \<Rightarrow> nat \<Rightarrow> u64 \<Rightarrow> ('k, 'v) scan_event list option" where
  "scan_emit bucketfn d table idx = do {
     c \<leftarrow> chain_at (get_ht d table) (unat idx);
     Some ((if bucketfn then [BucketFn table (unat idx)] else []) @ map ScanFn c) }"

definition rev_incr :: "u64 \<Rightarrow> u64 \<Rightarrow> u64" where
  "rev_incr m v = rev_ul (rev_ul (v OR NOT m) + 1)"

partial_function (option) scan_expand ::
  "bool \<Rightarrow> ('k, 'v) dict \<Rightarrow> nat \<Rightarrow> u64 \<Rightarrow> u64 \<Rightarrow> u64 \<Rightarrow> (u64 \<times> ('k, 'v) scan_event list) option" where
  "scan_expand bucketfn d t1 m0 m1 v = do {
     es \<leftarrow> scan_emit bucketfn d t1 (v AND m1);
     let v = rev_incr m1 v;
     if v AND (m0 XOR m1) \<noteq> 0 then do {
       (v, es') \<leftarrow> scan_expand bucketfn d t1 m0 m1 v;
       Some (v, es @ es') }
     else Some (v, es) }"

definition dictScan ::
  "bool \<Rightarrow> ('k, 'v) dict \<Rightarrow> u64 \<Rightarrow> (u64 \<times> ('k, 'v) scan_event list) option" where
  "dictScan bucketfn d v =
     (if dictSize d = 0 then Some (0, [])
      else if \<not> dictIsRehashing d then do {
        let m0 = ht_sizemask (ht0 d);
        es \<leftarrow> scan_emit bucketfn d 0 (v AND m0);
        Some (rev_incr m0 v, es) }
      else do {
        let (t0, t1) = (if ht_size (ht0 d) > ht_size (ht1 d) then (1, 0) else (0, 1));
        let m0 = ht_sizemask (get_ht d t0);
        let m1 = ht_sizemask (get_ht d t1);
        es \<leftarrow> scan_emit bucketfn d t0 (v AND m0);
        (v, es') \<leftarrow> scan_expand bucketfn d t1 m0 m1 v;
        Some (v, es @ es') })"

text \<open>A client of the iteration: one call on each of a sequence of states of the dictionary.\<close>

fun scan_seq ::
  "bool \<Rightarrow> ('k, 'v) dict list \<Rightarrow> u64 \<Rightarrow> (u64 \<times> ('k, 'v) scan_event list) option" where
  "scan_seq bucketfn [] v = Some (v, [])"
| "scan_seq bucketfn (d # ds) v = do {
     (v, es) \<leftarrow> dictScan bucketfn d v;
     (v, es') \<leftarrow> scan_seq bucketfn ds v;
     Some (v, es @ es') }"

declare rev_loop.simps [simp del]

subsection \<open>Bit reversal\<close>

definition swap_bits :: "nat \<Rightarrow> u64 \<Rightarrow> u64 \<Rightarrow> u64" where
  "swap_bits s m v = (drop_bit s v AND m) OR (push_bit s v AND NOT m)"

lemma rev_loop_swap:
  "s div 2 = s' \<Longrightarrow> 0 < s' \<Longrightarrow> m XOR push_bit s' m = m' \<Longrightarrow>
    rev_loop s m v = rev_loop s' m' (swap_bits s' m' v)"
  by (subst rev_loop.simps) (simp add: swap_bits_def Let_def)

lemma rev_ul_unfold:
  "rev_ul v = swap_bits 1 0x5555555555555555 (swap_bits 2 0x3333333333333333
     (swap_bits 4 0x0F0F0F0F0F0F0F0F (swap_bits 8 0x00FF00FF00FF00FF
       (swap_bits 16 0x0000FFFF0000FFFF (swap_bits 32 0x00000000FFFFFFFF v)))))"
proof -
  have m: "NOT 0 XOR push_bit 32 (NOT 0) = (0xFFFFFFFF :: u64)"
    "0xFFFFFFFF XOR push_bit 16 0xFFFFFFFF = (0x0000FFFF0000FFFF :: u64)"
    "0x0000FFFF0000FFFF XOR push_bit 8 0x0000FFFF0000FFFF = (0x00FF00FF00FF00FF :: u64)"
    "0x00FF00FF00FF00FF XOR push_bit 4 0x00FF00FF00FF00FF = (0x0F0F0F0F0F0F0F0F :: u64)"
    "0x0F0F0F0F0F0F0F0F XOR push_bit 2 0x0F0F0F0F0F0F0F0F = (0x3333333333333333 :: u64)"
    "0x3333333333333333 XOR push_bit 1 0x3333333333333333 = (0x5555555555555555 :: u64)"
    by code_simp+
  have "rev_loop 1 m v = v" for m v by (simp add: rev_loop.simps)
  then show ?thesis
    unfolding rev_ul_def
    by (simp only: rev_loop_swap [of 64 32, OF _ _ m(1)] rev_loop_swap [of 32 16, OF _ _ m(2)]
        rev_loop_swap [of 16 8, OF _ _ m(3)] rev_loop_swap [of 8 4, OF _ _ m(4)]
        rev_loop_swap [of 4 2, OF _ _ m(5)] rev_loop_swap [of 2 1, OF _ _ m(6)])
qed

text \<open>Each step exchanges neighbouring groups of \<open>s\<close> bits, that is, bits \<open>i\<close> and \<open>i XOR s\<close>.\<close>

lemma all_less_64: "(\<forall>i \<in> set [0..<64]. P i) \<Longrightarrow> i < 64 \<Longrightarrow> P i"
  by simp

lemma bit_swap:
  assumes "\<forall>i \<in> set [0..<64]. if bit m i then i XOR s = i + s else s \<le> i \<and> i XOR s = i - s" "i < 64"
  shows "bit (swap_bits s m v) i \<longleftrightarrow> bit v (i XOR s)"
  using assms(2) all_less_64 [OF assms(1,2)]
  by (auto simp: swap_bits_def bit_simps add.commute split: if_splits)

lemma xor_less_64: "i < 64 \<Longrightarrow> s < 64 \<Longrightarrow> i XOR s < (64 :: nat)"
proof -
  assume "i < 64" "s < 64"
  then have "take_bit 6 i = i" "take_bit 6 s = s" by (simp_all add: take_bit_nat_eq_self_iff)
  then have "take_bit 6 (i XOR s) = i XOR s" by (simp only: take_bit_xor)
  then show ?thesis by (simp only: take_bit_nat_eq_self_iff) simp
qed

lemma bit_rev_ul: "bit (rev_ul v) i \<longleftrightarrow> i < 64 \<and> bit v (63 - i)"
proof (cases "i < 64")
  case True
  have "\<forall>i \<in> set [0..<64]. (i XOR 1 XOR 2 XOR 4 XOR 8 XOR 16 XOR 32 :: nat) = 63 - i" by code_simp
  then have x: "(((((i XOR 1) XOR 2) XOR 4) XOR 8) XOR 16) XOR 32 = 63 - i"
    using True by (simp add: xor.assoc)
  have
    "bit (swap_bits 1 0x5555555555555555 v) j \<longleftrightarrow> bit v (j XOR 1)"
    "bit (swap_bits 2 0x3333333333333333 v) j \<longleftrightarrow> bit v (j XOR 2)"
    "bit (swap_bits 4 0x0F0F0F0F0F0F0F0F v) j \<longleftrightarrow> bit v (j XOR 4)"
    "bit (swap_bits 8 0x00FF00FF00FF00FF v) j \<longleftrightarrow> bit v (j XOR 8)"
    "bit (swap_bits 16 0x0000FFFF0000FFFF v) j \<longleftrightarrow> bit v (j XOR 16)"
    "bit (swap_bits 32 0x00000000FFFFFFFF v) j \<longleftrightarrow> bit v (j XOR 32)"
    if "j < 64" for j v
    by (rule bit_swap [OF _ that], code_simp)+
  then show ?thesis
    unfolding rev_ul_unfold using True xor_less_64 x by simp
next
  case False
  then show ?thesis using impossible_bit [of i "rev_ul v"] by (auto simp: exp_eq_zero_iff)
qed

subsection \<open>The order in which cursors advance\<close>

definition rnk :: "u64 \<Rightarrow> nat" where
  "rnk v = unat (rev_ul v)"

lemma rev_ul_rev_ul [simp]: "rev_ul (rev_ul v) = v"
  by (rule bit_eqI) (auto simp: bit_rev_ul)

lemma rnk_0 [simp]: "rnk v = 0 \<longleftrightarrow> v = 0"
proof -
  have "rev_ul 0 = 0" by (rule bit_eqI) (simp add: bit_rev_ul)
  then have "rev_ul v = 0 \<longleftrightarrow> v = 0" by (metis rev_ul_rev_ul)
  then show ?thesis by (simp add: rnk_def unat_eq_0)
qed

lemma rnk_zero [simp]: "rnk 0 = 0"
  by simp

lemma rnk_less: "rnk v < 2 ^ 64"
proof -
  have "unat (rev_ul v) < 2 ^ LENGTH(64)" by (rule unsigned_less)
  then show ?thesis by (simp add: rnk_def)
qed

text \<open>The keys of a bucket of a table of \<open>2 ^ n\<close> buckets are those of an interval of ranks.\<close>

lemma take_bit_eq_bits: "take_bit n (h :: u64) = take_bit n g \<longleftrightarrow> (\<forall>j < n. bit h j = bit g j)"
  using bit_imp_le_length [of h] bit_imp_le_length [of g] by (fastforce simp: bit_eq_iff bit_take_bit_iff)

lemma drop_bit_rev_eq_bits:
  assumes "n \<le> 64"
  shows "drop_bit (64 - n) (rev_ul h) = drop_bit (64 - n) (rev_ul g) \<longleftrightarrow> (\<forall>j < n. bit h j = bit g j)"
proof -
  have d: "bit (drop_bit (64 - n) (rev_ul v)) i \<longleftrightarrow> i < n \<and> bit v (n - 1 - i)" for v i
  proof (cases "i < n")
    case True
    then have "64 - n + i < 64" "63 - (64 - n + i) = n - 1 - i" using assms by linarith+
    then show ?thesis using True by (simp only: bit_drop_bit_eq bit_rev_ul comp_apply)
  next
    case False
    then have "\<not> 64 - n + i < 64" using assms by linarith
    then show ?thesis using False by (simp add: bit_drop_bit_eq bit_rev_ul)
  qed
  show ?thesis
  proof
    assume *: "drop_bit (64 - n) (rev_ul h) = drop_bit (64 - n) (rev_ul g)"
    show "\<forall>j < n. bit h j = bit g j"
    proof (intro allI impI)
      fix j assume "j < n"
      then have "n - 1 - j < n" "n - 1 - (n - 1 - j) = j" by linarith+
      then show "bit h j = bit g j" using d [of h "n - 1 - j"] d [of g "n - 1 - j"] * by simp
    qed
  next
    assume "\<forall>j < n. bit h j = bit g j"
    then show "drop_bit (64 - n) (rev_ul h) = drop_bit (64 - n) (rev_ul g)"
      by (intro bit_eqI) (auto simp: d)
  qed
qed

lemma unat_drop_bit: "unat (drop_bit k (x :: u64)) = unat x div 2 ^ k"
  unfolding unat_drop_bit_eq by (rule drop_bit_eq_div)

lemma bucket_rnk:
  assumes "n \<le> 64"
  shows "h AND mask n = (g :: u64) AND mask n \<longleftrightarrow> rnk h div 2 ^ (64 - n) = rnk g div 2 ^ (64 - n)"
proof -
  have "rnk v div 2 ^ (64 - n) = unat (drop_bit (64 - n) (rev_ul v))" for v
    by (simp only: rnk_def unat_drop_bit)
  then have "rnk h div 2 ^ (64 - n) = rnk g div 2 ^ (64 - n) \<longleftrightarrow>
      drop_bit (64 - n) (rev_ul h) = drop_bit (64 - n) (rev_ul g)" by (simp add: word_unat_eq_iff)
  then show ?thesis
    using take_bit_eq_bits [of n h g] drop_bit_rev_eq_bits [OF assms, of h g]
    by (simp add: take_bit_eq_mask)
qed

lemma or_mask_incr: "((x :: u64) OR mask k) + 1 = push_bit k (drop_bit k x + 1)"
proof -
  have "x OR mask k = push_bit k (drop_bit k x) OR mask k"
    by (rule bit_eqI) (auto simp: bit_simps)
  also have "\<dots> = push_bit k (drop_bit k x) + mask k"
    by (rule disjunctive_add [symmetric]) (auto simp: bit_simps)
  finally show ?thesis by (simp add: mask_eq_exp_minus_1 push_bit_add push_bit_eq_mult algebra_simps)
qed

lemma unat_push_bit: "unat (push_bit k (y :: u64)) = unat y * 2 ^ k mod 2 ^ 64"
proof -
  have "unat ((2 :: u64) ^ k) = 2 ^ k mod 2 ^ 64"
    using unat_of_nat [of "2 ^ k", where ?'a = 64] by simp
  then show ?thesis by (simp add: push_bit_eq_mult unat_word_ariths(2) mod_mult_right_eq)
qed

lemma rnk_rev_incr:
  assumes "n \<le> 64"
  shows "rnk (rev_incr (mask n) v) = (rnk v div 2 ^ (64 - n) + 1) * 2 ^ (64 - n) mod 2 ^ 64"
proof -
  have "rev_ul (v OR NOT (mask n)) = rev_ul v OR mask (64 - n)"
    using assms by (intro bit_eqI) (auto simp: bit_rev_ul bit_simps)
  then have "rnk (rev_incr (mask n) v) = unat (push_bit (64 - n) (drop_bit (64 - n) (rev_ul v) + 1))"
    by (simp add: rnk_def rev_incr_def or_mask_incr)
  also have "\<dots> = (unat (drop_bit (64 - n) (rev_ul v) + 1) * 2 ^ (64 - n)) mod 2 ^ 64"
    by (simp only: unat_push_bit)
  also have "unat (drop_bit (64 - n) (rev_ul v) + 1) = (rnk v div 2 ^ (64 - n) + 1) mod 2 ^ 64"
    by (simp only: unat_word_ariths(1) unat_drop_bit rnk_def unat_1) simp
  also have "(rnk v div 2 ^ (64 - n) + 1) mod 2 ^ 64 * 2 ^ (64 - n) mod 2 ^ 64 =
      (rnk v div 2 ^ (64 - n) + 1) * 2 ^ (64 - n) mod 2 ^ 64" by (rule mod_mult_left_eq)
  finally show ?thesis .
qed

text \<open>Where the upper bits of a cursor are zero.\<close>

lemma dvd_iff_bits: "2 ^ k dvd (m :: nat) \<longleftrightarrow> (\<forall>i < k. \<not> bit m i)"
proof -
  have "2 ^ k dvd m \<longleftrightarrow> take_bit k m = 0" by (simp add: take_bit_eq_mod dvd_eq_mod_eq_0)
  also have "\<dots> \<longleftrightarrow> (\<forall>i < k. \<not> bit m i)" by (auto simp: bit_eq_iff bit_take_bit_iff)
  finally show ?thesis .
qed

lemma dvd_rnk:
  assumes "n \<le> 64"
  shows "2 ^ (64 - n) dvd rnk w \<longleftrightarrow> (\<forall>j \<ge> n. \<not> bit w j)"
proof -
  have "(\<forall>i < 64 - n. \<not> bit (rnk w) i) \<longleftrightarrow> (\<forall>i < 64 - n. \<not> bit w (63 - i))"
    by (auto simp: rnk_def bit_unsigned_iff bit_rev_ul)
  also have "\<dots> \<longleftrightarrow> (\<forall>j \<ge> n. \<not> bit w j)"
  proof (intro iffI allI impI)
    fix j assume *: "\<forall>i < 64 - n. \<not> bit w (63 - i)" "n \<le> j"
    show "\<not> bit w j"
    proof
      assume b: "bit w j"
      then have "j < 64" using bit_imp_le_length [of w j] by simp
      then have "63 - j < 64 - n" "63 - (63 - j) = j" using *(2) assms by linarith+
      then show False using * b by metis
    qed
  qed auto
  finally show ?thesis by (simp add: dvd_iff_bits)
qed

lemma eq_0_iff_bits: "(x :: u64) = 0 \<longleftrightarrow> (\<forall>j. \<not> bit x j)"
  by (auto intro: bit_eqI)

lemma cursor_diff_bits:
  assumes "n0 \<le> n1" "n1 \<le> 64" "2 ^ (64 - n1) dvd rnk w"
  shows "w AND (mask n0 XOR mask n1) = 0 \<longleftrightarrow> 2 ^ (64 - n0) dvd rnk w"
proof -
  have hi: "\<not> bit w j" if "n1 \<le> j" for j using assms that by (simp add: dvd_rnk)
  have b: "bit (w AND (mask n0 XOR mask n1)) j \<longleftrightarrow> bit w j \<and> n0 \<le> j" for j
    using assms(1) hi [of j] bit_imp_le_length [of w j] by (auto simp: bit_simps not_le)
  have "w AND (mask n0 XOR mask n1) = 0 \<longleftrightarrow> (\<forall>j. \<not> bit (w AND (mask n0 XOR mask n1)) j)"
    by (rule eq_0_iff_bits)
  then show ?thesis using assms(1,2) unfolding b by (auto simp: dvd_rnk)
qed

lemma block_eq: "a \<le> x \<Longrightarrow> x < (a div B + 1) * B \<Longrightarrow> x div B = (a div B :: nat)"
  by (metis Suc_eq_plus1 div_le_mono div_less_iff_less_mult le_antisym less_Suc_eq_le mult_eq_0_iff
      neq0_conv not_less_zero)

lemma block_end:
  assumes "a < B * C" "0 < B"
  shows "a < (a div B + 1) * B" "(a div B + 1) * B \<le> B * (C :: nat)"
proof -
  show "a < (a div B + 1) * B" using assms(2) by (simp add: dividend_less_div_times)
  have "a div B < C" using assms by (simp add: less_mult_imp_div_less mult.commute)
  then have "(a div B + 1) * B \<le> C * B" by (intro mult_le_mono1) simp
  then show "(a div B + 1) * B \<le> B * C" by (simp add: mult.commute)
qed

subsection \<open>One call\<close>

lemma ht_mask:
  assumes "ht_wf ty ht" "ht_table ht \<noteq> None"
  obtains n where "n \<le> 60" "ht_size ht = 2 ^ n" "ht_sizemask ht = mask n"
  using assms by (auto simp: ht_wf_def mask_eq_exp_minus_1)

lemma scan_emit_correct:
  assumes wf: "ht_wf ty (get_ht d t)" "ht_table (get_ht d t) \<noteq> None" "ht_sizemask (get_ht d t) = mask n"
  obtains es where "scan_emit b d t (v AND mask n) = Some es"
    "\<forall>e \<in> set (ht_entries (get_ht d t)). hashFunction ty (ekey e) AND mask n = v AND mask n \<longrightarrow> ScanFn e \<in> set es"
proof -
  let ?ht = "get_ht d t"
  obtain tab k where tab: "ht_table ?ht = Some tab" "length tab = 2 ^ k" "k \<le> 60" "ht_sizemask ?ht = of_nat (2 ^ k) - 1"
    using wf(1,2) by (auto simp: ht_wf_def)
  have "unat (v AND mask n) = unat v mod 2 ^ k"
    using unat_and_mask [OF tab(3), of v] tab(4) wf(3) by simp
  then have "unat (v AND mask n) < length tab" using tab(2) by simp
  then obtain c where c: "chain_at ?ht (unat (v AND mask n)) = Some c"
    using tab(1) by (simp add: chain_at_Some)
  have "ScanFn e \<in> set (map ScanFn c)"
    if "e \<in> set (ht_entries ?ht)" "hashFunction ty (ekey e) AND mask n = v AND mask n" for e
  proof -
    have "slot ty ?ht (ekey e) = unat (v AND mask n)" using that(2) wf(3) by (simp add: slot_def)
    then show ?thesis using entry_chain [OF wf(1) that(1)] c by auto
  qed
  then show ?thesis using c by (intro that) (auto simp: scan_emit_def)
qed

lemma pow_split: "n \<le> 64 \<Longrightarrow> (2::nat) ^ (64 - n) * 2 ^ n = 2 ^ 64"
  by (simp add: power_add [symmetric] del: power_numeral)

lemma rnk_block:
  assumes "n \<le> 64"
  shows "rnk v < (rnk v div 2 ^ (64 - n) + 1) * 2 ^ (64 - n)" "(rnk v div 2 ^ (64 - n) + 1) * 2 ^ (64 - n) \<le> 2 ^ 64"
  using block_end [of "rnk v" "2 ^ (64 - n)" "2 ^ n"] rnk_less [of v] pow_split [OF assms] by simp_all

text \<open>The expansions of the cursor in the larger table, up to the end of its bucket in the smaller one.\<close>

lemma scan_expand_correct:
  fixes v :: u64
  assumes wf: "ht_wf ty (get_ht d t)" "ht_table (get_ht d t) \<noteq> None" "ht_sizemask (get_ht d t) = mask n1"
    and n: "n0 \<le> n1" "n1 \<le> 60"
  shows "\<exists>v' es. scan_expand b d t (mask n0) (mask n1) v = Some (v', es) \<and>
    rnk v' = (rnk v div 2 ^ (64 - n0) + 1) * 2 ^ (64 - n0) mod 2 ^ 64 \<and>
    (\<forall>e \<in> set (ht_entries (get_ht d t)). rnk v \<le> rnk (hashFunction ty (ekey e)) \<and>
       rnk (hashFunction ty (ekey e)) < (rnk v div 2 ^ (64 - n0) + 1) * 2 ^ (64 - n0) \<longrightarrow> ScanFn e \<in> set es)"
proof (induction "(rnk v div 2 ^ (64 - n0) + 1) * 2 ^ (64 - n0) - rnk v" arbitrary: v rule: less_induct)
  case less
  define B0 B1 where "B0 = (2::nat) ^ (64 - n0)" and "B1 = (2::nat) ^ (64 - n1)"
  define P where "P = (rnk v div B0 + 1) * B0"
  define Q where "Q = (rnk v div B1 + 1) * B1"
  let ?h = "\<lambda>e. hashFunction ty (ekey e)" and ?E = "set (ht_entries (get_ht d t))" and ?v = "rev_incr (mask n1) v"
  have BB: "B0 = 2 ^ (n1 - n0) * B1" using n by (simp add: B0_def B1_def power_add [symmetric])
  have P: "rnk v < P" "P \<le> 2 ^ 64" and Q: "rnk v < Q" "Q \<le> 2 ^ 64"
    using rnk_block [of n0 v] rnk_block [of n1 v] n by (simp_all add: P_def Q_def B0_def B1_def)
  have rQ: "rnk ?v = Q mod 2 ^ 64" using rnk_rev_incr [of n1 v] n by (simp add: Q_def B1_def)
  obtain es where es: "scan_emit b d t (v AND mask n1) = Some es"
      "\<forall>e \<in> ?E. ?h e AND mask n1 = v AND mask n1 \<longrightarrow> ScanFn e \<in> set es"
    using wf by (rule scan_emit_correct)
  have emitted: "ScanFn e \<in> set es" if "e \<in> ?E" "rnk v \<le> rnk (?h e)" "rnk (?h e) < Q" for e
  proof -
    have "rnk (?h e) div B1 = rnk v div B1" using that by (intro block_eq) (simp_all add: Q_def)
    then have "?h e AND mask n1 = v AND mask n1" using n by (simp add: bucket_rnk B1_def)
    then show ?thesis using es(2) that(1) by blast
  qed
  have PB: "P = (rnk v div B0 + 1) * 2 ^ (n1 - n0) * B1"
    unfolding P_def by (subst (2) BB) (simp only: mult.assoc)
  then have "rnk v < (rnk v div B0 + 1) * 2 ^ (n1 - n0) * B1" using P(1) by simp
  then have "rnk v div B1 < (rnk v div B0 + 1) * 2 ^ (n1 - n0)" by (rule less_mult_imp_div_less)
  then have "Q \<le> (rnk v div B0 + 1) * 2 ^ (n1 - n0) * B1" unfolding Q_def by (intro mult_le_mono1) linarith
  then have QP: "Q \<le> P" by (simp only: PB)
  have dvd64: "B0 dvd 2 ^ 64" "B1 dvd 2 ^ 64" using n by (simp_all add: B0_def B1_def le_imp_power_dvd del: power_numeral)
  have "B1 dvd rnk ?v" unfolding rQ using dvd64 by (intro dvd_mod) (simp_all add: Q_def)
  then have test: "?v AND (mask n0 XOR mask n1) = 0 \<longleftrightarrow> B0 dvd rnk ?v"
    using n cursor_diff_bits [of n0 n1 ?v] by (simp add: B0_def B1_def)
  show ?case
  proof (cases "Q = P")
    case True
    have "B0 dvd rnk ?v" unfolding rQ True using dvd64 by (intro dvd_mod) (simp_all add: P_def)
    then have "scan_expand b d t (mask n0) (mask n1) v = Some (?v, es)"
      using es(1) test by (subst scan_expand.simps) simp
    then show ?thesis using rQ True emitted unfolding P_def B0_def by blast
  next
    case False
    then have lt: "Q < P" "rnk ?v = Q" using QP P(2) rQ by simp_all
    have blk: "rnk ?v div B0 = rnk v div B0" using lt Q(1) by (intro block_eq) (simp_all add: P_def)
    have "\<not> B0 dvd rnk ?v"
    proof
      assume "B0 dvd rnk ?v"
      then have "rnk ?v = rnk v div B0 * B0" using blk by (metis dvd_div_mult_self)
      then show False using lt(2) Q(1) by (metis div_times_less_eq_dividend leD)
    qed
    then have "?v AND (mask n0 XOR mask n1) \<noteq> 0" using test by simp
    moreover have "(rnk ?v div 2 ^ (64 - n0) + 1) * 2 ^ (64 - n0) = P" using blk by (simp add: P_def B0_def)
    moreover have "P - rnk ?v < (rnk v div 2 ^ (64 - n0) + 1) * 2 ^ (64 - n0) - rnk v"
      using lt Q(1) unfolding P_def B0_def by linarith
    ultimately obtain v' es' where r: "scan_expand b d t (mask n0) (mask n1) ?v = Some (v', es')"
        "rnk v' = P mod 2 ^ 64" "\<forall>e \<in> ?E. rnk ?v \<le> rnk (?h e) \<and> rnk (?h e) < P \<longrightarrow> ScanFn e \<in> set es'"
      using less [of ?v] by auto
    have "scan_expand b d t (mask n0) (mask n1) v = Some (v', es @ es')"
      using es(1) r(1) \<open>?v AND (mask n0 XOR mask n1) \<noteq> 0\<close> by (subst scan_expand.simps) simp
    moreover have "ScanFn e \<in> set (es @ es')" if "e \<in> ?E" "rnk v \<le> rnk (?h e)" "rnk (?h e) < P" for e
      using that emitted [of e] r(3) lt(2) by (cases "rnk (?h e) < Q") auto
    ultimately show ?thesis using r(2) unfolding P_def B0_def by blast
  qed
qed

text \<open>The number of buckets of the smaller table.\<close>

definition scan_size :: "('k, 'v) dict \<Rightarrow> nat" where
  "scan_size d = (if dictIsRehashing d then min (ht_size (ht0 d)) (ht_size (ht1 d)) else ht_size (ht0 d))"

lemma dictScan_rehashing:
  assumes wf: "ht_wf ty (get_ht d t0)" "ht_table (get_ht d t0) \<noteq> None"
      "ht_wf ty (get_ht d t1)" "ht_table (get_ht d t1) \<noteq> None"
    and le: "ht_size (get_ht d t0) \<le> ht_size (get_ht d t1)"
    and m: "m0 = ht_sizemask (get_ht d t0)" "m1 = ht_sizemask (get_ht d t1)"
  obtains n v' es where
    "do { es \<leftarrow> scan_emit b d t0 (v AND m0); (v, es') \<leftarrow> scan_expand b d t1 m0 m1 v; Some (v, es @ es') } = Some (v', es)"
    "n \<le> 60" "2 ^ n = ht_size (get_ht d t0)"
    "rnk v' = (rnk v div 2 ^ (64 - n) + 1) * 2 ^ (64 - n) mod 2 ^ 64"
    "\<forall>e \<in> set (ht_entries (get_ht d t0)) \<union> set (ht_entries (get_ht d t1)).
       rnk v \<le> rnk (hashFunction ty (ekey e)) \<and>
       rnk (hashFunction ty (ekey e)) < (rnk v div 2 ^ (64 - n) + 1) * 2 ^ (64 - n) \<longrightarrow> ScanFn e \<in> set es"
proof -
  let ?h = "\<lambda>e. hashFunction ty (ekey e)"
  obtain n0 where n0: "n0 \<le> 60" "ht_size (get_ht d t0) = 2 ^ n0" "ht_sizemask (get_ht d t0) = mask n0"
    using wf(1,2) by (rule ht_mask)
  obtain n1 where n1: "n1 \<le> 60" "ht_size (get_ht d t1) = 2 ^ n1" "ht_sizemask (get_ht d t1) = mask n1"
    using wf(3,4) by (rule ht_mask)
  have n01: "n0 \<le> n1" using le n0(2) n1(2) by simp
  define P where "P = (rnk v div 2 ^ (64 - n0) + 1) * 2 ^ (64 - n0)"
  obtain es where es: "scan_emit b d t0 (v AND mask n0) = Some es"
      "\<forall>e \<in> set (ht_entries (get_ht d t0)). ?h e AND mask n0 = v AND mask n0 \<longrightarrow> ScanFn e \<in> set es"
    using wf(1,2) n0(3) by (rule scan_emit_correct)
  obtain v' es' where ex: "scan_expand b d t1 (mask n0) (mask n1) v = Some (v', es')" "rnk v' = P mod 2 ^ 64"
      "\<forall>e \<in> set (ht_entries (get_ht d t1)). rnk v \<le> rnk (?h e) \<and> rnk (?h e) < P \<longrightarrow> ScanFn e \<in> set es'"
    using scan_expand_correct [OF wf(3,4) n1(3) n01 n1(1), of b v] unfolding P_def by blast
  have "ScanFn e \<in> set es"
    if e: "e \<in> set (ht_entries (get_ht d t0))" "rnk v \<le> rnk (?h e)" "rnk (?h e) < P" for e
  proof -
    have "rnk (?h e) div 2 ^ (64 - n0) = rnk v div 2 ^ (64 - n0)"
      using e(2,3) by (intro block_eq) (simp_all add: P_def)
    then have "?h e AND mask n0 = v AND mask n0" using n0(1) by (simp add: bucket_rnk)
    then show ?thesis using es(2) e(1) by blast
  qed
  then have "\<forall>e \<in> set (ht_entries (get_ht d t0)) \<union> set (ht_entries (get_ht d t1)).
      rnk v \<le> rnk (?h e) \<and> rnk (?h e) < P \<longrightarrow> ScanFn e \<in> set (es @ es')"
    using ex(3) by auto
  then show ?thesis
    using es(1) ex(1,2) n0 n1(3) m by (intro that [of v' "es @ es'" n0]) (simp_all add: P_def)
qed

lemma dictScan_correct:
  assumes wf: "dict_wf ty d"
  obtains N v' es where "dictScan b d v = Some (v', es)" "rnk v < N" "N \<le> 2 ^ 64" "rnk v' = N mod 2 ^ 64"
    "\<forall>e \<in> set (dict_entries d). rnk v \<le> rnk (hashFunction ty (ekey e)) \<and>
       rnk (hashFunction ty (ekey e)) < N \<longrightarrow> ScanFn e \<in> set es"
    "dictSize d \<noteq> 0 \<longrightarrow> (\<exists>n \<le> 60. 2 ^ n = scan_size d \<and> N = (rnk v div 2 ^ (64 - n) + 1) * 2 ^ (64 - n))"
proof (cases "dictSize d = 0")
  case True
  then have "dict_entries d = []" using dictSize_entries [OF wf] by simp
  then show ?thesis using True rnk_less [of v] by (intro that [of 0 "[]" "2 ^ 64"]) (simp_all add: dictScan_def)
next
  case used: False
  have tab: "ht_table (ht0 d) \<noteq> None" using nonempty_table [OF wf] used by (simp add: dictSize_def)
  show ?thesis
  proof (cases "dictIsRehashing d")
    case False
    have w: "ht_wf ty (get_ht d 0)" "ht_table (get_ht d 0) \<noteq> None" using wf tab by (simp_all add: dict_wf_def)
    obtain n where n: "n \<le> 60" "ht_size (get_ht d 0) = 2 ^ n" "ht_sizemask (get_ht d 0) = mask n"
      using w by (rule ht_mask)
    obtain es where es: "scan_emit b d 0 (v AND mask n) = Some es"
        "\<forall>e \<in> set (ht_entries (get_ht d 0)). hashFunction ty (ekey e) AND mask n = v AND mask n \<longrightarrow> ScanFn e \<in> set es"
      using w n(3) by (rule scan_emit_correct)
    let ?N = "(rnk v div 2 ^ (64 - n) + 1) * 2 ^ (64 - n)"
    have e0: "dict_entries d = ht_entries (get_ht d 0)"
      using wf False by (simp add: dict_entries_def dict_wf_def)
    have n64: "n \<le> 64" using n(1) by simp
    have "\<forall>e \<in> set (dict_entries d). rnk v \<le> rnk (hashFunction ty (ekey e)) \<and>
        rnk (hashFunction ty (ekey e)) < ?N \<longrightarrow> ScanFn e \<in> set es"
      unfolding e0 using es(2) unfolding bucket_rnk [OF n64] by (blast intro: block_eq)
    moreover have "dictScan b d v = Some (rev_incr (mask n) v, es)"
      using used False es(1) n(3) by (simp add: dictScan_def)
    moreover have "2 ^ n = scan_size d" using False n(2) by (simp add: scan_size_def)
    ultimately show ?thesis
      using n(1) rnk_block [OF n64, of v] rnk_rev_incr [OF n64, of v]
      by (intro that [of "rev_incr (mask n) v" es ?N]) blast+
  next
    case True
    then have w: "ht_wf ty (get_ht d t)" "ht_table (get_ht d t) \<noteq> None" for t
      using wf by (auto simp: dict_wf_def get_ht_def)
    define t0 t1 where "t0 = (if ht_size (ht0 d) > ht_size (ht1 d) then 1 else 0 :: nat)"
      and "t1 = (if ht_size (ht0 d) > ht_size (ht1 d) then 0 else 1 :: nat)"
    have le: "ht_size (get_ht d t0) \<le> ht_size (get_ht d t1)" by (simp add: t0_def t1_def)
    have sz: "scan_size d = ht_size (get_ht d t0)" using True by (simp add: t0_def scan_size_def)
    have un: "set (ht_entries (get_ht d t0)) \<union> set (ht_entries (get_ht d t1)) = set (dict_entries d)"
      by (auto simp: t0_def t1_def dict_entries_def)
    from w w le refl refl obtain n v' es where r:
      "do { es \<leftarrow> scan_emit b d t0 (v AND ht_sizemask (get_ht d t0));
            (v, es') \<leftarrow> scan_expand b d t1 (ht_sizemask (get_ht d t0)) (ht_sizemask (get_ht d t1)) v;
            Some (v, es @ es') } = Some (v', es)"
      "n \<le> 60" "2 ^ n = ht_size (get_ht d t0)"
      "rnk v' = (rnk v div 2 ^ (64 - n) + 1) * 2 ^ (64 - n) mod 2 ^ 64"
      "\<forall>e \<in> set (ht_entries (get_ht d t0)) \<union> set (ht_entries (get_ht d t1)).
         rnk v \<le> rnk (hashFunction ty (ekey e)) \<and>
         rnk (hashFunction ty (ekey e)) < (rnk v div 2 ^ (64 - n) + 1) * 2 ^ (64 - n) \<longrightarrow> ScanFn e \<in> set es"
      by (rule dictScan_rehashing)
    have "dictScan b d v = Some (v', es)"
      using used True r(1) by (cases "ht_size (ht0 d) > ht_size (ht1 d)") (simp_all add: dictScan_def t0_def t1_def)
    then show ?thesis
      using r(2-5) rnk_block [of n v] unfolding un sz [symmetric]
      by (intro that [of v' es "(rnk v div 2 ^ (64 - n) + 1) * 2 ^ (64 - n)"]) (assumption | simp | blast)+
  qed
qed

subsection \<open>A complete iteration\<close>

lemma scan_seq_complete:
  assumes ty: "hash_type ty" and "\<forall>d \<in> set ds. dict_wf ty d" "ds \<noteq> []" "scan_seq b ds v = Some (0, es)"
    "\<forall>d \<in> set ds. dict_map ty d k \<noteq> None" "rnk v \<le> rnk (hashFunction ty k)"
  shows "\<exists>e. ScanFn e \<in> set es \<and> keq ty k (ekey e)"
  using assms(2-)
proof (induction ds arbitrary: v es)
  case (Cons d ds)
  have "dict_wf ty d" using Cons.prems(1) by simp
  then obtain N v' es1 where s: "dictScan b d v = Some (v', es1)" "rnk v < N" "N \<le> 2 ^ 64" "rnk v' = N mod 2 ^ 64"
      "\<forall>e \<in> set (dict_entries d). rnk v \<le> rnk (hashFunction ty (ekey e)) \<and>
         rnk (hashFunction ty (ekey e)) < N \<longrightarrow> ScanFn e \<in> set es1"
    by (rule dictScan_correct)
  obtain es2 where es2: "scan_seq b ds v' = Some (0, es2)" "es = es1 @ es2"
    using Cons.prems(3) s(1) by (auto simp: bind_eq_Some_conv)
  obtain e where e: "e \<in> set (dict_entries d)" "keq ty k (ekey e)"
    using Cons.prems(4) hash_type.dict_map_None_iff [OF ty, of d k] by auto
  have h: "hashFunction ty (ekey e) = hashFunction ty k"
    using hash_type.keq_hash [OF ty e(2)] by simp
  show ?case
  proof (cases "rnk (hashFunction ty k) < N")
    case True
    then show ?thesis using s(5) e h Cons.prems(5) es2(2) by auto
  next
    case False
    then have "N < 2 ^ 64" using rnk_less [of "hashFunction ty k"] by linarith
    then have v': "rnk v' \<le> rnk (hashFunction ty k)" "rnk v' = N" using False s(4) by simp_all
    then have "v' \<noteq> 0" using s(2) rnk_0 [of v'] by linarith
    then have "ds \<noteq> []" using es2(1) by auto
    then show ?thesis using Cons.IH [of v' es2] Cons.prems es2 v'(1) by auto
  qed
qed simp

lemma scan_seq_replicate:
  assumes wf: "dict_wf ty d" and used: "dictSize d \<noteq> 0" and n: "2 ^ n = scan_size d" "n \<le> 60"
  shows "rnk v = i * 2 ^ (64 - n) \<Longrightarrow> i + j \<le> 2 ^ n \<Longrightarrow>
    \<exists>v' es. scan_seq b (replicate j d) v = Some (v', es) \<and> rnk v' = (i + j) * 2 ^ (64 - n) mod 2 ^ 64"
proof (induction j arbitrary: i v)
  case 0
  then show ?case using rnk_less [of v] by simp
next
  case (Suc j)
  obtain N v' es n' where s: "dictScan b d v = Some (v', es)" "rnk v' = N mod 2 ^ 64"
      "2 ^ n' = scan_size d" "N = (rnk v div 2 ^ (64 - n') + 1) * 2 ^ (64 - n')"
    using dictScan_correct [OF wf, of b v] used by metis
  have "(2::nat) ^ n' = 2 ^ n" using s(3) n(1) by simp
  then have "n' = n" by simp
  then have N: "rnk v' = (i + 1) * 2 ^ (64 - n) mod 2 ^ 64" using s(2,4) Suc.prems(1) by simp
  show ?case
  proof (cases j)
    case 0
    then show ?thesis using s(1) N by simp
  next
    case (Suc j')
    then have "i + 1 < 2 ^ n" using Suc.prems(2) by simp
    then have "(i + 1) * 2 ^ (64 - n) < 2 ^ n * 2 ^ (64 - n)" by (intro mult_strict_right_mono) simp_all
    then have "rnk v' = (i + 1) * 2 ^ (64 - n)" using N pow_split [of n] n(2) by (simp add: mult.commute)
    then show ?thesis using Suc.IH [of v' "i + 1"] Suc.prems(2) s(1) by auto
  qed
qed

subsection \<open>Properties\<close>

text \<open>
  C1: a complete iteration with \<open>dictScan\<close>, from cursor 0 until cursor 0 is returned,
  reports every key that is in the dictionary at all the calls, although between the
  calls the dictionary may change in any way: other keys may come and go, and the tables
  may grow, shrink and be rehashed in part.
\<close>

theorem dictScan_complete:
  assumes "hash_type ty" "\<forall>d \<in> set ds. dict_wf ty d" "ds \<noteq> []"
    and "scan_seq b ds 0 = Some (0, es)" "\<forall>d \<in> set ds. dict_map ty d k \<noteq> None"
  shows "\<exists>e. ScanFn e \<in> set es \<and> keq ty k (ekey e)"
  using assms by (rule scan_seq_complete) simp

theorem dictScan_complete_witness:
  "\<exists>es. scan_seq False (replicate 4 demo_dict) 0 = Some (0, es) \<and>
    (\<exists>e. ScanFn e \<in> set es \<and> keq nat_type 5 (ekey e))"
proof -
  have "dictSize demo_dict \<noteq> 0" "2 ^ 2 = scan_size demo_dict"
    by (simp_all add: dictSize_def scan_size_def dictIsRehashing_def demo_dict_def)
  from scan_seq_replicate [OF demo_wf this, of 0 0 4 False] obtain es where
    es: "scan_seq False (replicate 4 demo_dict) 0 = Some (0, es)" by auto
  have "\<forall>d \<in> set (replicate 4 demo_dict). dict_wf nat_type d" using demo_wf by simp
  moreover have "\<forall>d \<in> set (replicate 4 demo_dict). dict_map nat_type d 5 \<noteq> None" by (simp add: demo_map)
  ultimately show ?thesis using es dictScan_complete [OF nat_type_hash _ _ es, of 5] by auto
qed

text \<open>
  C12: on a dictionary that does not change, the iteration comes back to cursor 0 after as
  many calls as the smaller of its tables has buckets.
\<close>

theorem dictScan_terminates:
  assumes "dict_wf ty d" "dictSize d \<noteq> 0"
  shows "\<exists>es. scan_seq b (replicate (scan_size d) d) 0 = Some (0, es)"
proof -
  obtain n where n: "2 ^ n = scan_size d" "n \<le> 60"
    using dictScan_correct [OF assms(1), of b 0] assms(2) by metis
  obtain v' es where "scan_seq b (replicate (2 ^ n) d) 0 = Some (v', es)" "rnk v' = 2 ^ n * 2 ^ (64 - n) mod 2 ^ 64"
    using scan_seq_replicate [OF assms n, of 0 0 "2 ^ n" b] by auto
  then show ?thesis using n pow_split [of n] by (simp add: mult.commute)
qed

theorem dictScan_terminates_witness:
  "\<exists>es. scan_seq True (replicate (scan_size demo_dict) demo_dict) 0 = Some (0, es)"
proof -
  have "dictSize demo_dict \<noteq> 0" by (simp add: dictSize_def demo_dict_def)
  with demo_wf show ?thesis by (rule dictScan_terminates)
qed

end
