(* ===== verification/Dict_Iter.thy ===== *)
theory Dict_Iter
  imports Dict_Refine
begin

text \<open>
  The iterators of \<^verbatim>\<open>dict.c\<close> and its functions that sample entries. A pointer to an entry is
  the rest of the chain that begins with the entry, \<open>NULL\<close> being the empty list; that
  is what \<open>next\<close> pointers lead through while the client only removes the entry it was
  given last. The dictionary that an iterator points to is passed along. The addresses
  of the tables, which enter the fingerprint, and the successive values of \<open>random()\<close>
  are arguments.
\<close>

subsection \<open>Definitions\<close>

record ('k, 'v) dictIterator =
  it_index :: int
  it_table :: nat
  it_safe :: bool
  it_entry :: "('k, 'v) dictEntry list"
  it_nextEntry :: "('k, 'v) dictEntry list"
  it_fingerprint :: u64

text \<open>One round of the loop of \<open>dictFingerprint\<close>; the right shifts are of signed numbers.\<close>

definition fingerprint_mix :: "u64 \<Rightarrow> u64 \<Rightarrow> u64" where
  "fingerprint_mix hash n =
     (let hash = hash + n;
          hash = NOT hash + push_bit 21 hash;
          hash = hash XOR signed_drop_bit 24 hash;
          hash = (hash + push_bit 3 hash) + push_bit 8 hash;
          hash = hash XOR signed_drop_bit 14 hash;
          hash = (hash + push_bit 2 hash) + push_bit 4 hash;
          hash = hash XOR signed_drop_bit 28 hash
      in hash + push_bit 31 hash)"

definition dictFingerprint :: "u64 \<times> u64 \<Rightarrow> ('k, 'v) dict \<Rightarrow> u64" where
  "dictFingerprint addr d = foldl fingerprint_mix 0
     [fst addr, of_nat (ht_size (ht0 d)), of_nat (ht_used (ht0 d)),
      snd addr, of_nat (ht_size (ht1 d)), of_nat (ht_used (ht1 d))]"

definition dictGetIterator :: "u64 \<Rightarrow> ('k, 'v) dictIterator" where
  "dictGetIterator junk =
     \<lparr>it_index = -1, it_table = 0, it_safe = False, it_entry = [], it_nextEntry = [], it_fingerprint = junk\<rparr>"

definition dictGetSafeIterator :: "u64 \<Rightarrow> ('k, 'v) dictIterator" where
  "dictGetSafeIterator junk = (dictGetIterator junk)\<lparr>it_safe := True\<rparr>"

text \<open>The part of the loop body of \<open>dictNext\<close> for an iterator at the end of a chain; the flag says \<open>break\<close>.\<close>

definition next_bucket ::
  "u64 \<times> u64 \<Rightarrow> ('k, 'v) dict \<Rightarrow> ('k, 'v) dictIterator \<Rightarrow> (('k, 'v) dict \<times> ('k, 'v) dictIterator \<times> bool) option" where
  "next_bucket addr d it =
     (let first = (it_index it = -1 \<and> it_table it = 0);
          d = (if first \<and> it_safe it then d\<lparr>iterators := iterators d + 1\<rparr> else d);
          it = (if first \<and> \<not> it_safe it then it\<lparr>it_fingerprint := dictFingerprint addr d\<rparr> else it);
          it = it\<lparr>it_index := it_index it + 1\<rparr>
      in if it_index it \<ge> int (ht_size (get_ht d (it_table it))) then
           if dictIsRehashing d \<and> it_table it = 0 then do {
             c \<leftarrow> chain_at (ht1 d) 0;
             Some (d, it\<lparr>it_table := 1, it_index := 0, it_entry := c\<rparr>, False) }
           else Some (d, it, True)
         else do {
           c \<leftarrow> chain_at (get_ht d (it_table it)) (nat (it_index it));
           Some (d, it\<lparr>it_entry := c\<rparr>, False) })"

partial_function (option) dictNext ::
  "u64 \<times> u64 \<Rightarrow> ('k, 'v) dict \<Rightarrow> ('k, 'v) dictIterator \<Rightarrow>
   (('k, 'v) dict \<times> ('k, 'v) dictIterator \<times> ('k, 'v) dictEntry option) option" where
  "dictNext addr d it = do {
     (d, it, brk) \<leftarrow> (if it_entry it = [] then next_bucket addr d it
                     else Some (d, it\<lparr>it_entry := it_nextEntry it\<rparr>, False));
     if brk then Some (d, it, None)
     else if it_entry it \<noteq> [] then Some (d, it\<lparr>it_nextEntry := tl (it_entry it)\<rparr>, Some (hd (it_entry it)))
     else dictNext addr d it }"

text \<open>\<^term>\<open>None\<close> is the failed assertion.\<close>

definition dictReleaseIterator ::
  "u64 \<times> u64 \<Rightarrow> ('k, 'v) dict \<Rightarrow> ('k, 'v) dictIterator \<Rightarrow> ('k, 'v) dict option" where
  "dictReleaseIterator addr d it =
     (if it_index it = -1 \<and> it_table it = 0 then Some d
      else if it_safe it then Some (d\<lparr>iterators := iterators d - 1\<rparr>)
      else if it_fingerprint it = dictFingerprint addr d then Some d else None)"

text \<open>A client that calls \<open>dictNext\<close> \<open>n\<close> times and collects the results.\<close>

fun iterate ::
  "nat \<Rightarrow> u64 \<times> u64 \<Rightarrow> ('k, 'v) dict \<Rightarrow> ('k, 'v) dictIterator \<Rightarrow>
   (('k, 'v) dict \<times> ('k, 'v) dictIterator \<times> ('k, 'v) dictEntry option list) option" where
  "iterate 0 addr d it = Some (d, it, [])"
| "iterate (Suc n) addr d it = do {
     (d, it, r) \<leftarrow> dictNext addr d it;
     (d, it, rs) \<leftarrow> iterate n addr d it;
     Some (d, it, r # rs) }"

text \<open>
  \<open>dictGetRandomKey\<close>: \<open>rnd k\<close> is the \<open>k\<close>-th value of \<open>random()\<close>. The loops run until a
  bucket is not empty.
\<close>

partial_function (option) random_bucket_rehashing ::
  "(nat \<Rightarrow> nat) \<Rightarrow> ('k, 'v) dict \<Rightarrow> nat \<Rightarrow> (('k, 'v) dictEntry list \<times> nat) option" where
  "random_bucket_rehashing rnd d k = do {
     let idx = nat (rehashidx d);
     let h = idx + rnd k mod (ht_size (ht0 d) + ht_size (ht1 d) - idx);
     he \<leftarrow> (if h \<ge> ht_size (ht0 d) then chain_at (ht1 d) (h - ht_size (ht0 d)) else chain_at (ht0 d) h);
     if he = [] then random_bucket_rehashing rnd d (k + 1) else Some (he, k + 1) }"

partial_function (option) random_bucket ::
  "(nat \<Rightarrow> nat) \<Rightarrow> ('k, 'v) dict \<Rightarrow> nat \<Rightarrow> (('k, 'v) dictEntry list \<times> nat) option" where
  "random_bucket rnd d k = do {
     let h = unat ((of_nat (rnd k) :: u64) AND ht_sizemask (ht0 d));
     he \<leftarrow> chain_at (ht0 d) h;
     if he = [] then random_bucket rnd d (k + 1) else Some (he, k + 1) }"

definition dictGetRandomKey ::
  "('k, 'v) dictType \<Rightarrow> (nat \<Rightarrow> nat) \<Rightarrow> ('k, 'v) dict \<Rightarrow> (('k, 'v) dict \<times> ('k, 'v) dictEntry option) option" where
  "dictGetRandomKey ty rnd d =
     (if dictSize d = 0 then Some (d, None)
      else do {
        d \<leftarrow> (if dictIsRehashing d then dictRehashStep_priv ty d else Some d);
        (he, k) \<leftarrow> (if dictIsRehashing d then random_bucket_rehashing rnd d 0 else random_bucket rnd d 0);
        e \<leftarrow> peek he (rnd k mod length he);
        Some (d, Some e) })"

text \<open>
  \<open>dictGetSomeKeys\<close>. The state of the loops is the index \<open>i\<close>, the number of empty buckets
  in a row, the number of random values used and the entries stored so far; the flag
  says that the function has returned. \<open>count\<close> is an \<open>unsigned int\<close>, and so is the product \<open>count*10\<close>, which wraps around.
\<close>

fun some_chain ::
  "nat \<Rightarrow> ('k, 'v) dictEntry list \<Rightarrow> ('k, 'v) dictEntry list \<Rightarrow> ('k, 'v) dictEntry list \<times> bool" where
  "some_chain cnt [] des = (des, False)"
| "some_chain cnt (he # c) des =
     (let des = des @ [he] in if length des = cnt then (des, True) else some_chain cnt c des)"

definition some_table ::
  "(nat \<Rightarrow> nat) \<Rightarrow> ('k, 'v) dict \<Rightarrow> nat \<Rightarrow> nat \<Rightarrow> u64 \<Rightarrow> nat \<Rightarrow>
   u64 \<times> nat \<times> nat \<times> ('k, 'v) dictEntry list \<times> bool \<Rightarrow>
   (u64 \<times> nat \<times> nat \<times> ('k, 'v) dictEntry list \<times> bool) option" where
  "some_table rnd d cnt tables maxsizemask j st =
     (case st of (i, emptylen, k, des, ret) \<Rightarrow>
        if ret then Some st
        else if tables = 2 \<and> j = 0 \<and> int (unat i) < rehashidx d then
          Some (if unat i \<ge> ht_size (ht1 d) then word_of_int (rehashidx d) else i, emptylen, k, des, False)
        else if unat i \<ge> ht_size (get_ht d j) then Some st
        else do {
          he \<leftarrow> chain_at (get_ht d j) (unat i);
          if he = [] then
            Some (if emptylen + 1 \<ge> 5 \<and> emptylen + 1 > cnt
                  then (of_nat (rnd k) AND maxsizemask, 0, k + 1, des, False)
                  else (i, emptylen + 1, k, des, False))
          else case some_chain cnt he des of (des, ret) \<Rightarrow> Some (i, 0, k, des, ret) })"

fun some_loop ::
  "(nat \<Rightarrow> nat) \<Rightarrow> ('k, 'v) dict \<Rightarrow> nat \<Rightarrow> nat \<Rightarrow> u64 \<Rightarrow> nat \<Rightarrow>
   u64 \<times> nat \<times> nat \<times> ('k, 'v) dictEntry list \<times> bool \<Rightarrow> ('k, 'v) dictEntry list option" where
  "some_loop rnd d cnt tables maxsizemask 0 (i, emptylen, k, des, ret) = Some des"
| "some_loop rnd d cnt tables maxsizemask (Suc maxsteps) (i, emptylen, k, des, ret) =
     (if length des < cnt then do {
        st \<leftarrow> some_table rnd d cnt tables maxsizemask 0 (i, emptylen, k, des, ret);
        st \<leftarrow> (if tables = 2 then some_table rnd d cnt tables maxsizemask 1 st else Some st);
        case st of (i, emptylen, k, des, ret) \<Rightarrow>
          if ret then Some des
          else some_loop rnd d cnt tables maxsizemask maxsteps ((i + 1) AND maxsizemask, emptylen, k, des, False) }
      else Some des)"

fun some_rehash :: "('k, 'v) dictType \<Rightarrow> nat \<Rightarrow> ('k, 'v) dict \<Rightarrow> ('k, 'v) dict option" where
  "some_rehash ty 0 d = Some d"
| "some_rehash ty (Suc n) d =
     (if dictIsRehashing d then do { d \<leftarrow> dictRehashStep_priv ty d; some_rehash ty n d } else Some d)"

definition dictGetSomeKeys ::
  "('k, 'v) dictType \<Rightarrow> (nat \<Rightarrow> nat) \<Rightarrow> ('k, 'v) dict \<Rightarrow> u32 \<Rightarrow>
   (('k, 'v) dict \<times> ('k, 'v) dictEntry list) option" where
  "dictGetSomeKeys ty rnd d cnt = do {
     let cnt = (if dictSize d < unat cnt then of_nat (dictSize d) else cnt);
     let maxsteps = unat (cnt * 10);
     d \<leftarrow> some_rehash ty (unat cnt) d;
     let tables = (if dictIsRehashing d then 2 else 1);
     let maxsizemask = ht_sizemask (ht0 d);
     let maxsizemask = (if tables > (1 :: nat) \<and> maxsizemask < ht_sizemask (ht1 d)
                        then ht_sizemask (ht1 d) else maxsizemask);
     des \<leftarrow> some_loop rnd d (unat cnt) tables maxsizemask maxsteps (of_nat (rnd 0) AND maxsizemask, 0, 1, [], False);
     Some (d, des) }"

text \<open>The entry whose key is the given pointer; its hash is given, and no comparison function is called.\<close>

fun chain_find_ptr :: "'k \<Rightarrow> ('k, 'v) dictEntry list \<Rightarrow> nat option" where
  "chain_find_ptr oldptr [] = None"
| "chain_find_ptr oldptr (he # c) =
     (if oldptr = ekey he then Some 0 else map_option Suc (chain_find_ptr oldptr c))"

definition dictFindEntryRefByPtrAndHash ::
  "('k, 'v) dict \<Rightarrow> 'k \<Rightarrow> u64 \<Rightarrow> eref option option" where
  "dictFindEntryRefByPtrAndHash d oldptr hash =
     (if ht_used (ht0 d) + ht_used (ht1 d) = 0 then Some None
      else do {
        let idx = unat (hash AND ht_sizemask (ht0 d));
        c \<leftarrow> chain_at (ht0 d) idx;
        case chain_find_ptr oldptr c of Some pos \<Rightarrow> Some (Some (0, idx, pos))
        | None \<Rightarrow>
            if \<not> dictIsRehashing d then Some None
            else do {
              let idx = unat (hash AND ht_sizemask (ht1 d));
              c \<leftarrow> chain_at (ht1 d) idx;
              Some (map_option (\<lambda>pos. (1, idx, pos)) (chain_find_ptr oldptr c)) } })"

subsection \<open>Iteration\<close>

definition ht_chains :: "('k, 'v) dictht \<Rightarrow> ('k, 'v) dictEntry list list" where
  "ht_chains ht = (case ht_table ht of None \<Rightarrow> [] | Some t \<Rightarrow> t)"

text \<open>What an iterator has yet to return.\<close>

definition it_rest :: "('k, 'v) dict \<Rightarrow> ('k, 'v) dictIterator \<Rightarrow> ('k, 'v) dictEntry list" where
  "it_rest d it = (if it_entry it = [] then [] else it_nextEntry it) @
     concat (drop (nat (it_index it + 1)) (ht_chains (get_ht d (it_table it)))) @
     (if it_table it = 0 \<and> dictIsRehashing d then ht_entries (ht1 d) else [])"

definition it_inv :: "('k, 'v) dict \<Rightarrow> ('k, 'v) dictIterator \<Rightarrow> bool" where
  "it_inv d it \<longleftrightarrow> -1 \<le> it_index it \<and> (it_entry it \<noteq> [] \<longrightarrow> 0 \<le> it_index it) \<and>
     it_table it \<le> 1 \<and> (it_table it = 1 \<longrightarrow> dictIsRehashing d \<and> 0 \<le> it_index it)"

definition it_first :: "('k, 'v) dictIterator \<Rightarrow> bool" where
  "it_first it \<longleftrightarrow> it_index it = -1 \<and> it_table it = 0"

definition it_bump :: "('k, 'v) dictIterator \<Rightarrow> ('k, 'v) dict \<Rightarrow> ('k, 'v) dict" where
  "it_bump it d = (if it_first it \<and> it_safe it then d\<lparr>iterators := iterators d + 1\<rparr> else d)"

definition it_fp :: "u64 \<times> u64 \<Rightarrow> ('k, 'v) dict \<Rightarrow> ('k, 'v) dictIterator \<Rightarrow> u64" where
  "it_fp addr d it = (if it_first it \<and> \<not> it_safe it then dictFingerprint addr d else it_fingerprint it)"

lemma it_bump_simps [simp]:
  "ht0 (it_bump it d) = ht0 d" "ht1 (it_bump it d) = ht1 d" "get_ht (it_bump it d) t = get_ht d t"
  "rehashidx (it_bump it d) = rehashidx d" "dictIsRehashing (it_bump it d) = dictIsRehashing d"
  "dict_wf ty (it_bump it d) = dict_wf ty d" "dict_entries (it_bump it d) = dict_entries d"
  "it_rest (it_bump it d) it' = it_rest d it'" "dictFingerprint addr (it_bump it d) = dictFingerprint addr d"
  "it_inv (it_bump it d) it' = it_inv d it'"
  by (simp_all add: it_bump_def get_ht_def dictIsRehashing_def dict_wf_def dict_entries_def it_rest_def
      dictFingerprint_def it_inv_def)

lemma it_not_first:
  "\<not> it_first it \<Longrightarrow> it_bump it d = d" "\<not> it_first it \<Longrightarrow> it_fp addr d it = it_fingerprint it"
  by (simp_all add: it_bump_def it_fp_def)

lemma ht_chains_wf:
  assumes "ht_wf ty ht"
  shows "length (ht_chains ht) = ht_size ht" "concat (ht_chains ht) = ht_entries ht"
    "i < ht_size ht \<Longrightarrow> chain_at ht i = Some (ht_chains ht ! i)"
  using assms
  by (auto simp: ht_wf_def ht_chains_def ht_entries_def chain_at_def peek_def split: option.splits)

text \<open>
  One step over the end of a chain: the next bucket is entered, of the second table if the
  first one is exhausted, or the iteration is over.
\<close>

lemma next_bucket_correct:
  assumes wf: "dict_wf ty d" and inv: "it_inv d it" and e: "it_entry it = []"
  obtains (stop) it' where "next_bucket addr d it = Some (it_bump it d, it', True)" "it_rest d it = []"
      "it_inv d it'" "\<not> it_first it'" "it_safe it' = it_safe it" "it_fingerprint it' = it_fp addr d it"
  | (go) it' where "next_bucket addr d it = Some (it_bump it d, it', False)"
      "it_rest d it = it_entry it' @ it_rest d (it'\<lparr>it_entry := []\<rparr>)"
      "it_inv d it'" "\<not> it_first it'" "it_safe it' = it_safe it" "it_fingerprint it' = it_fp addr d it"
      "(it_table it, ht_size (get_ht d (it_table it)) - nat (it_index it + 1), it_table it',
        ht_size (get_ht d (it_table it')) - nat (it_index it' + 1)) \<in>
        {(a, x, b, y). a < b \<or> a = b \<and> y < x}"
proof -
  let ?t = "it_table it" and ?i = "it_index it + 1"
  let ?ht = "get_ht d ?t"
  let ?it = "it\<lparr>it_fingerprint := it_fp addr d it, it_index := ?i\<rparr>"
  have w: "ht_wf ty ?ht" "ht_wf ty (ht1 d)" using wf by (auto simp: dict_wf_def get_ht_def)
  have i0: "0 \<le> ?i" "nat (?i + 1) = Suc (nat ?i)" using inv by (auto simp: it_inv_def)
  have bump: "(if it_first it \<and> it_safe it then d\<lparr>iterators := iterators d + 1\<rparr> else d) = it_bump it d"
    by (simp add: it_bump_def)
  have fp: "(if it_first it \<and> \<not> it_safe it then it\<lparr>it_fingerprint := dictFingerprint addr (it_bump it d)\<rparr> else it) =
      it\<lparr>it_fingerprint := it_fp addr d it\<rparr>"
    by (cases it) (auto simp: it_fp_def)
  have nb: "next_bucket addr d it =
     (if ?i \<ge> int (ht_size ?ht) then
        if dictIsRehashing d \<and> ?t = 0 then do {
          c \<leftarrow> chain_at (ht1 d) 0;
          Some (it_bump it d, ?it\<lparr>it_table := 1, it_index := 0, it_entry := c\<rparr>, False) }
        else Some (it_bump it d, ?it, True)
      else do {
        c \<leftarrow> chain_at ?ht (nat ?i);
        Some (it_bump it d, ?it\<lparr>it_entry := c\<rparr>, False) })"
    unfolding next_bucket_def it_first_def [symmetric] Let_def bump fp by simp
  consider (a) "?i \<ge> int (ht_size ?ht)" "dictIsRehashing d \<and> ?t = 0"
    | (b) "?i \<ge> int (ht_size ?ht)" "\<not> (dictIsRehashing d \<and> ?t = 0)"
    | (c) "?i < int (ht_size ?ht)" by linarith
  then show ?thesis
  proof cases
    case a
    have d0: "drop (nat ?i) (ht_chains ?ht) = []" using a(1) i0 ht_chains_wf(1) [OF w(1)] by simp
    have "ht_table (ht1 d) \<noteq> None" using a(2) wf by (simp add: dict_wf_def)
    then have sz: "0 < ht_size (ht1 d)" using w(2) by (auto simp: ht_wf_def)
    then obtain c cs where c: "ht_chains (ht1 d) = c # cs" "chain_at (ht1 d) 0 = Some c"
      using ht_chains_wf [OF w(2)] by (cases "ht_chains (ht1 d)") auto
    show ?thesis
      using a d0 c e ht_chains_wf(2) [OF w(2)] inv
      by (intro that(2) [of "?it\<lparr>it_table := 1, it_index := 0, it_entry := c\<rparr>"])
        (simp_all add: nb it_rest_def it_inv_def it_first_def)
  next
    case b
    then show ?thesis
      using e i0 inv ht_chains_wf(1) [OF w(1)]
      by (intro that(1) [of ?it]) (auto simp: nb it_rest_def it_inv_def it_first_def)
  next
    case c
    then have lt: "nat ?i < ht_size ?ht" using i0 by linarith
    then have "drop (nat ?i) (ht_chains ?ht) = ht_chains ?ht ! nat ?i # drop (Suc (nat ?i)) (ht_chains ?ht)"
      using ht_chains_wf(1) [OF w(1)] by (simp add: Cons_nth_drop_Suc)
    then show ?thesis
      using c lt e i0 inv ht_chains_wf(3) [OF w(1) lt]
      by (intro that(2) [of "?it\<lparr>it_entry := ht_chains ?ht ! nat ?i\<rparr>"])
        (auto simp: nb it_rest_def it_inv_def it_first_def)
  qed
qed

definition it_measure :: "('k, 'v) dict \<Rightarrow> ('k, 'v) dictIterator \<Rightarrow> nat" where
  "it_measure d it =
     ((if it_table it = 0 then ht_size (ht1 d) + 1 else 0) +
      (ht_size (get_ht d (it_table it)) - nat (it_index it + 1))) * 2 + (if it_entry it = [] then 0 else 1)"

lemma dictNext_correct:
  assumes "dict_wf ty d" "it_inv d it"
  shows "\<exists>it'. dictNext addr d it =
      Some (it_bump it d, it', case it_rest d it of [] \<Rightarrow> None | e # _ \<Rightarrow> Some e) \<and>
    it_inv d it' \<and> \<not> it_first it' \<and> it_safe it' = it_safe it \<and> it_fingerprint it' = it_fp addr d it \<and>
    (it_rest d it \<noteq> [] \<longrightarrow> it_rest d it' = tl (it_rest d it))"
  using assms
proof (induction "it_measure d it" arbitrary: d it rule: less_induct)
  case less
  show ?case
  proof (cases "it_entry it = []")
    case True
    with less.prems show ?thesis
    proof (cases rule: next_bucket_correct [where addr = addr])
      case (stop it')
      then show ?thesis using True by (subst dictNext.simps) simp
    next
      case (go it')
      show ?thesis
      proof (cases "it_entry it' = []")
        case e: True
        have it': "it'\<lparr>it_entry := []\<rparr> = it'" using e by (cases it') simp
        have "it_table it' \<le> 1" using go(3) by (simp add: it_inv_def)
        then have "it_measure (it_bump it d) it' < it_measure d it"
          using go(7) True e by (auto simp: it_measure_def get_ht_def split: if_splits)
        from less.hyps [OF this] obtain it'' where
          "dictNext addr (it_bump it d) it' = Some (it_bump it d, it'', case it_rest d it' of [] \<Rightarrow> None | e # _ \<Rightarrow> Some e)"
          "it_inv d it''" "\<not> it_first it''" "it_safe it'' = it_safe it'" "it_fingerprint it'' = it_fingerprint it'"
          "it_rest d it' \<noteq> [] \<longrightarrow> it_rest d it'' = tl (it_rest d it')"
          using less.prems(1) go(3) it_not_first [OF go(4)] by auto
        then show ?thesis
          using go it' e True by (subst dictNext.simps) simp
      next
        case False
        then obtain x xs where x: "it_entry it' = x # xs" by (cases "it_entry it'") auto
        have "it_rest d it = x # xs @ it_rest d (it'\<lparr>it_entry := []\<rparr>)" using go(2) x by simp
        moreover have "it_rest d (it'\<lparr>it_nextEntry := xs\<rparr>) = xs @ it_rest d (it'\<lparr>it_entry := []\<rparr>)"
          using x by (simp add: it_rest_def)
        ultimately show ?thesis using go(1,3-6) True x
          by (subst dictNext.simps) (auto simp: it_inv_def it_first_def)
      qed
    qed
  next
    case False
    let ?it = "it\<lparr>it_entry := it_nextEntry it\<rparr>"
    have nf: "\<not> it_first it" "\<not> it_first ?it" using False less.prems(2) by (auto simp: it_inv_def it_first_def)
    then have b: "it_bump it d = d" "it_bump ?it d = d" "it_fp addr d it = it_fingerprint it"
        "it_fp addr d ?it = it_fingerprint it" by (simp_all add: it_not_first)
    show ?thesis
    proof (cases "it_nextEntry it")
      case Nil
      have "it_measure d ?it < it_measure d it" using False Nil by (simp add: it_measure_def)
      moreover have "it_inv d ?it" using less.prems(2) Nil by (auto simp: it_inv_def)
      moreover have "it_rest d ?it = it_rest d it" using Nil False by (simp add: it_rest_def)
      ultimately show ?thesis
        using less.hyps [of d ?it] less.prems(1) False Nil b by (subst dictNext.simps) simp
    next
      case (Cons x xs)
      have "it_rest d it = x # xs @ it_rest d (it\<lparr>it_entry := []\<rparr>)" using Cons False by (simp add: it_rest_def)
      moreover have "it_rest d (?it\<lparr>it_nextEntry := xs\<rparr>) = xs @ it_rest d (it\<lparr>it_entry := []\<rparr>)"
        using Cons by (simp add: it_rest_def)
      ultimately show ?thesis
        using False Cons b nf less.prems(2) by (subst dictNext.simps) (auto simp: it_inv_def it_first_def)
    qed
  qed
qed

lemma iterate_correct:
  assumes "dict_wf ty d" "it_inv d it"
  shows "\<exists>it'. iterate (Suc (length (it_rest d it))) addr d it = Some (it_bump it d, it', map Some (it_rest d it) @ [None]) \<and>
    \<not> it_first it' \<and> it_safe it' = it_safe it \<and> it_fingerprint it' = it_fp addr d it"
  using assms
proof (induction "it_rest d it" arbitrary: d it)
  case Nil
  then show ?case using dictNext_correct [OF Nil.prems, of addr] by auto
next
  case (Cons e es)
  have c: "it_rest d it = e # es" using Cons.hyps(2) by simp
  obtain it1 where n: "dictNext addr d it = Some (it_bump it d, it1, Some e)" "it_inv d it1" "\<not> it_first it1"
      "it_safe it1 = it_safe it" "it_fingerprint it1 = it_fp addr d it" "it_rest d it1 = es"
    using dictNext_correct [OF Cons.prems, of addr] c by auto
  have "es = it_rest (it_bump it d) it1" using n(6) by simp
  from Cons.hyps(1) [OF this] obtain it2 where
    i: "iterate (Suc (length es)) addr (it_bump it d) it1 =
        Some (it_bump it1 (it_bump it d), it2, map Some es @ [None])"
      "\<not> it_first it2" "it_safe it2 = it_safe it1" "it_fingerprint it2 = it_fp addr (it_bump it d) it1"
    using Cons.prems(1) n(2,6) by auto
  have "it_bump it1 (it_bump it d) = it_bump it d" "it_fp addr (it_bump it d) it1 = it_fingerprint it1"
    using n(3) by (simp_all add: it_not_first)
  then have "iterate (Suc (length (e # es))) addr d it = Some (it_bump it d, it2, map Some (e # es) @ [None])"
    using n(1) i(1) by (subst iterate.simps(2)) (simp del: iterate.simps)
  then show ?case unfolding c using n i it_not_first(2) [OF n(3)] by auto
qed

subsection \<open>Sampling\<close>

text \<open>
  The values of \<open>random()\<close> are between 0 and \<open>2 ^ 31 - 1\<close>. A sequence is fair if each of these values keeps coming.
\<close>

definition fair :: "(nat \<Rightarrow> nat) \<Rightarrow> bool" where
  "fair rnd \<longleftrightarrow> (\<forall>k. rnd k < 2 ^ 31) \<and> (\<forall>v < 2 ^ 31. \<forall>k. \<exists>k' \<ge> k. rnd k' = v)"

lemma fair_mod: "fair rnd \<Longrightarrow> r < m \<Longrightarrow> m \<le> 2 ^ 31 \<Longrightarrow> \<exists>k. rnd k mod m = r"
  unfolding fair_def by (metis less_le_trans mod_less)

lemma random_loop:
  fixes k :: nat
  assumes f: "\<And>k. f k = do { he \<leftarrow> look k; if he = [] then f (k + 1) else Some (he, k + 1) }"
    and look: "\<And>k. look k \<noteq> None" and hit: "look k' \<noteq> Some []" "k \<le> k'"
  shows "\<exists>he j. f k = Some (he, j) \<and> he \<noteq> [] \<and> (\<exists>i. look i = Some he)"
  using hit(2)
proof (induction "k' - k" arbitrary: k)
  case 0
  then have "k = k'" by simp
  then show ?case using look [of k'] hit(1) f [of k'] by auto
next
  case (Suc n)
  then show ?case using look [of k] f [of k] Suc.hyps(1) [of "k + 1"] by (cases "look k = Some []") auto
qed

lemma wf_chain_at:
  "ht_wf ty ht \<Longrightarrow> i < ht_size ht \<Longrightarrow> chain_at ht i \<noteq> None"
  by (auto simp: ht_wf_def chain_at_def peek_def split: option.splits)

lemma nonempty_chain:
  assumes "ht_wf ty ht" "ht_entries ht \<noteq> []"
  obtains j c where "j < ht_size ht" "chain_at ht j = Some c" "c \<noteq> []"
proof -
  obtain e where e: "e \<in> set (ht_entries ht)" using assms(2) by (cases "ht_entries ht") auto
  then obtain c where c: "chain_at ht (slot ty ht (ekey e)) = Some c" "e \<in> set c" using assms(1) by (auto elim: entry_chain)
  moreover have "slot ty ht (ekey e) < ht_size ht"
    using assms(1) c(1) by (auto simp: ht_wf_def chain_at_def peek_def split: option.splits if_splits)
  ultimately show ?thesis by (intro that [of "slot ty ht (ekey e)" c]) auto
qed

lemma random_bucket_correct:
  assumes wf: "dict_wf ty d" and re: "\<not> dictIsRehashing d" and ne: "dict_entries d \<noteq> []" and fair: "fair rnd"
    and slots: "dictSlots d \<le> 2 ^ 31"
  obtains he k where "random_bucket rnd d 0 = Some (he, k)" "he \<noteq> []" "set he \<subseteq> set (dict_entries d)"
proof -
  let ?look = "\<lambda>k. chain_at (ht0 d) (unat ((of_nat (rnd k) :: u64) AND ht_sizemask (ht0 d)))"
  have w: "ht_wf ty (ht0 d)" "dict_entries d = ht_entries (ht0 d)"
    using wf re by (simp_all add: dict_wf_def dict_entries_def)
  obtain j c where j: "j < ht_size (ht0 d)" "chain_at (ht0 d) j = Some c" "c \<noteq> []"
    using nonempty_chain [OF w(1)] ne w(2) by auto
  then have "ht_table (ht0 d) \<noteq> None" by (cases "ht_table (ht0 d)") (simp_all add: chain_at_def)
  then obtain n where n: "n \<le> 60" "ht_size (ht0 d) = 2 ^ n" "ht_sizemask (ht0 d) = of_nat (2 ^ n) - 1"
    using w(1) by (auto simp: ht_wf_def)
  have idx: "unat ((of_nat (rnd k) :: u64) AND ht_sizemask (ht0 d)) = rnd k mod 2 ^ n" for k
  proof -
    have "(2::nat) ^ n dvd 2 ^ 64" using n(1) by (intro le_imp_power_dvd) simp
    then have "rnd k mod 2 ^ 64 mod 2 ^ n = rnd k mod 2 ^ n" by (rule mod_mod_cancel)
    then show ?thesis unfolding n(3) unat_and_mask [OF n(1)] by (simp add: unat_of_nat)
  qed
  have "2 ^ n \<le> (2 :: nat) ^ 31" using slots n(2) by (simp add: dictSlots_def)
  then obtain k' where "rnd k' mod 2 ^ n = j" using fair_mod [OF fair] j(1) n(2) by metis
  then have hit: "?look k' \<noteq> Some []" using j by (simp add: idx)
  have look: "?look k \<noteq> None" for k using wf_chain_at [OF w(1)] n(2) by (simp add: idx)
  have f: "random_bucket rnd d k =
      do { he \<leftarrow> ?look k; if he = [] then random_bucket rnd d (k + 1) else Some (he, k + 1) }" for k
    by (subst random_bucket.simps) (simp add: Let_def)
  obtain he k i where "random_bucket rnd d 0 = Some (he, k)" "he \<noteq> []" "?look i = Some he"
    using random_loop [of "random_bucket rnd d" ?look k' 0, OF f look hit] by blast
  then show ?thesis using chain_entries [of "ht0 d" _ he] w(2) by (intro that) auto
qed

lemma random_bucket_rehashing_correct:
  assumes wf: "dict_wf ty d" and re: "dictIsRehashing d" and ne: "dict_entries d \<noteq> []" and fair: "fair rnd"
    and slots: "dictSlots d \<le> 2 ^ 31"
  obtains he k where "random_bucket_rehashing rnd d 0 = Some (he, k)" "he \<noteq> []" "set he \<subseteq> set (dict_entries d)"
proof -
  let ?s0 = "ht_size (ht0 d)" and ?s1 = "ht_size (ht1 d)" and ?idx = "nat (rehashidx d)"
  let ?at = "\<lambda>h. if h \<ge> ?s0 then chain_at (ht1 d) (h - ?s0) else chain_at (ht0 d) h"
  let ?look = "\<lambda>k. ?at (?idx + rnd k mod (?s0 + ?s1 - ?idx))"
  have w: "ht_wf ty (ht0 d)" "ht_wf ty (ht1 d)" "?idx \<le> ?s0" "\<forall>i < ?idx. chain_at (ht0 d) i = Some []"
    using wf re by (auto simp: dict_wf_def)
  have at: "?at h \<noteq> None" if "h < ?s0 + ?s1" for h
    using that wf_chain_at [OF w(1), of h] wf_chain_at [OF w(2), of "h - ?s0"] by auto
  obtain h c where h: "?idx \<le> h" "h < ?s0 + ?s1" "?at h = Some c" "c \<noteq> []"
  proof (cases "ht_entries (ht0 d) = []")
    case True
    then have "ht_entries (ht1 d) \<noteq> []" using ne by (simp add: dict_entries_def)
    then obtain j c where "j < ?s1" "chain_at (ht1 d) j = Some c" "c \<noteq> []"
      using nonempty_chain [OF w(2)] by metis
    then show ?thesis using w(3) by (intro that [of "?s0 + j" c]) simp_all
  next
    case False
    then obtain j c where j: "j < ?s0" "chain_at (ht0 d) j = Some c" "c \<noteq> []"
      using nonempty_chain [OF w(1)] by metis
    then have "?idx \<le> j" using w(4) by (auto simp: not_less [symmetric])
    then show ?thesis using j by (intro that [of j c]) simp_all
  qed
  have "h - ?idx < ?s0 + ?s1 - ?idx" "?s0 + ?s1 - ?idx \<le> 2 ^ 31" using h(1,2) slots by (simp_all add: dictSlots_def)
  then obtain k' where "rnd k' mod (?s0 + ?s1 - ?idx) = h - ?idx" using fair_mod [OF fair] by metis
  then have "?idx + rnd k' mod (?s0 + ?s1 - ?idx) = h" using h(1) by simp
  then have "?look k' = Some c" using h(3) by (simp only:)
  then have hit: "?look k' \<noteq> Some []" using h(4) by simp
  have pos: "0 < ?s0 + ?s1 - ?idx" using h(1,2) by linarith
  have "?idx + r mod (?s0 + ?s1 - ?idx) < ?s0 + ?s1" for r
    using mod_less_divisor [OF pos, of r] by linarith
  then have look: "?look k \<noteq> None" for k using at by blast
  have f: "random_bucket_rehashing rnd d k =
      do { he \<leftarrow> ?look k; if he = [] then random_bucket_rehashing rnd d (k + 1) else Some (he, k + 1) }" for k
    by (subst random_bucket_rehashing.simps) (simp add: Let_def)
  obtain he k i where "random_bucket_rehashing rnd d 0 = Some (he, k)" "he \<noteq> []" "?look i = Some he"
    using random_loop [of "random_bucket_rehashing rnd d" ?look k' 0, OF f look hit] by blast
  then show ?thesis
    using chain_entries [of "ht0 d" _ he] chain_entries [of "ht1 d" _ he]
    by (intro that) (auto simp: dict_entries_def split: if_splits)
qed

lemma dict_step_slots:
  assumes wf: "dict_wf ty d" and step: "(if dictIsRehashing d then dictRehashStep_priv ty d else Some d) = Some d1"
  shows "dictSlots d1 \<le> dictSlots d"
proof (cases "dictIsRehashing d \<and> iterators d = 0")
  case True
  then obtain d' early where l: "rehash_loop ty 1 10 d = Some (d', early)"
      "ht_size (ht0 d') = ht_size (ht0 d)" "ht_size (ht1 d') = ht_size (ht1 d)"
    using rehash_loop_correct [OF wf, of 1 10] by blast
  then show ?thesis using True step
    by (auto simp: dictRehashStep_priv_def dictRehash_def dictSlots_def dictReset_priv_def split: if_splits)
next
  case False
  then show ?thesis using step by (auto simp: dictRehashStep_priv_def split: if_splits)
qed

lemma dictGetRandomKey_correct:
  assumes wf: "dict_wf ty d" and ne: "dictSize d \<noteq> 0" and fair: "fair rnd" and slots: "dictSlots d \<le> 2 ^ 31"
  shows "\<exists>d' e. dictGetRandomKey ty rnd d = Some (d', Some e) \<and> e \<in> set (dict_entries d) \<and> dict_wf ty d' \<and>
    mset (dict_entries d') = mset (dict_entries d)"
proof -
  obtain d1 where d1: "(if dictIsRehashing d then dictRehashStep_priv ty d else Some d) = Some d1"
      "dict_wf ty d1" "mset (dict_entries d1) = mset (dict_entries d)"
    using dict_step [OF wf] by metis
  have slots1: "dictSlots d1 \<le> 2 ^ 31" using dict_step_slots [OF wf d1(1)] slots by linarith
  have set_eq: "set (dict_entries d1) = set (dict_entries d)" using d1(3) by (metis set_mset_mset)
  have "dict_entries d \<noteq> []" using dictSize_entries [OF wf] ne by auto
  then have ne1: "dict_entries d1 \<noteq> []" using set_eq by auto
  obtain he k where he: "(if dictIsRehashing d1 then random_bucket_rehashing rnd d1 0 else random_bucket rnd d1 0) = Some (he, k)"
      "he \<noteq> []" "set he \<subseteq> set (dict_entries d1)"
  proof (cases "dictIsRehashing d1")
    case True
    with random_bucket_rehashing_correct [OF d1(2) True ne1 fair slots1] that show ?thesis by auto
  next
    case False
    with random_bucket_correct [OF d1(2) False ne1 fair slots1] that show ?thesis by auto
  qed
  have lt: "rnd k mod length he < length he" using he(2) by simp
  then have "dictGetRandomKey ty rnd d = Some (d1, Some (he ! (rnd k mod length he)))"
    using ne d1(1) he(1) by (simp add: dictGetRandomKey_def peek_def)
  then show ?thesis using d1(2,3) he(3) nth_mem [OF lt] set_eq by blast
qed

lemma some_chain_correct:
  assumes "some_chain cnt c des = (des', ret)" "length des < cnt" "set des \<subseteq> E" "set c \<subseteq> E"
  shows "set des' \<subseteq> E \<and> length des' \<le> cnt \<and> (\<not> ret \<longrightarrow> length des' < cnt)"
  using assms by (induction c arbitrary: des) (auto simp: Let_def split: if_splits)

definition some_inv :: "nat \<Rightarrow> ('k, 'v) dictEntry set \<Rightarrow> u64 \<times> nat \<times> nat \<times> ('k, 'v) dictEntry list \<times> bool \<Rightarrow> bool" where
  "some_inv cnt E st \<longleftrightarrow> (case st of (i, emptylen, k, des, ret) \<Rightarrow>
     set des \<subseteq> E \<and> length des \<le> cnt \<and> (\<not> ret \<longrightarrow> length des < cnt))"

lemma some_table_correct:
  assumes wf: "dict_wf ty d" and inv: "some_inv cnt (set (dict_entries d)) st"
  shows "\<exists>st'. some_table rnd d cnt tables m j st = Some st' \<and> some_inv cnt (set (dict_entries d)) st'"
proof -
  obtain i emptylen k des ret where st: "st = (i, emptylen, k, des, ret)" by (cases st) auto
  have w: "ht_wf ty (get_ht d j)" using wf by (simp add: dict_wf_def get_ht_def)
  show ?thesis
  proof (cases "ret \<or> (tables = 2 \<and> j = 0 \<and> int (unat i) < rehashidx d) \<or> unat i \<ge> ht_size (get_ht d j)")
    case True
    then show ?thesis using inv st by (auto simp: some_table_def some_inv_def)
  next
    case False
    then obtain he where he: "chain_at (get_ht d j) (unat i) = Some he" using wf_chain_at [OF w, of "unat i"] by auto
    have "set he \<subseteq> set (dict_entries d)"
      using chain_in_entries [OF he] set_mset_mono by fastforce
    then show ?thesis
      using False he inv st some_chain_correct [of cnt he des _ _ "set (dict_entries d)"]
      by (cases "some_chain cnt he des") (auto simp: some_table_def some_inv_def)
  qed
qed

lemma some_loop_correct:
  assumes wf: "dict_wf ty d"
  shows "some_inv cnt (set (dict_entries d)) st \<Longrightarrow>
    \<exists>des. some_loop rnd d cnt tables m n st = Some des \<and> set des \<subseteq> set (dict_entries d) \<and> length des \<le> cnt"
proof (induction n arbitrary: st)
  case 0
  then show ?case by (cases st) (simp add: some_inv_def)
next
  case (Suc n)
  obtain i emptylen k des ret where st: "st = (i, emptylen, k, des, ret)" by (cases st) auto
  obtain st1 where st1: "some_table rnd d cnt tables m 0 st = Some st1" "some_inv cnt (set (dict_entries d)) st1"
    using some_table_correct [OF wf Suc.prems] by blast
  obtain st2 where st2: "(if tables = 2 then some_table rnd d cnt tables m 1 st1 else Some st1) = Some st2"
      "some_inv cnt (set (dict_entries d)) st2"
    using some_table_correct [OF wf st1(2), of rnd tables m 1] st1(2) by (cases "tables = 2") auto
  obtain i2 e2 k2 des2 ret2 where st2': "st2 = (i2, e2, k2, des2, ret2)" by (cases st2) auto
  have "some_inv cnt (set (dict_entries d)) ((i2 + 1) AND m, e2, k2, des2, False)" if "\<not> ret2"
    using st2(2) st2' that by (simp add: some_inv_def)
  then show ?case
    using Suc.prems Suc.IH st1(1) st2 st2' unfolding st
    by (cases "length des < cnt"; cases ret2) (auto simp: some_inv_def)
qed

lemma some_rehash_correct:
  assumes "dict_wf ty d"
  shows "\<exists>d'. some_rehash ty n d = Some d' \<and> dict_wf ty d' \<and> mset (dict_entries d') = mset (dict_entries d)"
  using assms
proof (induction n arbitrary: d)
  case (Suc n)
  obtain d1 where "(if dictIsRehashing d then dictRehashStep_priv ty d else Some d) = Some d1"
      "dict_wf ty d1" "mset (dict_entries d1) = mset (dict_entries d)"
    using dict_step [OF Suc.prems] by metis
  then show ?case using Suc.IH [of d1] Suc.prems by auto
qed simp

subsection \<open>Properties\<close>

text \<open>
  C13: calling \<open>dictNext\<close> on a fresh iterator until it returns \<open>NULL\<close> yields every entry
  of the dictionary exactly once, those of both tables during a rehashing; releasing
  the iterator then never fails its assertion and leaves the dictionary as it was.
\<close>

theorem iteration_exhaustive:
  assumes "dict_wf ty d" "it = dictGetIterator junk \<or> it = dictGetSafeIterator junk"
  shows "\<exists>d' it'. iterate (Suc (length (dict_entries d))) addr d it = Some (d', it', map Some (dict_entries d) @ [None]) \<and>
    dictReleaseIterator addr d' it' = Some d"
proof -
  have inv: "it_inv d it" "it_first it" using assms(2)
    by (auto simp: it_inv_def it_first_def dictGetIterator_def dictGetSafeIterator_def)
  have "concat (ht_chains (ht0 d)) = ht_entries (ht0 d)"
    using assms(1) ht_chains_wf(2) by (auto simp: dict_wf_def)
  moreover have "\<not> dictIsRehashing d \<Longrightarrow> ht_entries (ht1 d) = []" using assms(1) by (simp add: dict_wf_def)
  ultimately have rest: "it_rest d it = dict_entries d" using assms(2)
    by (auto simp: it_rest_def dict_entries_def dictGetIterator_def dictGetSafeIterator_def)
  obtain it' where it': "iterate (Suc (length (dict_entries d))) addr d it =
      Some (it_bump it d, it', map Some (dict_entries d) @ [None])"
    "\<not> it_first it'" "it_safe it' = it_safe it" "it_fingerprint it' = it_fp addr d it"
    using iterate_correct [OF assms(1) inv(1), of addr] rest by auto
  have "dictReleaseIterator addr (it_bump it d) it' = Some d"
    using it'(2-4) inv(2)
    by (simp add: dictReleaseIterator_def it_first_def [symmetric] it_fp_def it_bump_def)
  then show ?thesis using it'(1) by blast
qed

theorem iteration_exhaustive_witness:
  "\<exists>d' it'. iterate (Suc (length (dict_entries demo_dict))) (1, 2) demo_dict (dictGetIterator 0) =
      Some (d', it', map Some (dict_entries demo_dict) @ [None]) \<and>
    dictReleaseIterator (1, 2) d' it' = Some demo_dict"
  by (rule iteration_exhaustive [OF demo_wf, where junk = 0]) simp

lemma some_loop_start:
  assumes "dict_wf ty d"
  shows "\<exists>des. some_loop rnd d n tables m steps (i, 0, 1, [], False) = Some des \<and>
    set des \<subseteq> set (dict_entries d) \<and> length des \<le> n"
proof (cases "n = 0")
  case True
  then show ?thesis by (cases steps) simp_all
next
  case False
  then show ?thesis by (intro some_loop_correct [OF assms]) (simp add: some_inv_def)
qed

text \<open>
  C14: on a non-empty dictionary of at most \<open>2 ^ 31\<close> buckets, which \<open>random()\<close> can reach, \<open>dictGetRandomKey\<close> stays inside the tables and, if
  \<open>random()\<close> keeps producing each of its values, ends its search and returns an entry of
  the dictionary; \<open>dictGetSomeKeys\<close> always ends, whatever the random numbers are, and returns at most as many entries as
  asked for, all of them from the dictionary.
\<close>

theorem sampling_correct:
  assumes "dict_wf ty d"
  shows "(dictSize d \<noteq> 0 \<and> dictSlots d \<le> 2 ^ 31 \<and> fair rnd \<longrightarrow>
      (\<exists>d' e. dictGetRandomKey ty rnd d = Some (d', Some e) \<and> e \<in> set (dict_entries d) \<and> dict_wf ty d' \<and>
        mset (dict_entries d') = mset (dict_entries d))) \<and>
    (\<exists>d' des. dictGetSomeKeys ty rnd' d cnt = Some (d', des) \<and> length des \<le> min (unat cnt) (dictSize d) \<and>
      set des \<subseteq> set (dict_entries d) \<and> dict_wf ty d' \<and> mset (dict_entries d') = mset (dict_entries d))"
proof -
  define c where "c = (if dictSize d < unat cnt then of_nat (dictSize d) else cnt)"
  have "unat cnt < 2 ^ LENGTH(32)" by (rule unsigned_less)
  then have c: "unat c = min (unat cnt) (dictSize d)" by (auto simp: c_def unat_of_nat min_def)
  obtain d1 where d1: "some_rehash ty (unat c) d = Some d1" "dict_wf ty d1" "mset (dict_entries d1) = mset (dict_entries d)"
    using some_rehash_correct [OF assms] by blast
  have set_eq: "set (dict_entries d1) = set (dict_entries d)" using d1(3) by (metis set_mset_mset)
  let ?T = "if dictIsRehashing d1 then 2 else 1 :: nat"
  let ?M = "if ?T > 1 \<and> ht_sizemask (ht0 d1) < ht_sizemask (ht1 d1) then ht_sizemask (ht1 d1) else ht_sizemask (ht0 d1)"
  obtain des where des: "some_loop rnd' d1 (unat c) ?T ?M (unat (c * 10)) (of_nat (rnd' 0) AND ?M, 0, 1, [], False) = Some des"
      "set des \<subseteq> set (dict_entries d1)" "length des \<le> unat c"
    using some_loop_start [OF d1(2)] by blast
  have "dictGetSomeKeys ty rnd' d cnt = Some (d1, des)"
    unfolding dictGetSomeKeys_def c_def [symmetric] Let_def d1(1) by (simp only: Option.bind.simps des(1))
  then show ?thesis
    using dictGetRandomKey_correct [OF assms] d1(2,3) set_eq des(2,3) unfolding c by blast
qed

lemma fair_counter: "fair (\<lambda>k. k mod 2 ^ 31)"
  unfolding fair_def
proof (intro conjI allI impI)
  fix v k :: nat assume "v < 2 ^ 31"
  then have "(v + 2 ^ 31 * k) mod 2 ^ 31 = v" "k \<le> v + 2 ^ 31 * k" by (simp_all del: mult_numeral_left)
  then show "\<exists>k' \<ge> k. k' mod 2 ^ 31 = v" by blast
qed simp

theorem sampling_correct_witness:
  "(\<exists>d' e. dictGetRandomKey nat_type (\<lambda>k. k mod 2 ^ 31) demo_dict = Some (d', Some e) \<and> e \<in> set (dict_entries demo_dict)) \<and>
   (\<exists>d' des. dictGetSomeKeys nat_type (\<lambda>k. k mod 2 ^ 31) demo_dict 2 = Some (d', des) \<and> length des \<le> 2)"
proof -
  have "dictSize demo_dict \<noteq> 0" "dictSlots demo_dict \<le> 2 ^ 31" by (simp_all add: dictSize_def dictSlots_def demo_dict_def)
  with fair_counter show ?thesis
    using sampling_correct [OF demo_wf, of "\<lambda>k. k mod 2 ^ 31" "\<lambda>k. k mod 2 ^ 31" 2] by fastforce
qed

end
