(* ===== verification/Siphash.thy ===== *)
theory Siphash
  imports Redis_Prelude
begin

text \<open>
  \<open>siphash.c\<close>: the keyed hash function of the dictionaries, SipHash with one round per
  block and two final rounds, and its case-insensitive variant. The macros are those for
  a host without unaligned little-endian access; they denote the same numbers on any host.
\<close>

subsection \<open>Definitions\<close>

type_synonym sipstate = "u64 \<times> u64 \<times> u64 \<times> u64"

definition siptlw :: "u8 \<Rightarrow> u8" where
  "siptlw c = (if c \<ge> 65 \<and> c \<le> 90 then c + 32 else c)"

definition ROTL :: "u64 \<Rightarrow> nat \<Rightarrow> u64" where
  "ROTL x b = push_bit b x OR drop_bit (64 - b) x"

definition U8TO64_LE :: "bytes \<Rightarrow> u64" where
  "U8TO64_LE p =
     ucast (p ! 0) OR push_bit 8 (ucast (p ! 1)) OR push_bit 16 (ucast (p ! 2)) OR
     push_bit 24 (ucast (p ! 3)) OR push_bit 32 (ucast (p ! 4)) OR push_bit 40 (ucast (p ! 5)) OR
     push_bit 48 (ucast (p ! 6)) OR push_bit 56 (ucast (p ! 7))"

definition U8TO64_LE_NOCASE :: "bytes \<Rightarrow> u64" where
  "U8TO64_LE_NOCASE p =
     ucast (siptlw (p ! 0)) OR push_bit 8 (ucast (siptlw (p ! 1))) OR
     push_bit 16 (ucast (siptlw (p ! 2))) OR push_bit 24 (ucast (siptlw (p ! 3))) OR
     push_bit 32 (ucast (siptlw (p ! 4))) OR push_bit 40 (ucast (siptlw (p ! 5))) OR
     push_bit 48 (ucast (siptlw (p ! 6))) OR push_bit 56 (ucast (siptlw (p ! 7)))"

definition SIPROUND :: "sipstate \<Rightarrow> sipstate" where
  "SIPROUND v = (case v of (v0, v1, v2, v3) \<Rightarrow>
     let v0 = v0 + v1;
         v1 = ROTL v1 13;
         v1 = v1 XOR v0;
         v0 = ROTL v0 32;
         v2 = v2 + v3;
         v3 = ROTL v3 16;
         v3 = v3 XOR v2;
         v0 = v0 + v3;
         v3 = ROTL v3 21;
         v3 = v3 XOR v0;
         v2 = v2 + v1;
         v1 = ROTL v1 17;
         v1 = v1 XOR v2;
         v2 = ROTL v2 32
     in (v0, v1, v2, v3))"

definition sip_init :: "bytes \<Rightarrow> sipstate" where
  "sip_init k =
     (let k0 = U8TO64_LE k; k1 = U8TO64_LE (drop 8 k)
      in (0x736f6d6570736575 XOR k0, 0x646f72616e646f6d XOR k1,
          0x6c7967656e657261 XOR k0, 0x7465646279746573 XOR k1))"

text \<open>The loop over the full blocks; the result is the state and the bytes left.\<close>

function sip_blocks :: "bytes \<Rightarrow> sipstate \<Rightarrow> sipstate \<times> bytes" where
  "sip_blocks inp v =
     (if length inp < 8 then (v, inp)
      else case v of (v0, v1, v2, v3) \<Rightarrow>
        let m = U8TO64_LE inp in
        case SIPROUND (v0, v1, v2, v3 XOR m) of (v0, v1, v2, v3) \<Rightarrow>
          sip_blocks (drop 8 inp) (v0 XOR m, v1, v2, v3))"
  by pat_completeness auto
termination by (relation "measure (\<lambda>(inp, v). length inp)") auto

text \<open>The \<open>switch\<close> on the number of bytes left, which falls through from each case to the next.\<close>

definition sip_left :: "u64 \<Rightarrow> bytes \<Rightarrow> u64" where
  "sip_left b inp =
     (let left = length inp;
          b = (if left \<ge> 7 then b OR push_bit 48 (ucast (inp ! 6)) else b);
          b = (if left \<ge> 6 then b OR push_bit 40 (ucast (inp ! 5)) else b);
          b = (if left \<ge> 5 then b OR push_bit 32 (ucast (inp ! 4)) else b);
          b = (if left \<ge> 4 then b OR push_bit 24 (ucast (inp ! 3)) else b);
          b = (if left \<ge> 3 then b OR push_bit 16 (ucast (inp ! 2)) else b);
          b = (if left \<ge> 2 then b OR push_bit 8 (ucast (inp ! 1)) else b)
      in if left \<ge> 1 then b OR ucast (inp ! 0) else b)"

definition sip_final :: "sipstate \<Rightarrow> u64 \<Rightarrow> u64" where
  "sip_final v b = (case v of (v0, v1, v2, v3) \<Rightarrow>
     case SIPROUND (v0, v1, v2, v3 XOR b) of (v0, v1, v2, v3) \<Rightarrow>
       case SIPROUND (SIPROUND (v0 XOR b, v1, v2 XOR 0xff, v3)) of (v0, v1, v2, v3) \<Rightarrow>
         v0 XOR v1 XOR v2 XOR v3)"

definition siphash :: "bytes \<Rightarrow> bytes \<Rightarrow> u64" where
  "siphash inp k =
     (let b = push_bit 56 (of_nat (length inp)) in
      case sip_blocks inp (sip_init k) of (v, rest) \<Rightarrow> sip_final v (sip_left b rest))"

function sip_blocks_nocase :: "bytes \<Rightarrow> sipstate \<Rightarrow> sipstate \<times> bytes" where
  "sip_blocks_nocase inp v =
     (if length inp < 8 then (v, inp)
      else case v of (v0, v1, v2, v3) \<Rightarrow>
        let m = U8TO64_LE_NOCASE inp in
        case SIPROUND (v0, v1, v2, v3 XOR m) of (v0, v1, v2, v3) \<Rightarrow>
          sip_blocks_nocase (drop 8 inp) (v0 XOR m, v1, v2, v3))"
  by pat_completeness auto
termination by (relation "measure (\<lambda>(inp, v). length inp)") auto

definition sip_left_nocase :: "u64 \<Rightarrow> bytes \<Rightarrow> u64" where
  "sip_left_nocase b inp =
     (let left = length inp;
          b = (if left \<ge> 7 then b OR push_bit 48 (ucast (siptlw (inp ! 6))) else b);
          b = (if left \<ge> 6 then b OR push_bit 40 (ucast (siptlw (inp ! 5))) else b);
          b = (if left \<ge> 5 then b OR push_bit 32 (ucast (siptlw (inp ! 4))) else b);
          b = (if left \<ge> 4 then b OR push_bit 24 (ucast (siptlw (inp ! 3))) else b);
          b = (if left \<ge> 3 then b OR push_bit 16 (ucast (siptlw (inp ! 2))) else b);
          b = (if left \<ge> 2 then b OR push_bit 8 (ucast (siptlw (inp ! 1))) else b)
      in if left \<ge> 1 then b OR ucast (siptlw (inp ! 0)) else b)"

definition siphash_nocase :: "bytes \<Rightarrow> bytes \<Rightarrow> u64" where
  "siphash_nocase inp k =
     (let b = push_bit 56 (of_nat (length inp)) in
      case sip_blocks_nocase inp (sip_init k) of (v, rest) \<Rightarrow> sip_final v (sip_left_nocase b rest))"

declare sip_blocks.simps [simp del] sip_blocks_nocase.simps [simp del]

subsection \<open>The reference: SipHash with any number of rounds\<close>

text \<open>
  The message is padded with its length and cut into 64-bit little-endian words; each is
  absorbed with \<open>c\<close> rounds, and the hash is taken after \<open>d\<close> final rounds. Round and initial state are those
  of the definition of SipHash: two halves of additions, rotations and exclusive ors in parallel, and the
  32 characters of a constant string as four big-endian words, combined with the two words of the key.
\<close>

definition sip_round :: "sipstate \<Rightarrow> sipstate" where
  "sip_round v = (case v of (v0, v1, v2, v3) \<Rightarrow>
     let (v0, v2) = (v0 + v1, v2 + v3);
         (v1, v3) = (word_rotl 13 v1 XOR v0, word_rotl 16 v3 XOR v2);
         v0 = word_rotl 32 v0;
         (v2, v0) = (v2 + v1, v0 + v3);
         (v1, v3) = (word_rotl 17 v1 XOR v2, word_rotl 21 v3 XOR v0)
     in (v0, v1, word_rotl 32 v2, v3))"

function sip_words :: "bytes \<Rightarrow> u64 list" where
  "sip_words bs = (if bs = [] then [] else of_int (le_uint (take 8 bs)) # sip_words (drop 8 bs))"
  by pat_completeness auto
termination by (relation "measure length") auto

definition sip_pad :: "bytes \<Rightarrow> bytes" where
  "sip_pad inp = inp @ replicate (7 - length inp mod 8) 0 @ [of_nat (length inp)]"

definition sip_start :: "bytes \<Rightarrow> sipstate" where
  "sip_start k =
     (let c = map of_char ''somepseudorandomlygeneratedbytes'';
          be = (\<lambda>i. of_int (le_uint (rev (take 8 (drop (8 * i) c)))));
          k0 = of_int (le_uint (take 8 k)); k1 = of_int (le_uint (take 8 (drop 8 k)))
      in (be 0 XOR k0, be 1 XOR k1, be 2 XOR k0, be 3 XOR k1))"

definition sip_absorb :: "nat \<Rightarrow> u64 \<Rightarrow> sipstate \<Rightarrow> sipstate" where
  "sip_absorb c m v = (case v of (v0, v1, v2, v3) \<Rightarrow>
     case (sip_round ^^ c) (v0, v1, v2, v3 XOR m) of (v0, v1, v2, v3) \<Rightarrow> (v0 XOR m, v1, v2, v3))"

definition sip_ref :: "nat \<Rightarrow> nat \<Rightarrow> bytes \<Rightarrow> bytes \<Rightarrow> u64" where
  "sip_ref c d inp k =
     (case fold (sip_absorb c) (sip_words (sip_pad inp)) (sip_start k) of (v0, v1, v2, v3) \<Rightarrow>
        case (sip_round ^^ d) (v0, v1, v2 XOR 0xff, v3) of (v0, v1, v2, v3) \<Rightarrow> v0 XOR v1 XOR v2 XOR v3)"

declare sip_words.simps [simp del]

subsection \<open>Little-endian words\<close>

lemma of_le_uint_Cons: "(of_int (le_uint (b # bs)) :: u64) = ucast b OR push_bit 8 (of_int (le_uint bs))"
proof -
  have "(of_int (le_uint (b # bs)) :: u64) = ucast b + push_bit 8 (of_int (le_uint bs))"
  proof -
    have "push_bit 8 (of_int (le_uint bs)) = (256 * of_int (le_uint bs) :: u64)"
      by (simp only: push_bit_eq_mult mult.commute) (simp only: power_numeral_even power_numeral_odd, simp)
    moreover have "(of_int (uint b) :: u64) = ucast b" by (rule ucast_eq [symmetric])
    ultimately show ?thesis by (simp only: le_uint_Cons of_int_add of_int_mult of_int_numeral)
  qed
  also have "\<dots> = ucast b OR push_bit 8 (of_int (le_uint bs))"
  proof (rule disjunctive_add)
    fix n
    show "\<not> bit (ucast b :: u64) n \<or> \<not> bit (push_bit 8 (of_int (le_uint bs)) :: u64) n"
      using bit_imp_le_length [of b n] by (cases "n < 8") (auto simp: bit_ucast_iff bit_push_bit_iff)
  qed
  finally show ?thesis .
qed

lemma length_eq_8:
  assumes "length p = 8"
  obtains a b c d e f g h where "p = [a, b, c, d, e, f, g, h]"
  using assms by (auto simp: length_Suc_conv numeral_eq_Suc)

lemma U8TO64_LE_eq:
  assumes "8 \<le> length p"
  shows "U8TO64_LE p = of_int (le_uint (take 8 p))"
proof -
  have "length (take 8 p) = 8" using assms by simp
  then obtain a b c d e f g h where t: "take 8 p = [a, b, c, d, e, f, g, h]" by (rule length_eq_8)
  have "p ! i = take 8 p ! i" if "i < 8" for i using that by simp
  then have "p ! 0 = a" "p ! 1 = b" "p ! 2 = c" "p ! 3 = d" "p ! 4 = e" "p ! 5 = f" "p ! 6 = g" "p ! 7 = h"
    unfolding t by simp_all
  then show ?thesis
    unfolding U8TO64_LE_def t by (simp add: of_le_uint_Cons push_bit_or or.assoc del: of_int_uint)
qed

lemma ROTL_rotl:
  assumes b: "b < 64"
  shows "ROTL x b = word_rotl b x"
proof (rule bit_eqI)
  fix n assume "possible_bit TYPE(u64) n"
  then have n: "n < 64" by simp
  have l: "bit x k \<Longrightarrow> k < 64" for k using bit_imp_le_length [of x k] by simp
  have "bit (ROTL x b) n \<longleftrightarrow> b \<le> n \<and> bit x (n - b) \<or> bit x (64 - b + n)"
    using n by (auto simp: ROTL_def bit_or_iff bit_push_bit_iff bit_drop_bit_eq)
  moreover have "bit (word_rotl b x) n \<longleftrightarrow> bit x ((n + (64 - b)) mod 64)"
    using b n by (simp add: bit_word_rotl_iff)
  moreover have "(n + (64 - b)) mod 64 = (if b \<le> n then n - b else 64 - b + n)"
    using b n by (auto simp: mod_if)
  ultimately show "bit (ROTL x b) n = bit (word_rotl b x) n" using l [of "64 - b + n"] by auto
qed

lemma SIPROUND_eq: "SIPROUND v = sip_round v"
  by (cases v) (simp add: SIPROUND_def sip_round_def ROTL_rotl Let_def)

lemma sip_init_eq: "length k = 16 \<Longrightarrow> sip_init k = sip_start k"
  by (simp add: sip_init_def sip_start_def U8TO64_LE_eq Let_def) (simp add: le_uint_Cons)

definition sip_padded :: "bytes \<Rightarrow> nat \<Rightarrow> bytes" where
  "sip_padded rest n = rest @ replicate (7 - length rest mod 8) 0 @ [of_nat n]"

lemma sip_left_or:
  assumes "length rest < 8"
  shows "sip_left b rest = b OR of_int (le_uint rest)"
proof -
  have ac: "(x OR y) OR z = x OR (y OR z)" "x OR y = y OR x" "x OR (y OR z) = y OR (x OR z)" for x y z :: u64
    by (simp_all add: or.assoc or.commute or.left_commute)
  consider "length rest = 0" | "length rest = 1" | "length rest = 2" | "length rest = 3"
    | "length rest = 4" | "length rest = 5" | "length rest = 6" | "length rest = 7"
    using assms by linarith
  then show ?thesis
  proof cases
    case 1
    then show ?thesis by (simp add: sip_left_def)
  next
    case 2
    then obtain x0 where "rest = [x0]" by (auto simp: length_Suc_conv numeral_eq_Suc)
    then show ?thesis by (simp add: sip_left_def of_le_uint_Cons push_bit_or ac)
  next
    case 3
    then obtain x0 x1 where "rest = [x0, x1]" by (auto simp: length_Suc_conv numeral_eq_Suc)
    then show ?thesis by (simp add: sip_left_def of_le_uint_Cons push_bit_or ac)
  next
    case 4
    then obtain x0 x1 x2 where "rest = [x0, x1, x2]" by (auto simp: length_Suc_conv numeral_eq_Suc)
    then show ?thesis by (simp add: sip_left_def of_le_uint_Cons push_bit_or ac)
  next
    case 5
    then obtain x0 x1 x2 x3 where "rest = [x0, x1, x2, x3]" by (auto simp: length_Suc_conv numeral_eq_Suc)
    then show ?thesis by (simp add: sip_left_def of_le_uint_Cons push_bit_or ac)
  next
    case 6
    then obtain x0 x1 x2 x3 x4 where "rest = [x0, x1, x2, x3, x4]" by (auto simp: length_Suc_conv numeral_eq_Suc)
    then show ?thesis by (simp add: sip_left_def of_le_uint_Cons push_bit_or ac)
  next
    case 7
    then obtain x0 x1 x2 x3 x4 x5 where "rest = [x0, x1, x2, x3, x4, x5]" by (auto simp: length_Suc_conv numeral_eq_Suc)
    then show ?thesis by (simp add: sip_left_def of_le_uint_Cons push_bit_or ac)
  next
    case 8
    then obtain x0 x1 x2 x3 x4 x5 x6 where "rest = [x0, x1, x2, x3, x4, x5, x6]" by (auto simp: length_Suc_conv numeral_eq_Suc)
    then show ?thesis by (simp add: sip_left_def of_le_uint_Cons push_bit_or ac)
  qed
qed

lemma of_le_uint_append:
  "(of_int (le_uint (xs @ ys)) :: u64) = of_int (le_uint xs) OR push_bit (8 * length xs) (of_int (le_uint ys))"
  by (induction xs) (simp_all add: of_le_uint_Cons push_bit_or or.assoc)

lemma of_le_uint_zeros: "(of_int (le_uint (replicate k 0)) :: u64) = 0"
  by (induction k) (simp_all add: of_le_uint_Cons)

lemma sip_left_eq:
  assumes "length rest < 8"
  shows "sip_left (push_bit 56 (of_nat n)) rest = of_int (le_uint (sip_padded rest n))"
proof -
  have n: "push_bit 56 (ucast (of_nat n :: u8)) = (push_bit 56 (of_nat n) :: u64)"
    by (rule bit_eqI) (auto simp: bit_simps)
  have l: "8 * length rest + 8 * (7 - length rest) = 56" using assms by simp
  have "(of_int (le_uint [of_nat n]) :: u64) = ucast (of_nat n :: u8)" by (simp add: of_le_uint_Cons)
  then have "(of_int (le_uint (sip_padded rest n)) :: u64) = of_int (le_uint rest) OR push_bit 56 (of_nat n)"
    using assms n l by (simp add: sip_padded_def of_le_uint_append of_le_uint_zeros push_bit_push_bit)
  then show ?thesis using sip_left_or [OF assms] by (simp add: or.commute)
qed

text \<open>The loop over the blocks absorbs the words of the padded message but the last.\<close>

lemma sip_words_long:
  assumes "8 \<le> length inp"
  shows "sip_words (sip_padded inp n) = of_int (le_uint (take 8 inp)) # sip_words (sip_padded (drop 8 inp) n)"
proof -
  have "(length inp - 8) mod 8 = length inp mod 8" using assms by (simp add: mod_if [of "length inp" 8])
  then have "drop 8 (sip_padded inp n) = sip_padded (drop 8 inp) n" "take 8 (sip_padded inp n) = take 8 inp"
    using assms by (simp_all add: sip_padded_def)
  moreover have "sip_padded inp n \<noteq> []" by (simp add: sip_padded_def)
  ultimately show ?thesis by (subst sip_words.simps) simp
qed

lemma sip_words_short:
  assumes "length rest < 8"
  shows "sip_words (sip_padded rest n) = [of_int (le_uint (sip_padded rest n))]"
proof -
  have "length (sip_padded rest n) = 8" using assms by (simp add: sip_padded_def)
  then show ?thesis by (subst sip_words.simps) (auto simp: sip_words.simps [of "[]"])
qed

lemma sip_blocks_absorb:
  "fold (sip_absorb 1) (sip_words (sip_padded inp n)) v =
    (case sip_blocks inp v of (v', rest) \<Rightarrow> sip_absorb 1 (sip_left (push_bit 56 (of_nat n)) rest) v')"
proof (induction inp v rule: sip_blocks.induct)
  case (1 inp v)
  obtain v0 v1 v2 v3 where v: "v = (v0, v1, v2, v3)" by (cases v)
  show ?case
  proof (cases "length inp < 8")
    case True
    then show ?thesis by (subst sip_blocks.simps) (simp add: sip_words_short sip_left_eq)
  next
    case False
    obtain w0 w1 w2 w3 where w: "SIPROUND (v0, v1, v2, v3 XOR U8TO64_LE inp) = (w0, w1, w2, w3)"
      by (metis prod_cases4)
    have "fold (sip_absorb 1) (sip_words (sip_padded (drop 8 inp) n)) (w0 XOR U8TO64_LE inp, w1, w2, w3) =
        (case sip_blocks (drop 8 inp) (w0 XOR U8TO64_LE inp, w1, w2, w3) of
           (v', rest) \<Rightarrow> sip_absorb 1 (sip_left (push_bit 56 (of_nat n)) rest) v')"
      using 1 [OF False v [symmetric] refl refl refl w [symmetric] refl refl] by simp
    then show ?thesis
      using False v w U8TO64_LE_eq [of inp]
      by (subst sip_blocks.simps) (simp add: sip_words_long sip_absorb_def Let_def SIPROUND_eq)
  qed
qed

text \<open>The case-insensitive variant.\<close>

lemma sip_left_nocase_eq: "sip_left_nocase b inp = sip_left b (map siptlw inp)"
  by (simp add: sip_left_nocase_def sip_left_def Let_def del: length_greater_0_conv)

lemma sip_blocks_nocase_eq:
  "sip_blocks (map siptlw inp) v = (case sip_blocks_nocase inp v of (v', rest) \<Rightarrow> (v', map siptlw rest))"
proof (induction inp v rule: sip_blocks_nocase.induct)
  case (1 inp v)
  obtain v0 v1 v2 v3 where v: "v = (v0, v1, v2, v3)" by (cases v)
  show ?case
  proof (cases "length inp < 8")
    case True
    then show ?thesis by (subst sip_blocks.simps, subst sip_blocks_nocase.simps) simp
  next
    case False
    have m: "U8TO64_LE (map siptlw inp) = U8TO64_LE_NOCASE inp"
      using False by (simp add: U8TO64_LE_def U8TO64_LE_NOCASE_def del: length_greater_0_conv)
    obtain w0 w1 w2 w3 where w: "SIPROUND (v0, v1, v2, v3 XOR U8TO64_LE_NOCASE inp) = (w0, w1, w2, w3)"
      by (metis prod_cases4)
    show ?thesis
      using 1 [OF False v [symmetric] refl refl refl w [symmetric] refl refl] False v w m
      by (subst sip_blocks.simps, subst sip_blocks_nocase.simps) (simp add: Let_def drop_map)
  qed
qed

lemma siphash_nocase_eq: "siphash_nocase inp k = siphash (map siptlw inp) k"
  using sip_blocks_nocase_eq [of inp "sip_init k"]
  by (simp add: siphash_nocase_def siphash_def sip_left_nocase_eq split: prod.splits)

lemma siphash_ref:
  assumes "length k = 16"
  shows "siphash inp k = sip_ref 1 2 inp k"
proof -
  obtain v rest where b: "sip_blocks inp (sip_start k) = (v, rest)" by fastforce
  obtain v0 v1 v2 v3 where v: "v = (v0, v1, v2, v3)" by (cases v)
  have "sip_pad inp = sip_padded inp (length inp)" by (simp add: sip_pad_def sip_padded_def)
  then show ?thesis
    using sip_blocks_absorb [of inp "length inp" "sip_start k"] b v sip_init_eq [OF assms]
    by (simp add: siphash_def sip_ref_def sip_final_def sip_absorb_def numeral_2_eq_2 SIPROUND_eq split: prod.splits)
qed

subsection \<open>Properties\<close>

text \<open>
  C15: with a key of 16 bytes, \<open>siphash\<close>, with its block loop and its fall-through switch, computes SipHash with
  one compression and two finalization rounds of the padded message, and \<open>siphash_nocase\<close> that of the message in
  lower case. The reference has the initial constants and the round of SipHash in its own terms.
\<close>

theorem siphash_is_sip12:
  assumes "length k = 16"
  shows "siphash inp k = sip_ref 1 2 inp k \<and>
    siphash_nocase inp k = sip_ref 1 2 (map (\<lambda>c. if 65 \<le> unat c \<and> unat c \<le> 90 then c + 32 else c) inp) k"
  using assms siphash_ref [OF assms, of inp] siphash_ref [OF assms, of "map siptlw inp"]
  by (simp add: siphash_nocase_eq siptlw_def [abs_def] word_le_nat_alt)

theorem siphash_is_sip12_witness:
  "siphash [65, 98] (map of_nat [0..<16]) = sip_ref 1 2 [65, 98] (map of_nat [0..<16]) \<and>
   siphash_nocase [65, 98] (map of_nat [0..<16]) = sip_ref 1 2 [97, 98] (map of_nat [0..<16])"
  using siphash_is_sip12 [of "map of_nat [0..<16]" "[65, 98]"] by (simp del: upt_rec_numeral)

text \<open>The case-insensitive hash of a string is the hash of its lower-case version.\<close>

theorem siphash_nocase_lower: "siphash_nocase inp k = siphash (map siptlw inp) k"
  by (rule siphash_nocase_eq)

end
