(* ===== verification/Sds.thy ===== *)
theory Sds
  imports Redis_Prelude "HOL-Library.List_Lexorder"
begin

text \<open>
  \<open>sds.c\<close> and \<open>sds.h\<close>: the dynamic strings of the server. An \<open>sds\<close> is a pointer into
  an allocation that starts with a header of one of five widths and holds the string, its
  terminating zero and free space. The model is the allocation as a byte list with the
  offset the pointer has in it; the length and allocation fields of the header are read and
  written as little-endian bytes of their width, so that a length that does not fit its
  header is truncated as in C. Sizes of type \<open>size_t\<close> wrap at 64 bits.

  \<open>s_malloc\<close> and \<open>s_realloc\<close> are \<open>zmalloc\<close> and \<open>zrealloc\<close> (\<open>sdsalloc.h\<close>), which stop
  the server when memory is exhausted and never return \<open>NULL\<close>. The operations return the new
  string; the old pointer is dead, as in C.
\<close>

subsection \<open>Definitions\<close>

record sds =
  mem :: bytes
  sp :: nat

definition size_t :: "nat \<Rightarrow> nat" where
  "size_t n = n mod 2 ^ 64"

definition size_sub :: "nat \<Rightarrow> nat \<Rightarrow> nat" where
  "size_sub a b = nat ((int a - int b) mod 2 ^ 64)"

definition SDS_MAX_PREALLOC :: nat where
  "SDS_MAX_PREALLOC = 1024 * 1024"

text \<open>The byte width of the fields of the headers 8, 16, 32 and 64; type 5 has none.\<close>

definition sds_width :: "u8 \<Rightarrow> nat option" where
  "sds_width t =
     (if t = 1 then Some 1 else if t = 2 then Some 2 else if t = 3 then Some 4
      else if t = 4 then Some 8 else None)"

definition sdsHdrSize :: "u8 \<Rightarrow> nat" where
  "sdsHdrSize flags =
     (let t = flags AND 7 in
      if t = 0 then 1 else case sds_width t of Some w \<Rightarrow> 2 * w + 1 | None \<Rightarrow> 0)"

definition sdsReqType :: "nat \<Rightarrow> u8" where
  "sdsReqType string_size =
     (if string_size < 2 ^ 5 then 0
      else if string_size < 2 ^ 8 then 1
      else if string_size < 2 ^ 16 then 2
      else if string_size < 2 ^ 32 then 3 else 4)"

text \<open>Accesses relative to the pointer: \<open>s[-1]\<close>, the header fields and \<open>s[i]\<close>.\<close>

definition sds_flags :: "sds \<Rightarrow> u8 option" where
  "sds_flags s = (if sp s = 0 then None else peek (mem s) (sp s - 1))"

definition set_flags :: "sds \<Rightarrow> u8 \<Rightarrow> sds option" where
  "set_flags s f =
     (if sp s = 0 then None
      else do { m \<leftarrow> pokes (mem s) (sp s - 1) [f]; Some (s\<lparr>mem := m\<rparr>) })"

definition hdr_get :: "sds \<Rightarrow> nat \<Rightarrow> nat \<Rightarrow> nat option" where
  "hdr_get s w field =
     (if sp s < 2 * w + 1 then None
      else do { b \<leftarrow> peeks (mem s) (sp s - (2 * w + 1) + field * w) w; Some (le_nat b) })"

definition hdr_set :: "sds \<Rightarrow> nat \<Rightarrow> nat \<Rightarrow> nat \<Rightarrow> sds option" where
  "hdr_set s w field v =
     (if sp s < 2 * w + 1 then None
      else do {
        m \<leftarrow> pokes (mem s) (sp s - (2 * w + 1) + field * w) (le_bytes w (int v));
        Some (s\<lparr>mem := m\<rparr>) })"

definition store :: "sds \<Rightarrow> nat \<Rightarrow> bytes \<Rightarrow> sds option" where
  "store s i xs = do { m \<leftarrow> pokes (mem s) (sp s + i) xs; Some (s\<lparr>mem := m\<rparr>) }"

definition load :: "sds \<Rightarrow> nat \<Rightarrow> nat \<Rightarrow> bytes option" where
  "load s i n = peeks (mem s) (sp s + i) n"

definition sdslen :: "sds \<Rightarrow> nat option" where
  "sdslen s = do {
     flags \<leftarrow> sds_flags s;
     if flags AND 7 = 0 then Some (unat (drop_bit 3 flags))
     else case sds_width (flags AND 7) of Some w \<Rightarrow> hdr_get s w 0 | None \<Rightarrow> Some 0 }"

definition sdsalloc :: "sds \<Rightarrow> nat option" where
  "sdsalloc s = do {
     flags \<leftarrow> sds_flags s;
     if flags AND 7 = 0 then Some (unat (drop_bit 3 flags))
     else case sds_width (flags AND 7) of Some w \<Rightarrow> hdr_get s w 1 | None \<Rightarrow> Some 0 }"

text \<open>
  \<open>sh->alloc - sh->len\<close> is an \<open>int\<close> for the two narrow headers, then converted to
  \<open>size_t\<close>; it is unsigned at the width of the field for the two wide ones.
\<close>

definition sdsavail :: "sds \<Rightarrow> nat option" where
  "sdsavail s = do {
     flags \<leftarrow> sds_flags s;
     if flags AND 7 = 0 then Some 0
     else case sds_width (flags AND 7) of
       Some w \<Rightarrow> do {
         alloc \<leftarrow> hdr_get s w 1;
         len \<leftarrow> hdr_get s w 0;
         Some (nat ((int alloc - int len) mod 2 ^ (if w = 4 then 32 else 64))) }
     | None \<Rightarrow> Some 0 }"

definition sdssetlen :: "sds \<Rightarrow> nat \<Rightarrow> sds option" where
  "sdssetlen s newlen = do {
     flags \<leftarrow> sds_flags s;
     if flags AND 7 = 0 then set_flags s (push_bit 3 (of_nat newlen))
     else case sds_width (flags AND 7) of Some w \<Rightarrow> hdr_set s w 0 newlen | None \<Rightarrow> Some s }"

definition sdsinclen :: "sds \<Rightarrow> nat \<Rightarrow> sds option" where
  "sdsinclen s inc = do {
     flags \<leftarrow> sds_flags s;
     if flags AND 7 = 0 then set_flags s (push_bit 3 (drop_bit 3 flags + of_nat inc))
     else case sds_width (flags AND 7) of
       Some w \<Rightarrow> do { len \<leftarrow> hdr_get s w 0; hdr_set s w 0 (len + inc) }
     | None \<Rightarrow> Some s }"

definition sdssetalloc :: "sds \<Rightarrow> nat \<Rightarrow> sds option" where
  "sdssetalloc s newlen = do {
     flags \<leftarrow> sds_flags s;
     if flags AND 7 = 0 then Some s
     else case sds_width (flags AND 7) of Some w \<Rightarrow> hdr_set s w 1 newlen | None \<Rightarrow> Some s }"

text \<open>
  The start of the allocation, which \<open>realloc\<close> and \<open>free\<close> need: a pointer that is not a
  header's size behind it is a fault.
\<close>

definition sdsAllocPtr :: "sds \<Rightarrow> bytes option" where
  "sdsAllocPtr s = do {
     flags \<leftarrow> sds_flags s;
     if sp s = sdsHdrSize flags then Some (mem s) else None }"

definition sdsAllocSize :: "sds \<Rightarrow> nat option" where
  "sdsAllocSize s = do {
     alloc \<leftarrow> sdsalloc s;
     flags \<leftarrow> sds_flags s;
     Some (size_t (sdsHdrSize flags + alloc + 1)) }"

definition sdsnewlen :: "(nat \<Rightarrow> u8) \<Rightarrow> bytes option \<Rightarrow> nat \<Rightarrow> sds option" where
  "sdsnewlen junk init initlen = do {
     let type = sdsReqType initlen;
     let type = (if type = 0 \<and> initlen = 0 then 1 else type);
     let hdrlen = sdsHdrSize type;
     let n = size_t (hdrlen + initlen + 1);
     let sh = (case init of None \<Rightarrow> replicate n 0 | Some _ \<Rightarrow> realloc junk [] n);
     let s = \<lparr>mem = sh, sp = hdrlen\<rparr>;
     s \<leftarrow> (case sds_width type of
            None \<Rightarrow> set_flags s (type OR push_bit 3 (of_nat initlen))
          | Some w \<Rightarrow> do {
              s \<leftarrow> hdr_set s w 0 initlen;
              s \<leftarrow> hdr_set s w 1 initlen;
              set_flags s type });
     s \<leftarrow> (case init of
            Some p \<Rightarrow> if initlen \<noteq> 0 then do { xs \<leftarrow> peeks p 0 initlen; store s 0 xs } else Some s
          | None \<Rightarrow> Some s);
     store s initlen [0] }"

definition sdsempty :: "(nat \<Rightarrow> u8) \<Rightarrow> sds option" where
  "sdsempty junk = sdsnewlen junk (Some []) 0"

text \<open>\<open>strlen\<close> of a C string: the bytes up to the first zero, which must be in the buffer.\<close>

fun strlen :: "bytes \<Rightarrow> nat option" where
  "strlen [] = None"
| "strlen (c # cs) = (if c = 0 then Some 0 else map_option Suc (strlen cs))"

definition sdsnew :: "(nat \<Rightarrow> u8) \<Rightarrow> bytes option \<Rightarrow> sds option" where
  "sdsnew junk init = do {
     initlen \<leftarrow> (case init of None \<Rightarrow> Some 0 | Some p \<Rightarrow> strlen p);
     sdsnewlen junk init initlen }"

definition sdsdup :: "(nat \<Rightarrow> u8) \<Rightarrow> sds \<Rightarrow> sds option" where
  "sdsdup junk s = do {
     len \<leftarrow> sdslen s;
     sdsnewlen junk (Some (drop (sp s) (mem s))) len }"

definition sdsupdatelen :: "sds \<Rightarrow> sds option" where
  "sdsupdatelen s = do {
     reallen \<leftarrow> strlen (drop (sp s) (mem s));
     sdssetlen s reallen }"

definition sdsclear :: "sds \<Rightarrow> sds option" where
  "sdsclear s = do { s \<leftarrow> sdssetlen s 0; store s 0 [0] }"

definition sdsMakeRoomFor :: "(nat \<Rightarrow> u8) \<Rightarrow> sds \<Rightarrow> nat \<Rightarrow> sds option" where
  "sdsMakeRoomFor junk s addlen = do {
     avail \<leftarrow> sdsavail s;
     flags \<leftarrow> sds_flags s;
     let oldtype = flags AND 7;
     if avail \<ge> addlen then Some s
     else do {
       len \<leftarrow> sdslen s;
       sh \<leftarrow> sdsAllocPtr s;
       let newlen = size_t (len + addlen);
       let newlen = (if newlen < SDS_MAX_PREALLOC then size_t (newlen * 2)
                     else size_t (newlen + SDS_MAX_PREALLOC));
       let type = sdsReqType newlen;
       let type = (if type = 0 then 1 else type);
       let hdrlen = sdsHdrSize type;
       s \<leftarrow> (if oldtype = type
             then Some \<lparr>mem = realloc junk sh (size_t (hdrlen + newlen + 1)), sp = hdrlen\<rparr>
             else do {
               let newsh = realloc junk [] (size_t (hdrlen + newlen + 1));
               xs \<leftarrow> load s 0 (len + 1);
               newsh \<leftarrow> pokes newsh hdrlen xs;
               s \<leftarrow> set_flags \<lparr>mem = newsh, sp = hdrlen\<rparr> type;
               sdssetlen s len });
       sdssetalloc s newlen } }"

definition sdsRemoveFreeSpace :: "(nat \<Rightarrow> u8) \<Rightarrow> sds \<Rightarrow> sds option" where
  "sdsRemoveFreeSpace junk s = do {
     flags \<leftarrow> sds_flags s;
     let oldtype = flags AND 7;
     let oldhdrlen = sdsHdrSize oldtype;
     len \<leftarrow> sdslen s;
     sh \<leftarrow> sdsAllocPtr s;
     let type = sdsReqType len;
     let hdrlen = sdsHdrSize type;
     s \<leftarrow> (if oldtype = type \<or> type > 1
           then Some \<lparr>mem = realloc junk sh (size_t (oldhdrlen + len + 1)), sp = oldhdrlen\<rparr>
           else do {
             let newsh = realloc junk [] (size_t (hdrlen + len + 1));
             xs \<leftarrow> load s 0 (len + 1);
             newsh \<leftarrow> pokes newsh hdrlen xs;
             s \<leftarrow> set_flags \<lparr>mem = newsh, sp = hdrlen\<rparr> type;
             sdssetlen s len });
     sdssetalloc s len }"

text \<open>
  \<open>sdsIncrLen\<close>, with its assertions; \<open>incr\<close> is a \<open>ssize_t\<close> that some comparisons cast to
  \<open>unsigned int\<close>. In a type 5 string an increment of zero fails the assertion, in the
  others it is allowed.
\<close>

definition incr_room :: "nat \<Rightarrow> nat \<Rightarrow> nat \<Rightarrow> int \<Rightarrow> bool" where
  "incr_room w alloc len incr =
     (incr \<ge> 0 \<and>
        (if w = 4 then (int alloc - int len) mod 2 ^ 32 \<ge> incr mod 2 ^ 32
         else if w = 8 then (int alloc - int len) mod 2 ^ 64 \<ge> incr mod 2 ^ 64
         else int alloc - int len \<ge> incr) \<or>
      incr < 0 \<and> int len \<ge> (- incr) mod 2 ^ (if w = 8 then 64 else 32))"

definition sdsIncrLen :: "sds \<Rightarrow> int \<Rightarrow> sds option" where
  "sdsIncrLen s incr = do {
     flags \<leftarrow> sds_flags s;
     (len, s) \<leftarrow>
       (if flags AND 7 = 0 then do {
          let oldlen = unat (drop_bit 3 flags);
          let len = nat ((int oldlen + incr) mod 2 ^ 64);
          if (incr > 0 \<and> int oldlen + incr < 32) \<or> (incr < 0 \<and> int oldlen \<ge> (- incr) mod 2 ^ 32)
          then do {
            s \<leftarrow> set_flags s (push_bit 3 (of_nat len));
            Some (len, s) }
          else None }
        else case sds_width (flags AND 7) of
          Some w \<Rightarrow> do {
            alloc \<leftarrow> hdr_get s w 1;
            oldlen \<leftarrow> hdr_get s w 0;
            let len = nat ((int oldlen + incr) mod 256 ^ w);
            if incr_room w alloc oldlen incr then do {
              s \<leftarrow> hdr_set s w 0 len;
              Some (len, s) }
            else None }
        | None \<Rightarrow> Some (0, s));
     store s len [0] }"

definition sdsgrowzero :: "(nat \<Rightarrow> u8) \<Rightarrow> sds \<Rightarrow> nat \<Rightarrow> sds option" where
  "sdsgrowzero junk s len = do {
     curlen \<leftarrow> sdslen s;
     if len \<le> curlen then Some s
     else do {
       s \<leftarrow> sdsMakeRoomFor junk s (len - curlen);
       s \<leftarrow> store s curlen (replicate (len - curlen + 1) 0);
       sdssetlen s len } }"

definition sdscatlen :: "(nat \<Rightarrow> u8) \<Rightarrow> sds \<Rightarrow> bytes \<Rightarrow> nat \<Rightarrow> sds option" where
  "sdscatlen junk s t len = do {
     curlen \<leftarrow> sdslen s;
     s \<leftarrow> sdsMakeRoomFor junk s len;
     xs \<leftarrow> peeks t 0 len;
     s \<leftarrow> store s curlen xs;
     s \<leftarrow> sdssetlen s (size_t (curlen + len));
     store s (size_t (curlen + len)) [0] }"

definition sdscat :: "(nat \<Rightarrow> u8) \<Rightarrow> sds \<Rightarrow> bytes \<Rightarrow> sds option" where
  "sdscat junk s t = do { n \<leftarrow> strlen t; sdscatlen junk s t n }"

definition sdscatsds :: "(nat \<Rightarrow> u8) \<Rightarrow> sds \<Rightarrow> sds \<Rightarrow> sds option" where
  "sdscatsds junk s t = do { n \<leftarrow> sdslen t; sdscatlen junk s (drop (sp t) (mem t)) n }"

definition sdscpylen :: "(nat \<Rightarrow> u8) \<Rightarrow> sds \<Rightarrow> bytes \<Rightarrow> nat \<Rightarrow> sds option" where
  "sdscpylen junk s t len = do {
     alloc \<leftarrow> sdsalloc s;
     curlen \<leftarrow> sdslen s;
     s \<leftarrow> (if alloc < len then sdsMakeRoomFor junk s (size_sub len curlen) else Some s);
     xs \<leftarrow> peeks t 0 len;
     s \<leftarrow> store s 0 xs;
     s \<leftarrow> store s len [0];
     sdssetlen s len }"

definition sdscpy :: "(nat \<Rightarrow> u8) \<Rightarrow> sds \<Rightarrow> bytes \<Rightarrow> sds option" where
  "sdscpy junk s t = do { n \<leftarrow> strlen t; sdscpylen junk s t n }"

text \<open>
  \<open>strchr\<close> on a C string; it finds the terminator when asked for the byte zero. The pointers
  of \<open>sdstrim\<close> are offsets from the start of the string, those of the right end being one past
  the byte the code points to.
\<close>

fun strchr :: "bytes \<Rightarrow> u8 \<Rightarrow> bool option" where
  "strchr [] c = None"
| "strchr (x # xs) c = (if x = c then Some True else if x = 0 then Some False else strchr xs c)"

function trim_left :: "bytes \<Rightarrow> sds \<Rightarrow> nat \<Rightarrow> nat \<Rightarrow> nat option" where
  "trim_left cset s i n =
     (if i < n then do {
        c \<leftarrow> load s i 1;
        found \<leftarrow> strchr cset (hd c);
        if found then trim_left cset s (i + 1) n else Some i }
      else Some i)"
  by pat_completeness auto
termination by (relation "measure (\<lambda>(cset, s, i, n). n - i)") auto

function trim_right :: "bytes \<Rightarrow> sds \<Rightarrow> nat \<Rightarrow> nat \<Rightarrow> nat option" where
  "trim_right cset s i n =
     (if n > i + 1 then do {
        c \<leftarrow> load s (n - 1) 1;
        found \<leftarrow> strchr cset (hd c);
        if found then trim_right cset s i (n - 1) else Some n }
      else Some n)"
  by pat_completeness auto
termination by (relation "measure (\<lambda>(cset, s, i, n). n)") auto

definition sds_memmove :: "sds \<Rightarrow> nat \<Rightarrow> nat \<Rightarrow> nat \<Rightarrow> sds option" where
  "sds_memmove s dst src n = do { xs \<leftarrow> load s src n; store s dst xs }"

definition sdstrim :: "sds \<Rightarrow> bytes \<Rightarrow> sds option" where
  "sdstrim s cset = do {
     n \<leftarrow> sdslen s;
     i \<leftarrow> trim_left cset s 0 n;
     e \<leftarrow> trim_right cset s i n;
     let len = (if i \<ge> e then 0 else e - i);
     s \<leftarrow> (if i \<noteq> 0 then sds_memmove s 0 i len else Some s);
     s \<leftarrow> store s len [0];
     sdssetlen s len }"

text \<open>The arguments of \<open>sdsrange\<close> are of type \<open>ssize_t\<close>; lengths are below \<open>2^63\<close>.\<close>

definition range_index :: "nat \<Rightarrow> int \<Rightarrow> int" where
  "range_index len i = (if i < 0 then (let i = int len + i in if i < 0 then 0 else i) else i)"

definition sdsrange :: "sds \<Rightarrow> int \<Rightarrow> int \<Rightarrow> sds option" where
  "sdsrange s start stop = do {
     len \<leftarrow> sdslen s;
     if len = 0 then Some s
     else do {
       let start = range_index len start;
       let stop = range_index len stop;
       let newlen = (if start > stop then 0 else stop - start + 1);
       let (start, newlen) =
         (if newlen \<noteq> 0 then
            if start \<ge> int len then (start, 0)
            else if stop \<ge> int len then
              let stop = int len - 1 in (start, if start > stop then 0 else stop - start + 1)
            else (start, newlen)
          else (0, newlen));
       s \<leftarrow> (if start \<noteq> 0 \<and> newlen \<noteq> 0 then sds_memmove s 0 (nat start) (nat newlen) else Some s);
       s \<leftarrow> store s (nat newlen) [0];
       sdssetlen s (nat newlen) } }"

text \<open>\<open>tolower\<close> and \<open>toupper\<close> in the C locale, which the server does not change for characters.\<close>

definition tolower :: "u8 \<Rightarrow> u8" where
  "tolower c = (if c \<ge> 65 \<and> c \<le> 90 then c + 32 else c)"

definition toupper :: "u8 \<Rightarrow> u8" where
  "toupper c = (if c \<ge> 97 \<and> c \<le> 122 then c - 32 else c)"

definition sdstolower :: "sds \<Rightarrow> sds option" where
  "sdstolower s = do {
     len \<leftarrow> sdslen s;
     xs \<leftarrow> load s 0 len;
     store s 0 (map tolower xs) }"

definition sdstoupper :: "sds \<Rightarrow> sds option" where
  "sdstoupper s = do {
     len \<leftarrow> sdslen s;
     xs \<leftarrow> load s 0 len;
     store s 0 (map toupper xs) }"

text \<open>\<open>memcmp\<close> of two buffers of the same length, as the sign of its result.\<close>

fun memcmp :: "bytes \<Rightarrow> bytes \<Rightarrow> int" where
  "memcmp (x # xs) (y # ys) = (if x < y then -1 else if y < x then 1 else memcmp xs ys)"
| "memcmp _ _ = 0"

definition sdscmp :: "sds \<Rightarrow> sds \<Rightarrow> int option" where
  "sdscmp s1 s2 = do {
     l1 \<leftarrow> sdslen s1;
     l2 \<leftarrow> sdslen s2;
     let minlen = (if l1 < l2 then l1 else l2);
     b1 \<leftarrow> load s1 0 minlen;
     b2 \<leftarrow> load s2 0 minlen;
     let cmp = memcmp b1 b2;
     Some (if cmp = 0 then (if l1 > l2 then 1 else if l1 < l2 then -1 else 0) else cmp) }"

text \<open>The comparison for callers that hold the contents of the two strings.\<close>

definition sdscmp_str :: "bytes \<Rightarrow> bytes \<Rightarrow> int" where
  "sdscmp_str s1 s2 =
     (let l1 = length s1; l2 = length s2;
          minlen = (if l1 < l2 then l1 else l2);
          cmp = memcmp (take minlen s1) (take minlen s2)
      in if cmp = 0 then (if l1 > l2 then 1 else if l1 < l2 then -1 else 0) else cmp)"

declare trim_left.simps [simp del] trim_right.simps [simp del]

subsection \<open>The strings an allocation represents\<close>

text \<open>
  \<open>sds_of t xs free\<close> is the allocation with header type \<open>t\<close> that holds the string \<open>xs\<close> and the
  bytes \<open>free\<close> after its terminator; \<open>sds_raw\<close> is the intermediate form in which the fields
  and the body need not agree.
\<close>

definition sds_hdr :: "u8 \<Rightarrow> nat \<Rightarrow> nat \<Rightarrow> bytes" where
  "sds_hdr t len alloc =
     (case sds_width t of
        None \<Rightarrow> [push_bit 3 (of_nat len)]
      | Some w \<Rightarrow> le_bytes w (int len) @ le_bytes w (int alloc) @ [t])"

definition sds_raw :: "u8 \<Rightarrow> nat \<Rightarrow> nat \<Rightarrow> bytes \<Rightarrow> sds" where
  "sds_raw t len alloc body = \<lparr>mem = sds_hdr t len alloc @ body, sp = sdsHdrSize t\<rparr>"

definition sds_of :: "u8 \<Rightarrow> bytes \<Rightarrow> bytes \<Rightarrow> sds" where
  "sds_of t xs free = sds_raw t (length xs) (length xs + length free) (xs @ 0 # free)"

definition sds_cap :: "u8 \<Rightarrow> nat" where
  "sds_cap t = (case sds_width t of None \<Rightarrow> 32 | Some w \<Rightarrow> 256 ^ w)"

definition sds_ok :: "u8 \<Rightarrow> bytes \<Rightarrow> bytes \<Rightarrow> bool" where
  "sds_ok t xs free \<longleftrightarrow> t \<le> 4 \<and> length xs < 32 \<and> t = 0 \<or>
     0 < t \<and> t \<le> 4 \<and> length xs + length free < sds_cap t"

definition sds_holds :: "sds \<Rightarrow> bytes \<Rightarrow> bool" where
  "sds_holds s xs \<longleftrightarrow> (\<exists>t free. sds_ok t xs free \<and> s = sds_of t xs free)"

lemma sds_type_cases:
  assumes "t \<le> (4::u8)"
  obtains "t = 0" "sds_width t = None" "sdsHdrSize t = 1"
    | w where "t \<noteq> 0" "t AND 7 = t" "sds_width t = Some w" "sdsHdrSize t = 2 * w + 1" "w \<in> {1, 2, 4, 8}"
proof -
  have "unat t \<le> 4" using assms by (simp add: word_le_nat_alt)
  then consider "unat t = 0" | "unat t = 1" | "unat t = 2" | "unat t = 3" | "unat t = 4" by linarith
  then have "t \<in> {0, 1, 2, 3, 4}" by cases (simp_all add: word_unat_eq_iff)
  then show ?thesis using that by (auto simp: sds_width_def sdsHdrSize_def Let_def)
qed

lemma and_7_push_bit: "push_bit 3 (n :: u8) AND 7 = 0"
proof -
  have "(7::u8) = mask 3" by (simp add: mask_eq_exp_minus_1)
  then have "push_bit 3 n AND 7 = take_bit 3 (push_bit 3 n)" by (simp only: take_bit_eq_mask)
  then show ?thesis by (simp add: take_bit_push_bit)
qed

lemma length_sds_hdr:
  assumes "t \<le> 4"
  shows "length (sds_hdr t len alloc) = sdsHdrSize t"
  using assms by (rule sds_type_cases) (simp_all add: sds_hdr_def)

lemma sdsHdrSize_pos: "t \<le> 4 \<Longrightarrow> 0 < sdsHdrSize t"
  by (erule sds_type_cases) simp_all

lemma flags_raw:
  assumes "t \<le> 4"
  obtains f where "sds_flags (sds_raw t len alloc body) = Some f" "f AND 7 = t"
    "t = 0 \<Longrightarrow> f = push_bit 3 (of_nat len)"
  using assms
proof (rule sds_type_cases)
  assume "t = 0" "sds_width t = None" "sdsHdrSize t = 1"
  then show ?thesis
    using that [of "push_bit 3 (of_nat len)"]
    by (simp add: sds_flags_def sds_raw_def sds_hdr_def peek_def and_7_push_bit)
next
  fix w
  assume "t \<noteq> 0" "t AND 7 = t" "sds_width t = Some w" "sdsHdrSize t = 2 * w + 1"
  then show ?thesis
    using that [of t] by (simp add: sds_flags_def sds_raw_def sds_hdr_def peek_def nth_append)
qed

lemma hdr_get_raw:
  assumes "sds_width t = Some w" "sdsHdrSize t = 2 * w + 1" "len < 256 ^ w" "alloc < 256 ^ w"
  shows "hdr_get (sds_raw t len alloc body) w 0 = Some len"
    and "hdr_get (sds_raw t len alloc body) w 1 = Some alloc"
  using assms
  by (simp_all add: hdr_get_def sds_raw_def sds_hdr_def mem_simps le_simps)

lemma hdr_set_raw:
  assumes "sds_width t = Some w" "sdsHdrSize t = 2 * w + 1"
  shows "hdr_set (sds_raw t len alloc body) w 0 n = Some (sds_raw t n alloc body)"
    and "hdr_set (sds_raw t len alloc body) w 1 n = Some (sds_raw t len n body)"
  using assms by (simp_all add: hdr_set_def sds_raw_def sds_hdr_def mem_simps)

lemma push_drop_5: "n < 32 \<Longrightarrow> unat (drop_bit 3 (push_bit 3 (of_nat n :: u8))) = n"
proof -
  assume "n < 32"
  then have "unat (push_bit 3 (of_nat n :: u8)) = 8 * n"
    by (simp add: push_bit_eq_mult unat_word_ariths unat_of_nat)
  then show ?thesis
    using unat_drop_bit_eq [of 3 "push_bit 3 (of_nat n :: u8)"] by (simp add: drop_bit_eq_div)
qed

lemma sdslen_raw:
  assumes "t \<le> 4" "len < sds_cap t" "t = 0 \<or> alloc < sds_cap t"
  shows "sdslen (sds_raw t len alloc body) = Some len"
proof -
  obtain f where f: "sds_flags (sds_raw t len alloc body) = Some f" "f AND 7 = t"
    "t = 0 \<Longrightarrow> f = push_bit 3 (of_nat len)" using assms(1) by (rule flags_raw) blast
  from assms(1) show ?thesis
  proof (rule sds_type_cases)
    assume "t = 0" "sds_width t = None"
    then show ?thesis using f assms by (simp add: sdslen_def sds_cap_def push_drop_5)
  next
    fix w assume "t \<noteq> 0" "sds_width t = Some w" "sdsHdrSize t = 2 * w + 1"
    then show ?thesis using f assms hdr_get_raw [of t w len alloc body] by (simp add: sdslen_def sds_cap_def)
  qed
qed

lemma sdsalloc_raw:
  assumes "t \<le> 4" "len < sds_cap t" "t = 0 \<or> alloc < sds_cap t"
  shows "sdsalloc (sds_raw t len alloc body) = Some (if t = 0 then len else alloc)"
proof -
  obtain f where f: "sds_flags (sds_raw t len alloc body) = Some f" "f AND 7 = t"
    "t = 0 \<Longrightarrow> f = push_bit 3 (of_nat len)" using assms(1) by (rule flags_raw) blast
  from assms(1) show ?thesis
  proof (rule sds_type_cases)
    assume "t = 0" "sds_width t = None"
    then show ?thesis using f assms by (simp add: sdsalloc_def sds_cap_def push_drop_5)
  next
    fix w assume "t \<noteq> 0" "sds_width t = Some w" "sdsHdrSize t = 2 * w + 1"
    then show ?thesis using f assms hdr_get_raw [of t w len alloc body] by (simp add: sdsalloc_def sds_cap_def)
  qed
qed

lemma sdsavail_raw:
  assumes "t \<le> 4" "len \<le> alloc" "t = 0 \<or> alloc < sds_cap t"
  shows "sdsavail (sds_raw t len alloc body) = Some (if t = 0 then 0 else alloc - len)"
proof -
  obtain f where f: "sds_flags (sds_raw t len alloc body) = Some f" "f AND 7 = t"
    using assms(1) by (rule flags_raw) blast
  from assms(1) show ?thesis
  proof (rule sds_type_cases)
    assume "t = 0"
    then show ?thesis using f by (simp add: sdsavail_def)
  next
    fix w assume w: "t \<noteq> 0" "sds_width t = Some w" "sdsHdrSize t = 2 * w + 1" "w \<in> {1, 2, 4, 8}"
    have a: "alloc < 256 ^ w" using assms(3) w by (simp add: sds_cap_def)
    moreover have "(256::nat) ^ w \<le> 2 ^ (if w = 4 then 32 else 64)" using w(4) by auto
    ultimately have "alloc < 2 ^ (if w = 4 then 32 else 64)" by linarith
    then have "int alloc < int (2 ^ (if w = 4 then 32 else 64))" by (simp only: of_nat_less_iff)
    then have "(int alloc - int len) mod 2 ^ (if w = 4 then 32 else 64) = int alloc - int len"
      using assms(2) by (intro mod_pos_pos_trivial) (auto split: if_splits)
    then show ?thesis
      using f w a assms(2) hdr_get_raw [of t w len alloc body]
      by (simp add: sdsavail_def nat_diff_distrib split del: if_split)
  qed
qed

lemma sdssetlen_raw:
  assumes "t \<le> 4"
  shows "sdssetlen (sds_raw t len alloc body) n = Some (sds_raw t n alloc body)"
proof -
  obtain f where f: "sds_flags (sds_raw t len alloc body) = Some f" "f AND 7 = t"
    using assms(1) by (rule flags_raw) blast
  from assms(1) show ?thesis
  proof (rule sds_type_cases)
    assume "t = 0" "sds_width t = None" "sdsHdrSize t = 1"
    then show ?thesis using f by (simp add: sdssetlen_def set_flags_def sds_raw_def sds_hdr_def pokes_def)
  next
    fix w assume "t \<noteq> 0" "sds_width t = Some w" "sdsHdrSize t = 2 * w + 1"
    then show ?thesis using f hdr_set_raw [of t w len alloc body] by (simp add: sdssetlen_def)
  qed
qed

lemma sdssetalloc_raw:
  assumes "t \<le> 4"
  shows "sdssetalloc (sds_raw t len alloc body) n = Some (sds_raw t len n body)"
proof -
  obtain f where f: "sds_flags (sds_raw t len alloc body) = Some f" "f AND 7 = t"
    using assms(1) by (rule flags_raw) blast
  from assms(1) show ?thesis
  proof (rule sds_type_cases)
    assume "t = 0" "sds_width t = None" "sdsHdrSize t = 1"
    then show ?thesis using f by (simp add: sdssetalloc_def sds_raw_def sds_hdr_def)
  next
    fix w assume "t \<noteq> 0" "sds_width t = Some w" "sdsHdrSize t = 2 * w + 1"
    then show ?thesis using f hdr_set_raw [of t w len alloc body] by (simp add: sdssetalloc_def)
  qed
qed

lemma store_raw:
  assumes "t \<le> 4"
  shows "store (sds_raw t len alloc body) i xs =
    map_option (sds_raw t len alloc) (pokes body i xs)"
  using length_sds_hdr [OF assms, of len alloc]
  by (simp add: store_def sds_raw_def pokes_def)

lemma load_raw:
  assumes "t \<le> 4"
  shows "load (sds_raw t len alloc body) i n = peeks body i n"
  using length_sds_hdr [OF assms, of len alloc]
  by (simp add: load_def sds_raw_def peeks_def add.assoc)

lemma sdsAllocPtr_raw:
  assumes "t \<le> 4"
  shows "sdsAllocPtr (sds_raw t len alloc body) = Some (sds_hdr t len alloc @ body)"
proof -
  obtain f where f: "sds_flags (sds_raw t len alloc body) = Some f" "f AND 7 = t"
    using assms(1) by (rule flags_raw) blast
  have "t AND 7 = t" using assms by (rule sds_type_cases) simp_all
  then have "sdsHdrSize f = sdsHdrSize t" using f by (simp add: sdsHdrSize_def)
  with f show ?thesis by (simp add: sdsAllocPtr_def sds_raw_def)
qed

lemma header_split:
  assumes "length h = 2 * w + 1"
  obtains a b c where "h = a @ b @ [c]" "length a = w" "length b = w"
proof -
  have "length h = w + (w + 1)" using assms by simp
  then obtain a h' where "h = a @ h'" "length a = w" "length h' = w + 1"
    using length_append_split_ex by blast
  moreover from this obtain b h'' where "h' = b @ h''" "length b = w" "length h'' = 1"
    using length_append_split_ex by blast
  moreover from this obtain c where "h'' = [c]" by (auto simp: length_Suc_conv)
  ultimately show ?thesis using that by simp
qed

text \<open>A fresh block becomes a header by writing its type byte, whatever the other bytes are.\<close>

lemma set_flags_fresh:
  assumes "t \<le> 4" "length h = sdsHdrSize t"
  obtains l a where "set_flags \<lparr>mem = h @ body, sp = sdsHdrSize t\<rparr> t = Some (sds_raw t l a body)"
  using assms(1)
proof (rule sds_type_cases)
  assume t: "t = 0" "sds_width t = None" "sdsHdrSize t = 1"
  then have "set_flags \<lparr>mem = h @ body, sp = sdsHdrSize t\<rparr> t = Some (sds_raw t 0 0 body)"
    using assms(2) by (cases h) (simp_all add: set_flags_def pokes_def sds_raw_def sds_hdr_def)
  then show ?thesis by (rule that)
next
  fix w
  assume t: "sds_width t = Some w" "sdsHdrSize t = 2 * w + 1"
  obtain a b c where h: "h = a @ b @ [c]" "length a = w" "length b = w"
    using header_split assms(2) t(2) by metis
  have "set_flags \<lparr>mem = h @ body, sp = sdsHdrSize t\<rparr> t = Some \<lparr>mem = (a @ b @ [t]) @ body, sp = sdsHdrSize t\<rparr>"
    using t h by (simp add: set_flags_def pokes_def)
  also have "\<dots> = Some (sds_raw t (le_nat a) (le_nat b) body)"
    using t h le_bytes_le_nat [of a w] le_bytes_le_nat [of b w] by (simp add: sds_raw_def sds_hdr_def)
  finally show ?thesis by (rule that)
qed

lemma sdsReqType_fits:
  assumes "n < 2 ^ 64"
  shows "sdsReqType n \<le> 4" "n < sds_cap (sdsReqType n)"
  using assms by (auto simp: sdsReqType_def sds_cap_def sds_width_def)

text \<open>The size that \<open>sdsMakeRoomFor\<close> asks for.\<close>

definition room_len :: "nat \<Rightarrow> nat" where
  "room_len n = (if n < SDS_MAX_PREALLOC then 2 * n else n + SDS_MAX_PREALLOC)"

definition sds_fits :: "nat \<Rightarrow> bool" where
  "sds_fits n \<longleftrightarrow> n + SDS_MAX_PREALLOC + 18 < 2 ^ 64"

lemma room_len_fits:
  assumes "sds_fits n"
  shows "(if size_t n < SDS_MAX_PREALLOC then size_t (size_t n * 2)
          else size_t (size_t n + SDS_MAX_PREALLOC)) = room_len n"
    "n \<le> room_len n" "room_len n + 18 < 2 ^ 64"
  using assms by (auto simp: sds_fits_def room_len_def size_t_def SDS_MAX_PREALLOC_def mult.commute)

lemma sds_ok_type: "sds_ok t xs free \<Longrightarrow> t \<le> 4"
  by (auto simp: sds_ok_def)

lemma sds_ok_len: "sds_ok t xs free \<Longrightarrow> length xs < sds_cap t"
  by (auto simp: sds_ok_def sds_cap_def sds_width_def)

lemma sds_ok_cap: "sds_ok t xs free \<Longrightarrow> t = 0 \<or> length xs + length free < sds_cap t"
  by (auto simp: sds_ok_def)

lemma sds_okI: "t \<le> 4 \<Longrightarrow> length xs < sds_cap t \<Longrightarrow> t = 0 \<or> length xs + length free < sds_cap t \<Longrightarrow> sds_ok t xs free"
  by (cases "t = 0") (auto simp: sds_ok_def sds_cap_def sds_width_def word_greater_zero_iff)

lemma sdslen_of: "sds_ok t xs free \<Longrightarrow> sdslen (sds_of t xs free) = Some (length xs)"
  unfolding sds_of_def by (rule sdslen_raw) (auto dest: sds_ok_type sds_ok_len sds_ok_cap)

lemma sdsalloc_of:
  "sds_ok t xs free \<Longrightarrow> sdsalloc (sds_of t xs free) = Some (if t = 0 then length xs else length xs + length free)"
  unfolding sds_of_def by (rule sdsalloc_raw) (auto dest: sds_ok_type sds_ok_len sds_ok_cap)

lemma sdsavail_of:
  "sds_ok t xs free \<Longrightarrow> sdsavail (sds_of t xs free) = Some (if t = 0 then 0 else length free)"
  unfolding sds_of_def by (subst sdsavail_raw) (auto dest: sds_ok_type sds_ok_cap)

lemmas sds_raw_simps = sdssetlen_raw sdssetalloc_raw store_raw load_raw sdsAllocPtr_raw

lemma sdsHdrSize_le: "t \<le> 4 \<Longrightarrow> sdsHdrSize t \<le> 17"
  by (erule sds_type_cases) auto

text \<open>The body of the reallocation: the header is of the new type and the string is copied.\<close>

lemma sds_move:
  assumes ok: "sds_ok t xs free" and t': "t' \<le> 4" "length xs < sds_cap t'" and n: "length xs \<le> n" "n + 18 < 2 ^ 64"
    and cap: "t' = 0 \<or> n < sds_cap t'"
  obtains free' where
    "do { let newsh = realloc junk [] (size_t (sdsHdrSize t' + n + 1));
          ys \<leftarrow> load (sds_of t xs free) 0 (length xs + 1);
          newsh \<leftarrow> pokes newsh (sdsHdrSize t') ys;
          s \<leftarrow> set_flags \<lparr>mem = newsh, sp = sdsHdrSize t'\<rparr> t';
          s \<leftarrow> sdssetlen s (length xs);
          sdssetalloc s n } = Some (sds_of t' xs free')" "sds_ok t' xs free'" "length xs + length free' = n"
proof -
  let ?H = "sdsHdrSize t'" and ?L = "length xs"
  have H: "?H \<le> 17" using t'(1) by (rule sdsHdrSize_le)
  then have n': "size_t (?H + n + 1) = ?H + n + 1" using n by (simp add: size_t_def)
  let ?h = "map junk [0..<?H]" and ?f = "map junk [?H + ?L + 1..<?H + n + 1]"
  have ld: "load (sds_of t xs free) 0 (?L + 1) = Some (xs @ [0])"
    using sds_ok_type [OF ok] by (simp add: sds_of_def load_raw peeks_def)
  have pk: "pokes (realloc junk [] (?H + n + 1)) ?H (xs @ [0]) = Some (?h @ xs @ 0 # ?f)"
    using n H by (simp add: realloc_def pokes_def take_map drop_map)
  obtain l a where fl: "set_flags \<lparr>mem = ?h @ xs @ 0 # ?f, sp = ?H\<rparr> t' = Some (sds_raw t' l a (xs @ 0 # ?f))"
    using set_flags_fresh [OF t'(1), of ?h "xs @ 0 # ?f"] by auto
  show ?thesis
  proof (rule that [of ?f])
    show "sds_ok t' xs ?f" using t' n cap by (intro sds_okI) auto
    show "length xs + length ?f = n" using n by simp
    then show "do { let newsh = realloc junk [] (size_t (?H + n + 1));
          ys \<leftarrow> load (sds_of t xs free) 0 (?L + 1);
          newsh \<leftarrow> pokes newsh ?H ys;
          s \<leftarrow> set_flags \<lparr>mem = newsh, sp = ?H\<rparr> t';
          s \<leftarrow> sdssetlen s ?L;
          sdssetalloc s n } = Some (sds_of t' xs ?f)"
      using ld pk fl t'(1) by (simp only: Let_def n' bind.bind_lunit sds_raw_simps sds_of_def)
  qed
qed

lemma sds_flags_of:
  assumes "t \<le> 4"
  obtains f where "sds_flags (sds_of t xs free) = Some f" "f AND 7 = t"
  using assms unfolding sds_of_def by (rule flags_raw) (use that in blast)

lemma sdsMakeRoomFor_slow:
  assumes ok: "sds_ok t xs free" and fits: "sds_fits (length xs + addlen)"
    and slow: "(if t = 0 then 0 else length free) < addlen"
    and N: "N = room_len (length xs + addlen)" and T: "T = (if sdsReqType N = 0 then 1 else sdsReqType N)"
  shows "sdsMakeRoomFor junk (sds_of t xs free) addlen =
    (if t = T
     then sdssetalloc \<lparr>mem = realloc junk (sds_hdr t (length xs) (length xs + length free) @ xs @ 0 # free)
                               (size_t (sdsHdrSize T + N + 1)), sp = sdsHdrSize T\<rparr> N
     else do { let newsh = realloc junk [] (size_t (sdsHdrSize T + N + 1));
          ys \<leftarrow> load (sds_of t xs free) 0 (length xs + 1);
          newsh \<leftarrow> pokes newsh (sdsHdrSize T) ys;
          s \<leftarrow> set_flags \<lparr>mem = newsh, sp = sdsHdrSize T\<rparr> T;
          s \<leftarrow> sdssetlen s (length xs);
          sdssetalloc s N })"
proof -
  have t: "t \<le> 4" using ok by (rule sds_ok_type)
  obtain f where f: "sds_flags (sds_of t xs free) = Some f" "f AND 7 = t" using t by (rule sds_flags_of)
  have ptr: "sdsAllocPtr (sds_of t xs free) =
      Some (sds_hdr t (length xs) (length xs + length free) @ xs @ 0 # free)"
    using sdsAllocPtr_raw [OF t] by (simp add: sds_of_def)
  obtain av where av: "sdsavail (sds_of t xs free) = Some av" "\<not> addlen \<le> av"
    using sdsavail_of [OF ok] slow by simp
  show ?thesis
    by (simp only: sdsMakeRoomFor_def f av ptr sdslen_of [OF ok] bind.bind_lunit Let_def
        room_len_fits(1) [OF fits] N [symmetric] T [symmetric] if_False,
      cases "t = T") (simp_all only: bind.bind_lunit bind_assoc if_False if_True simp_thms)
qed

lemma sdsMakeRoomFor_of:
  assumes ok: "sds_ok t xs free" and fits: "sds_fits (length xs + addlen)"
  obtains t' free' where "sdsMakeRoomFor junk (sds_of t xs free) addlen = Some (sds_of t' xs free')"
    "sds_ok t' xs free'" "addlen \<le> length free'" "addlen = 0 \<or> t' \<noteq> 0"
proof (cases "addlen \<le> (if t = 0 then 0 else length free)")
  case True
  obtain f where f: "sds_flags (sds_of t xs free) = Some f" "f AND 7 = t"
    using sds_ok_type [OF ok] by (rule sds_flags_of)
  then show ?thesis
    using True that [of t free] ok sdsavail_of [OF ok] by (auto simp: sdsMakeRoomFor_def split: if_splits)
next
  case False
  define N where "N = room_len (length xs + addlen)"
  define T where "T = (if sdsReqType N = 0 then 1 else sdsReqType N)"
  have N: "length xs + addlen \<le> N" "N + 18 < 2 ^ 64" using room_len_fits [OF fits] by (simp_all add: N_def)
  have T: "T \<le> 4" "N < sds_cap T" "T \<noteq> 0"
    using sdsReqType_fits [of N] N(2) by (auto simp: T_def sds_cap_def sds_width_def)
  have t: "t \<le> 4" using ok by (rule sds_ok_type)
  note slow = sdsMakeRoomFor_slow [OF ok fits _ N_def T_def, of junk]
  show ?thesis
  proof (cases "t = T")
    case True
    let ?h = "sds_hdr t (length xs) (length xs + length free)"
    let ?f = "free @ map junk [sdsHdrSize t + length xs + 1 + length free..<sdsHdrSize t + N + 1]"
    have n': "size_t (sdsHdrSize t + N + 1) = sdsHdrSize t + N + 1"
      using N sdsHdrSize_le [OF t] by (simp add: size_t_def)
    have len: "length xs + length free < N" using False True T(3) N(1) by auto
    have "\<lparr>mem = realloc junk (?h @ xs @ 0 # free) (sdsHdrSize t + N + 1), sp = sdsHdrSize t\<rparr>
        = sds_raw t (length xs) (length xs + length free) (xs @ 0 # ?f)"
      using len length_sds_hdr [OF t] by (subst realloc_grow) (simp_all add: add.assoc sds_raw_def)
    then have "sdsMakeRoomFor junk (sds_of t xs free) addlen = Some (sds_of t xs ?f)"
      using slow False True n' len by (simp add: sdssetalloc_raw [OF T(1)] sds_of_def)
    moreover have "sds_ok t xs ?f" using len True T t by (intro sds_okI) auto
    ultimately show ?thesis using that [of t ?f] True T(3) N(1) len by auto
  next
    case neq: False
    obtain free' where m: "do { let newsh = realloc junk [] (size_t (sdsHdrSize T + N + 1));
        ys \<leftarrow> load (sds_of t xs free) 0 (length xs + 1);
        newsh \<leftarrow> pokes newsh (sdsHdrSize T) ys;
        s \<leftarrow> set_flags \<lparr>mem = newsh, sp = sdsHdrSize T\<rparr> T;
        s \<leftarrow> sdssetlen s (length xs);
        sdssetalloc s N } = Some (sds_of T xs free')" "sds_ok T xs free'" "length xs + length free' = N"
      by (rule sds_move [OF ok T(1), of N junk]) (use T N in auto)
    then show ?thesis using that [of T free'] slow False neq T(3) N(1) by auto
  qed
qed

lemma sdscatlen_of:
  assumes ok: "sds_ok t xs free" and fits: "sds_fits (length xs + n)" and n: "n \<le> length p"
  obtains t' free' where "sdscatlen junk (sds_of t xs free) p n = Some (sds_of t' (xs @ take n p) free')"
    "sds_ok t' (xs @ take n p) free'"
proof -
  obtain t1 f1 where m: "sdsMakeRoomFor junk (sds_of t xs free) n = Some (sds_of t1 xs f1)"
    "sds_ok t1 xs f1" "n \<le> length f1" "n = 0 \<or> t1 \<noteq> 0"
    using ok fits by (rule sdsMakeRoomFor_of)
  have t1: "t1 \<le> 4" using m(2) by (rule sds_ok_type)
  let ?ys = "xs @ take n p"
  have sz: "size_t (length xs + n) = length xs + n" using fits by (simp add: sds_fits_def size_t_def)
  have p1: "pokes (xs @ 0 # f1) (length xs) (take n p) = Some (?ys @ drop n (0 # f1))"
    using n m(3) by (simp add: pokes_def)
  have p2: "pokes (?ys @ drop n (0 # f1)) (length xs + n) [0] = Some (?ys @ 0 # drop n f1)"
    using n m(3) by (simp add: pokes_def)
  have "sdscatlen junk (sds_of t xs free) p n = Some (sds_raw t1 (length xs + n) (length xs + length f1) (?ys @ 0 # drop n f1))"
    using sdslen_of [OF ok] m(1) n t1 p1 p2 by (simp add: sdscatlen_def peeks_def sds_of_def sds_raw_simps sz)
  then have "sdscatlen junk (sds_of t xs free) p n = Some (sds_of t1 ?ys (drop n f1))"
    using n m(3) by (simp add: sds_of_def add.assoc)
  moreover have "sds_ok t1 ?ys (drop n f1)"
    using m n t1 sds_ok_len [OF m(2)] sds_ok_cap [OF m(2)] by (intro sds_okI) auto
  ultimately show ?thesis by (rule that)
qed

lemma sdsnewlen_ok:
  assumes fits: "n + 18 < 2 ^ 64" and p: "p = None \<or> (\<exists>q. p = Some q \<and> n \<le> length q)"
  shows "\<exists>t. sdsnewlen junk p n =
      Some (sds_of t (case p of None \<Rightarrow> replicate n 0 | Some q \<Rightarrow> take n q) []) \<and>
    sds_ok t (case p of None \<Rightarrow> replicate n 0 | Some q \<Rightarrow> take n q) []"
proof -
  define T where "T = (if sdsReqType n = 0 \<and> n = 0 then 1 else sdsReqType n)"
  define xs where "xs = (case p of None \<Rightarrow> replicate n 0 | Some q \<Rightarrow> take n q)"
  have len: "length xs = n" using p by (auto simp: xs_def)
  have T: "T \<le> 4" "n < sds_cap T"
    using sdsReqType_fits [of n] fits by (auto simp: T_def sds_cap_def sds_width_def)
  let ?H = "sdsHdrSize T"
  have n': "size_t (?H + n + 1) = ?H + n + 1" using fits sdsHdrSize_le [OF T(1)] by (simp add: size_t_def)
  define sh where "sh = (case p of None \<Rightarrow> replicate (?H + n + 1) 0 | Some _ \<Rightarrow> realloc junk [] (?H + n + 1))"
  obtain h body where sh: "sh = h @ body" "length h = ?H" "length body = n + 1"
  proof -
    have "length sh = ?H + (n + 1)" by (simp add: sh_def split: option.split)
    then show ?thesis using that length_append_split_ex by blast
  qed
  have z: "body = replicate (n + 1) 0" if "p = None"
  proof -
    have "body = drop ?H sh" using sh by simp
    then show ?thesis using that by (simp add: sh_def drop_replicate del: replicate.simps)
  qed
  have hdr: "(case sds_width T of None \<Rightarrow> set_flags \<lparr>mem = sh, sp = ?H\<rparr> (T OR push_bit 3 (of_nat n))
      | Some w \<Rightarrow> do { s \<leftarrow> hdr_set \<lparr>mem = sh, sp = ?H\<rparr> w 0 n; s \<leftarrow> hdr_set s w 1 n; set_flags s T }) =
      Some (sds_raw T n n body)"
    using T(1)
  proof (rule sds_type_cases)
    assume "T = 0" "sds_width T = None" "?H = 1"
    then show ?thesis using sh by (cases h) (simp_all add: set_flags_def pokes_def sds_raw_def sds_hdr_def)
  next
    fix w assume w: "sds_width T = Some w" "?H = 2 * w + 1"
    obtain a b c where "h = a @ b @ [c]" "length a = w" "length b = w"
      using header_split sh(2) w(2) by metis
    then show ?thesis using w sh
      by (simp add: set_flags_def hdr_set_def pokes_def sds_raw_def sds_hdr_def)
  qed
  have unf: "sdsnewlen junk p n = do {
      s \<leftarrow> (case p of
             Some p \<Rightarrow> if n \<noteq> 0 then do { ys \<leftarrow> peeks p 0 n; store (sds_raw T n n body) 0 ys } else Some (sds_raw T n n body)
           | None \<Rightarrow> Some (sds_raw T n n body));
      store s n [0] }"
    unfolding sdsnewlen_def
    by (simp only: Let_def T_def [symmetric] n' sh_def [symmetric] hdr bind.bind_lunit)
  have "pokes body 0 xs = Some (xs @ drop n body)" if "p \<noteq> None" using sh(3) len by (simp add: pokes_def)
  moreover have "pokes (xs @ drop n body) n [0] = Some (xs @ [0])" using sh(3) len by (simp add: pokes_def)
  moreover have "pokes body n [0] = Some (xs @ [0])" if "p = None \<or> n = 0"
    using that z sh(3) len by (auto simp: pokes_def xs_def simp del: replicate.simps)
  ultimately have "sdsnewlen junk p n = Some (sds_raw T n n (xs @ [0]))"
    unfolding unf using p T(1) len by (cases p) (auto simp: store_raw peeks_def xs_def)
  then have "sdsnewlen junk p n = Some (sds_of T xs [])" using len by (simp add: sds_of_def)
  moreover have "sds_ok T xs []" using T len by (intro sds_okI) auto
  ultimately show ?thesis unfolding xs_def by blast
qed

text \<open>The remaining operations, on a string that an allocation holds.\<close>

lemma sds_shrink:
  assumes ok: "sds_ok t xs free" and n: "length ys \<le> length xs"
    and body: "length body = length xs + 1 + length free" "take (Suc (length ys)) body = ys @ [0]"
  obtains free' where "sds_raw t (length ys) (length xs + length free) body = sds_of t ys free'" "sds_ok t ys free'"
proof -
  have "body = ys @ 0 # drop (Suc (length ys)) body"
    by (metis append_Cons append_assoc append_self_conv2 append_take_drop_id body(2) append.assoc append_Nil)
  then have "sds_raw t (length ys) (length xs + length free) body = sds_of t ys (drop (Suc (length ys)) body)"
    using n body by (simp add: sds_of_def)
  moreover have "sds_ok t ys (drop (Suc (length ys)) body)"
    using ok n body sds_ok_len [OF ok] sds_ok_cap [OF ok] by (intro sds_okI) (auto dest: sds_ok_type)
  ultimately show ?thesis by (rule that)
qed

lemma sds_cut:
  assumes ok: "sds_ok t xs free" and i: "n = 0 \<or> i + n \<le> length xs"
  obtains free' where
    "do { s \<leftarrow> (if i \<noteq> 0 \<and> n \<noteq> 0 then sds_memmove (sds_of t xs free) 0 i n else Some (sds_of t xs free));
          s \<leftarrow> store s n [0];
          sdssetlen s n } = Some (sds_of t (take n (drop i xs)) free')" "sds_ok t (take n (drop i xs)) free'"
proof -
  have t: "t \<le> 4" using ok by (rule sds_ok_type)
  let ?ys = "take n (drop i xs)" and ?body = "xs @ 0 # free"
  have len: "length ?ys = n" using i by auto
  have n: "n \<le> length xs" using i by auto
  have move: "(if i \<noteq> 0 \<and> n \<noteq> 0 then sds_memmove (sds_of t xs free) 0 i n else Some (sds_of t xs free)) =
      Some (sds_raw t (length xs) (length xs + length free) (?ys @ drop n ?body))"
  proof (cases "i \<noteq> 0 \<and> n \<noteq> 0")
    case True
    then show ?thesis using i t
      by (simp add: sds_memmove_def sds_of_def load_raw store_raw peeks_def pokes_def)
  next
    case False
    then have "?ys @ drop n ?body = ?body" using i by (cases "n = 0") (auto simp: append_assoc [symmetric])
    then show ?thesis using False by (auto simp: sds_of_def)
  qed
  have st: "pokes (?ys @ drop n ?body) n [0] = Some (?ys @ 0 # drop (Suc n) ?body)"
    using n len by (simp add: pokes_def)
  obtain free' where "sds_raw t (length ?ys) (length xs + length free) (?ys @ 0 # drop (Suc n) ?body) =
      sds_of t ?ys free'" "sds_ok t ?ys free'"
    by (rule sds_shrink [OF ok, of ?ys "?ys @ 0 # drop (Suc n) ?body"]) (use n len in auto)
  then show ?thesis using that [of free'] move st t len by (simp add: sds_raw_simps split del: if_split)
qed

text \<open>\<open>sdsrange\<close> keeps the characters from index \<open>start\<close> to index \<open>stop\<close>, counted from the end if negative.\<close>

definition slice :: "int \<Rightarrow> int \<Rightarrow> 'a list \<Rightarrow> 'a list" where
  "slice start stop xs =
     (let n = int (length xs);
          a = (if start < 0 then max 0 (n + start) else start);
          b = (if stop < 0 then max 0 (n + stop) else min stop (n - 1))
      in take (nat (b - a + 1)) (drop (nat a) xs))"

lemma sdsrange_of:
  assumes ok: "sds_ok t xs free"
  obtains free' where "sdsrange (sds_of t xs free) start stop = Some (sds_of t (slice start stop xs) free')"
    "sds_ok t (slice start stop xs) free'"
proof (cases "xs = []")
  case True
  then show ?thesis using that [of free] ok sdslen_of [OF ok] by (simp add: sdsrange_def slice_def Let_def)
next
  case False
  define a b where "a = range_index (length xs) start" and "b = range_index (length xs) stop"
  define i n where "i = (if a > b then 0 else nat a)"
    and "n = (if a > b \<or> a \<ge> int (length xs) then 0 else nat ((if b \<ge> int (length xs) then int (length xs) - 1 else b) - a + 1))"
  have ab: "0 \<le> a" "0 \<le> b" by (auto simp: a_def b_def range_index_def Let_def)
  have cut: "take n (drop i xs) = slice start stop xs"
    using False ab by (auto simp: i_def n_def a_def b_def slice_def range_index_def Let_def max_def min_def)
  have "sdsrange (sds_of t xs free) start stop =
    do { s \<leftarrow> (if i \<noteq> 0 \<and> n \<noteq> 0 then sds_memmove (sds_of t xs free) 0 i n else Some (sds_of t xs free));
         s \<leftarrow> store s n [0];
         sdssetlen s n }"
    using False ab sdslen_of [OF ok]
    by (auto simp: sdsrange_def a_def [symmetric] b_def [symmetric] Let_def i_def n_def)
  moreover obtain free' where
    "do { s \<leftarrow> (if i \<noteq> 0 \<and> n \<noteq> 0 then sds_memmove (sds_of t xs free) 0 i n else Some (sds_of t xs free));
          s \<leftarrow> store s n [0];
          sdssetlen s n } = Some (sds_of t (take n (drop i xs)) free')" "sds_ok t (take n (drop i xs)) free'"
    using ok
  proof (rule sds_cut)
    show "n = 0 \<or> i + n \<le> length xs" using ab by (auto simp: i_def n_def)
  qed
  ultimately show ?thesis using that [of free'] cut by simp
qed

lemma sdsgrowzero_of:
  assumes ok: "sds_ok t xs free" and fits: "sds_fits n"
  obtains t' free' where
    "sdsgrowzero junk (sds_of t xs free) n = Some (sds_of t' (xs @ replicate (n - length xs) 0) free')"
    "sds_ok t' (xs @ replicate (n - length xs) 0) free'"
proof (cases "n \<le> length xs")
  case True
  then show ?thesis using that [of t free] ok sdslen_of [OF ok] by (simp add: sdsgrowzero_def)
next
  case False
  have "sds_fits (length xs + (n - length xs))" using False fits by simp
  with ok obtain t1 f1 where m: "sdsMakeRoomFor junk (sds_of t xs free) (n - length xs) = Some (sds_of t1 xs f1)"
    "sds_ok t1 xs f1" "n - length xs \<le> length f1" "n - length xs = 0 \<or> t1 \<noteq> 0"
    by (rule sdsMakeRoomFor_of)
  have t1: "t1 \<le> 4" using m(2) by (rule sds_ok_type)
  let ?z = "replicate (n - length xs) (0::u8)"
  have "pokes (xs @ 0 # f1) (length xs) (replicate (n - length xs + 1) 0) = Some (xs @ ?z @ 0 # drop (n - length xs) f1)"
    using m(3) by (simp add: pokes_def replicate_append_same [symmetric])
  then have "sdsgrowzero junk (sds_of t xs free) n =
      Some (sds_raw t1 n (length xs + length f1) (xs @ ?z @ 0 # drop (n - length xs) f1))"
    using sdslen_of [OF ok] m(1) False t1 by (simp add: sdsgrowzero_def sds_of_def sds_raw_simps)
  then have "sdsgrowzero junk (sds_of t xs free) n = Some (sds_of t1 (xs @ ?z) (drop (n - length xs) f1))"
    using False m(3) by (simp add: sds_of_def add.commute)
  moreover have "sds_ok t1 (xs @ ?z) (drop (n - length xs) f1)"
    using m False t1 sds_ok_cap [OF m(2)] by (intro sds_okI) auto
  ultimately show ?thesis by (rule that)
qed

lemma sdscpylen_room:
  assumes ok: "sds_ok t xs free" and fits: "sds_fits (length xs + n)"
  obtains t1 f1 where
    "(if (if t = 0 then length xs else length xs + length free) < n
      then sdsMakeRoomFor junk (sds_of t xs free) (size_sub n (length xs)) else Some (sds_of t xs free)) =
     Some (sds_of t1 xs f1)"
    "sds_ok t1 xs f1" "n \<le> length xs + length f1" "t1 \<noteq> 0 \<or> n \<le> length xs"
proof (cases "(if t = 0 then length xs else length xs + length free) < n")
  case True
  then have "size_sub n (length xs) = n - length xs"
    using fits by (simp add: size_sub_def sds_fits_def nat_diff_distrib split: if_splits)
  moreover have "sds_fits (length xs + (n - length xs))"
    using True fits by (simp add: sds_fits_def split: if_splits)
  then obtain t1 f1 where "sdsMakeRoomFor junk (sds_of t xs free) (n - length xs) = Some (sds_of t1 xs f1)"
    "sds_ok t1 xs f1" "n - length xs \<le> length f1" "n - length xs = 0 \<or> t1 \<noteq> 0"
    using ok by (rule_tac sdsMakeRoomFor_of)
  ultimately show ?thesis using that [of t1 f1] True by (auto split: if_splits)
next
  case False
  then show ?thesis using that [of t free] ok by (auto split: if_splits)
qed

lemma sdscpylen_of:
  assumes ok: "sds_ok t xs free" and fits: "sds_fits (length xs + n)" and n: "n \<le> length p"
  obtains t' free' where "sdscpylen junk (sds_of t xs free) p n = Some (sds_of t' (take n p) free')"
    "sds_ok t' (take n p) free'"
proof -
  obtain t1 f1 where m: "(if (if t = 0 then length xs else length xs + length free) < n
      then sdsMakeRoomFor junk (sds_of t xs free) (size_sub n (length xs)) else Some (sds_of t xs free)) =
     Some (sds_of t1 xs f1)" "sds_ok t1 xs f1" "n \<le> length xs + length f1" "t1 \<noteq> 0 \<or> n \<le> length xs"
    using ok fits by (rule sdscpylen_room)
  have t1: "t1 \<le> 4" using m(2) by (rule sds_ok_type)
  let ?b = "drop n (xs @ 0 # f1)"
  have p1: "pokes (xs @ 0 # f1) 0 (take n p) = Some (take n p @ ?b)" using n m(3) by (simp add: pokes_def)
  have "pokes (take n p @ x # c) n [0] = Some (take n p @ 0 # c)" for x c using n by (simp add: pokes_def)
  moreover have "?b = (xs @ 0 # f1) ! n # drop (Suc n) (xs @ 0 # f1)"
    using m(3) by (intro Cons_nth_drop_Suc [symmetric]) simp
  ultimately have p2: "pokes (take n p @ ?b) n [0] = Some (take n p @ 0 # drop (Suc n) (xs @ 0 # f1))"
    by (simp only:)
  have "sdscpylen junk (sds_of t xs free) p n =
      Some (sds_raw t1 n (length xs + length f1) (take n p @ 0 # drop (Suc n) (xs @ 0 # f1)))"
    unfolding sdscpylen_def sdsalloc_of [OF ok] bind.bind_lunit sdslen_of [OF ok] m(1)
    using n t1 p1 p2 by (simp add: peeks_def sds_of_def sds_raw_simps)
  moreover have "length xs + length f1 = n + length (drop (Suc n) (xs @ 0 # f1))" using m(3) by simp
  ultimately have "sdscpylen junk (sds_of t xs free) p n = Some (sds_of t1 (take n p) (drop (Suc n) (xs @ 0 # f1)))"
    using n by (simp add: sds_of_def)
  moreover have "sds_ok t1 (take n p) (drop (Suc n) (xs @ 0 # f1))"
    using m n t1 sds_ok_len [OF m(2)] sds_ok_cap [OF m(2)] by (intro sds_okI) auto
  ultimately show ?thesis by (rule that)
qed

lemma sdsRemoveFreeSpace_of:
  assumes ok: "sds_ok t xs free" and fits: "length xs + 18 < 2 ^ 64"
  obtains t' where "sdsRemoveFreeSpace junk (sds_of t xs free) = Some (sds_of t' xs [])" "sds_ok t' xs []"
proof -
  let ?n = "length xs"
  have t: "t \<le> 4" using ok by (rule sds_ok_type)
  obtain f where f: "sds_flags (sds_of t xs free) = Some f" "f AND 7 = t" using t by (rule sds_flags_of)
  have ptr: "sdsAllocPtr (sds_of t xs free) = Some (sds_hdr t ?n (?n + length free) @ xs @ 0 # free)"
    using sdsAllocPtr_raw [OF t] by (simp add: sds_of_def)
  define T where "T = sdsReqType ?n"
  have T: "T \<le> 4" "?n < sds_cap T" using sdsReqType_fits [of ?n] fits by (simp_all add: T_def)
  have unf: "sdsRemoveFreeSpace junk (sds_of t xs free) = do {
     s \<leftarrow> (if t = T \<or> T > 1
           then Some \<lparr>mem = realloc junk (sds_hdr t ?n (?n + length free) @ xs @ 0 # free)
                                (size_t (sdsHdrSize t + ?n + 1)), sp = sdsHdrSize t\<rparr>
           else do {
             let newsh = realloc junk [] (size_t (sdsHdrSize T + ?n + 1));
             ys \<leftarrow> load (sds_of t xs free) 0 (?n + 1);
             newsh \<leftarrow> pokes newsh (sdsHdrSize T) ys;
             s \<leftarrow> set_flags \<lparr>mem = newsh, sp = sdsHdrSize T\<rparr> T;
             sdssetlen s ?n });
     sdssetalloc s ?n }"
    by (simp only: sdsRemoveFreeSpace_def f ptr sdslen_of [OF ok] bind.bind_lunit Let_def T_def [symmetric])
  show ?thesis
  proof (cases "t = T \<or> T > 1")
    case True
    have n': "size_t (sdsHdrSize t + ?n + 1) = sdsHdrSize t + ?n + 1"
      using fits sdsHdrSize_le [OF t] by (simp add: size_t_def)
    have "realloc junk (sds_hdr t ?n (?n + length free) @ xs @ 0 # free) (sdsHdrSize t + ?n + 1) =
        sds_hdr t ?n (?n + length free) @ xs @ [0]"
      using length_sds_hdr [OF t] by (subst realloc_shrink) simp_all
    then have "sdsRemoveFreeSpace junk (sds_of t xs free) = sdssetalloc (sds_raw t ?n (?n + length free) (xs @ [0])) ?n"
      using unf True n' by (simp add: sds_raw_def)
    then have "sdsRemoveFreeSpace junk (sds_of t xs free) = Some (sds_of t xs [])"
      using t by (simp add: sds_raw_simps sds_of_def)
    moreover have "sds_ok t xs []" using t sds_ok_len [OF ok] by (intro sds_okI) auto
    ultimately show ?thesis by (rule that)
  next
    case False
    obtain free' where m: "do { let newsh = realloc junk [] (size_t (sdsHdrSize T + ?n + 1));
        ys \<leftarrow> load (sds_of t xs free) 0 (?n + 1);
        newsh \<leftarrow> pokes newsh (sdsHdrSize T) ys;
        s \<leftarrow> set_flags \<lparr>mem = newsh, sp = sdsHdrSize T\<rparr> T;
        s \<leftarrow> sdssetlen s ?n;
        sdssetalloc s ?n } = Some (sds_of T xs free')" "sds_ok T xs free'" "?n + length free' = ?n"
      by (rule sds_move [OF ok T, of ?n junk]) (use T fits in auto)
    then show ?thesis using that [of T] unf False by (simp only: if_False bind_assoc Let_def) simp
  qed
qed

text \<open>
  The use \<open>sds.c\<close> documents for \<open>sdsIncrLen\<close>: bytes are written into the free space, as
  \<open>read\<close> does, and the length is increased by their number.
\<close>

lemma sdsIncrLen_of:
  assumes ok: "sds_ok t xs free" and t0: "t \<noteq> 0" and n: "length ys \<le> length free"
  shows "do { s \<leftarrow> store (sds_of t xs free) (length xs) ys; sdsIncrLen s (int (length ys)) } =
     Some (sds_of t (xs @ ys) (drop (length ys) free))"
    and "sds_ok t (xs @ ys) (drop (length ys) free)"
proof -
  let ?n = "length ys" and ?a = "length xs + length free" and ?b = "drop (length ys) (0 # free)"
  have t: "t \<le> 4" using ok by (rule sds_ok_type)
  have cap: "?a < sds_cap t" using sds_ok_cap [OF ok] t0 by simp
  then show ok': "sds_ok t (xs @ ys) (drop ?n free)" using t n by (intro sds_okI) auto
  have p1: "pokes (xs @ 0 # free) (length xs) ys = Some ((xs @ ys) @ ?b)" using n by (simp add: pokes_def)
  have p2: "pokes ((xs @ ys) @ ?b) (length xs + ?n) [0] = Some ((xs @ ys) @ 0 # drop ?n free)"
    using n by (simp add: pokes_def)
  obtain f where f: "sds_flags (sds_raw t (length xs) ?a ((xs @ ys) @ ?b)) = Some f" "f AND 7 = t"
    using t by (rule flags_raw)
  obtain w where w: "sds_width t = Some w" "sdsHdrSize t = 2 * w + 1" "w \<in> {1, 2, 4, 8}"
    using t t0 by (rule_tac sds_type_cases) auto
  have c: "?a < 256 ^ w" using cap w by (simp add: sds_cap_def)
  have "incr_room w ?a (length xs) (int ?n)" using c w(3) n by (auto simp: incr_room_def)
  moreover have "nat ((int (length xs) + int ?n) mod 256 ^ w) = length xs + ?n"
  proof -
    have "length xs + ?n < 256 ^ w" using c n by linarith
    then have "int (length xs) + int ?n < 256 ^ w" by (metis of_nat_add of_nat_less_iff of_nat_numeral of_nat_power)
    then show ?thesis by simp
  qed
  ultimately have "sdsIncrLen (sds_raw t (length xs) ?a ((xs @ ys) @ ?b)) (int ?n) =
      Some (sds_raw t (length xs + ?n) ?a ((xs @ ys) @ 0 # drop ?n free))"
    using f t0 w c p2 hdr_get_raw [OF w(1,2), of "length xs" ?a "(xs @ ys) @ ?b"]
      hdr_set_raw [OF w(1,2), of "length xs" ?a "(xs @ ys) @ ?b"]
    by (simp only: sdsIncrLen_def bind.bind_lunit if_False if_True option.case Let_def prod.case store_raw [OF t])
      simp
  then show "do { s \<leftarrow> store (sds_of t xs free) (length xs) ys; sdsIncrLen s (int ?n) } =
     Some (sds_of t (xs @ ys) (drop ?n free))"
    using p1 n t by (simp add: sds_of_def store_raw)
qed

lemma strchr_terminated:
  "strlen cset = Some k \<Longrightarrow> strchr cset c = Some (c = 0 \<or> c \<in> set (take k cset))"
  by (induction cset arbitrary: k) (auto split: if_splits)

text \<open>The two ends of \<open>sdstrim\<close>: the first byte to keep and one past the last.\<close>

lemma load_of:
  "sds_ok t xs free \<Longrightarrow> i < length xs \<Longrightarrow> load (sds_of t xs free) i 1 = Some [xs ! i]"
  using take_Suc_conv_app_nth [of 0 "drop i (xs @ 0 # free)"]
  by (simp add: sds_of_def load_raw sds_ok_type peeks_def nth_append)

lemma trim_left_of:
  assumes ok: "sds_ok t xs free" and cs: "\<And>c. strchr cset c = Some (P c)"
  shows "i \<le> length xs \<Longrightarrow> trim_left cset (sds_of t xs free) i (length xs) =
    Some (i + length (takeWhile P (drop i xs)))"
proof (induction "length xs - i" arbitrary: i)
  case 0
  then show ?case by (subst trim_left.simps) simp
next
  case (Suc n)
  then have "i < length xs" by simp
  then have d: "drop i xs = xs ! i # drop (Suc i) xs" by (simp add: Cons_nth_drop_Suc)
  have "trim_left cset (sds_of t xs free) (Suc i) (length xs) = Some (Suc i + length (takeWhile P (drop (Suc i) xs)))"
    using Suc by simp
  then show ?case
    using load_of [OF ok \<open>i < length xs\<close>] \<open>i < length xs\<close> by (subst trim_left.simps) (simp add: cs d)
qed

lemma trim_right_of:
  assumes ok: "sds_ok t xs free" and cs: "\<And>c. strchr cset c = Some (P c)" and i: "\<not> P (xs ! i)"
  shows "i < n \<Longrightarrow> n \<le> length xs \<Longrightarrow> \<exists>e. trim_right cset (sds_of t xs free) i n = Some e \<and> i < e \<and> e \<le> n \<and>
    take (e - i) (drop i xs) = rev (dropWhile P (rev (take (n - i) (drop i xs))))"
proof (induction n)
  case (Suc n)
  show ?case
  proof (cases "i + 1 < Suc n")
    case False
    then have "n = i" using Suc.prems by simp
    then have "take (Suc n - i) (drop i xs) = [xs ! i]" using Suc.prems
      by (simp add: take_Suc hd_drop_conv_nth)
    then show ?thesis using False i \<open>n = i\<close> by (subst trim_right.simps) simp
  next
    case True
    have n: "n < length xs" "i < n" using Suc.prems True by simp_all
    have tk: "take (Suc n - i) (drop i xs) = take (n - i) (drop i xs) @ [xs ! n]"
      using n by (simp add: Suc_diff_le take_Suc_conv_app_nth)
    show ?thesis
    proof (cases "P (xs ! n)")
      case False
      then show ?thesis using True load_of [OF ok n(1)] n tk by (subst trim_right.simps) (auto simp: cs)
    next
      case P: True
      obtain e where "trim_right cset (sds_of t xs free) i n = Some e" "i < e" "e \<le> n"
        "take (e - i) (drop i xs) = rev (dropWhile P (rev (take (n - i) (drop i xs))))"
        using Suc.IH n by auto
      then show ?thesis using True P load_of [OF ok n(1)] tk by (subst trim_right.simps) (auto simp: cs)
    qed
  qed
qed simp

definition trim :: "('a \<Rightarrow> bool) \<Rightarrow> 'a list \<Rightarrow> 'a list" where
  "trim P xs = rev (dropWhile P (rev (dropWhile P xs)))"

lemma sdstrim_ends:
  assumes ok: "sds_ok t xs free" and cs: "\<And>c. strchr cset c = Some (P c)"
  obtains i e where "trim_left cset (sds_of t xs free) 0 (length xs) = Some i"
    "trim_right cset (sds_of t xs free) i (length xs) = Some e" "i \<le> length xs" "e \<le> length xs"
    "take (if i \<ge> e then 0 else e - i) (drop i xs) = trim P xs"
proof -
  define i where "i = length (takeWhile P xs)"
  have i: "trim_left cset (sds_of t xs free) 0 (length xs) = Some i" "i \<le> length xs"
    using trim_left_of [OF ok cs, of 0] length_takeWhile_le [of P xs] by (simp_all add: i_def)
  have d: "drop i xs = dropWhile P xs" by (simp add: i_def dropWhile_eq_drop)
  show ?thesis
  proof (cases "i = length xs")
    case True
    then have "dropWhile P xs = []" using d by simp
    moreover have "trim_right cset (sds_of t xs free) i (length xs) = Some (length xs)"
      using True by (subst trim_right.simps) simp
    ultimately show ?thesis using that [of i "length xs"] i True by (auto simp: trim_def dest: set_dropWhileD)
  next
    case False
    then have "\<not> P (xs ! i)" using i(2) nth_length_takeWhile [of P xs] by (simp add: i_def)
    then obtain e where "trim_right cset (sds_of t xs free) i (length xs) = Some e" "i < e" "e \<le> length xs"
      "take (e - i) (drop i xs) = rev (dropWhile P (rev (take (length xs - i) (drop i xs))))"
      using trim_right_of [OF ok cs, of i "length xs"] i(2) False by auto
    moreover from this have "take (length xs - i) (drop i xs) = drop i xs" by simp
    ultimately show ?thesis using that [of i e] i d by (simp add: trim_def)
  qed
qed

lemma sdstrim_of:
  assumes ok: "sds_ok t xs free" and k: "strlen cset = Some k"
  obtains free' where
    "sdstrim (sds_of t xs free) cset = Some (sds_of t (trim (\<lambda>c. c = 0 \<or> c \<in> set (take k cset)) xs) free')"
    "sds_ok t (trim (\<lambda>c. c = 0 \<or> c \<in> set (take k cset)) xs) free'"
proof -
  obtain i e where ie: "trim_left cset (sds_of t xs free) 0 (length xs) = Some i"
    "trim_right cset (sds_of t xs free) i (length xs) = Some e" "i \<le> length xs" "e \<le> length xs"
    "take (if i \<ge> e then 0 else e - i) (drop i xs) = trim (\<lambda>c. c = 0 \<or> c \<in> set (take k cset)) xs"
    using ok strchr_terminated [OF k] by (rule sdstrim_ends)
  define n where "n = (if i \<ge> e then 0 else e - i)"
  have "i + n \<le> length xs" using ie(3,4) by (simp add: n_def)
  have move: "(if i \<noteq> 0 then sds_memmove (sds_of t xs free) 0 i n else Some (sds_of t xs free)) =
      (if i \<noteq> 0 \<and> n \<noteq> 0 then sds_memmove (sds_of t xs free) 0 i n else Some (sds_of t xs free))"
    using ie(3) sds_ok_type [OF ok] by (simp add: sds_memmove_def sds_of_def sds_raw_simps peeks_def pokes_def)
  obtain free' where
    "do { s \<leftarrow> (if i \<noteq> 0 \<and> n \<noteq> 0 then sds_memmove (sds_of t xs free) 0 i n else Some (sds_of t xs free));
          s \<leftarrow> store s n [0];
          sdssetlen s n } = Some (sds_of t (take n (drop i xs)) free')" "sds_ok t (take n (drop i xs)) free'"
    by (rule sds_cut [OF ok, of n i]) (use \<open>i + n \<le> length xs\<close> in auto)
  then show ?thesis
    using that [of free'] unfolding sdstrim_def sdslen_of [OF ok] bind.bind_lunit ie(1,2) Let_def n_def [symmetric] move
    using ie(5) by (simp add: n_def)
qed

lemma sds_map_of:
  assumes ok: "sds_ok t xs free" and ys: "length ys = length xs"
  shows "store (sds_of t xs free) 0 ys = Some (sds_of t ys free)" "load (sds_of t xs free) 0 (length xs) = Some xs"
    "sds_ok t ys free"
proof -
  show "store (sds_of t xs free) 0 ys = Some (sds_of t ys free)" "load (sds_of t xs free) 0 (length xs) = Some xs"
    using sds_ok_type [OF ok] ys by (simp_all add: sds_of_def sds_raw_simps pokes_def peeks_def)
  show "sds_ok t ys free" using ok ys by (simp add: sds_ok_def)
qed

lemma sdsclear_of:
  assumes "sds_ok t xs free"
  obtains free' where "sdsclear (sds_of t xs free) = Some (sds_of t [] free')" "sds_ok t [] free'"
proof -
  obtain free' where "sds_raw t (length []) (length xs + length free) (0 # tl (xs @ 0 # free)) = sds_of t [] free'"
    "sds_ok t [] free'"
    by (rule sds_shrink [OF assms, of "[]" "0 # tl (xs @ 0 # free)"]) (auto simp: Suc_diff_le)
  then show ?thesis
    using that [of free'] sds_ok_type [OF assms]
    by (cases xs) (simp_all add: sdsclear_def sds_of_def sds_raw_simps pokes_def)
qed

text \<open>\<open>sdscmp\<close> is the lexicographic order of the contents, bytes being unsigned.\<close>

lemma memcmp_prefix:
  "memcmp (take (min (length xs) (length ys)) xs) (take (min (length xs) (length ys)) ys) =
    (if xs < ys \<and> \<not> take (length xs) ys = xs then -1
     else if ys < xs \<and> \<not> take (length ys) xs = ys then 1 else 0)"
proof (induction xs arbitrary: ys)
  case (Cons x xs)
  then show ?case by (cases ys) (auto simp: less_imp_neq)
qed simp

lemma sdscmp_str_eq: "sdscmp_str xs ys = (if xs < ys then -1 else if ys < xs then 1 else 0)"
proof -
  have pre: "zs < zs' \<Longrightarrow> take (length zs) zs' = zs \<Longrightarrow> length zs < length zs'" for zs zs' :: bytes
    by (metis append_take_drop_id less_irrefl linorder_not_le take_all)
  have "(if length xs < length ys then length xs else length ys) = min (length xs) (length ys)" by simp
  then show ?thesis
    using memcmp_prefix [of xs ys] pre [of xs ys] pre [of ys xs] by (auto simp: sdscmp_str_def Let_def split: if_splits)
qed

lemma sdscmp_of:
  assumes "sds_ok t xs free" "sds_ok u ys free'"
  shows "sdscmp (sds_of t xs free) (sds_of u ys free') = Some (sdscmp_str xs ys)"
proof -
  have "load (sds_of t xs free) 0 n = Some (take n xs)" if "sds_ok t xs free" "n \<le> length xs" for t xs free n
    using that by (simp add: sds_of_def sds_raw_simps sds_ok_type peeks_def)
  then show ?thesis using assms by (simp add: sdscmp_def sdscmp_str_def sdslen_of Let_def)
qed

subsection \<open>Properties\<close>

lemma sds_holdsI: "s = Some (sds_of t xs free) \<Longrightarrow> sds_ok t xs free \<Longrightarrow> \<exists>s'. s = Some s' \<and> sds_holds s' xs"
  by (auto simp: sds_holds_def)

lemma sds_raw_mem: "length (mem (sds_of t ys f)) = length (sds_hdr t (length ys) (length ys + length f)) + length ys + 1 + length f"
  by (simp add: sds_of_def sds_raw_def)

text \<open>
  C16: the operations that may reallocate do, whatever header type the string has and gets,
  what their list counterparts do: they stay inside the allocation they have or make, the
  fields of the new header hold the new length and size without truncation, and the result
  holds the expected content with its terminator. The only hypothesis besides a valid string
  is that the size of the allocation does not overflow \<open>size_t\<close>.
\<close>

theorem sds_growth_refines:
  assumes "sds_holds s xs" "sds_holds u ys" "n \<le> length p" "sds_fits (length xs + length ys + n)"
  shows "(\<exists>s'. sdscatlen junk s p n = Some s' \<and> sds_holds s' (xs @ take n p)) \<and>
    (\<exists>s'. sdscatsds junk s u = Some s' \<and> sds_holds s' (xs @ ys)) \<and>
    (\<exists>s'. sdscpylen junk s p n = Some s' \<and> sds_holds s' (take n p)) \<and>
    (\<exists>s'. sdsgrowzero junk s n = Some s' \<and> sds_holds s' (xs @ replicate (n - length xs) 0)) \<and>
    (\<exists>s'. sdsRemoveFreeSpace junk s = Some s' \<and> sds_holds s' xs) \<and>
    (\<exists>s'. sdsdup junk s = Some s' \<and> sds_holds s' xs)"
proof -
  obtain t free where s: "sds_ok t xs free" "s = sds_of t xs free" using assms(1) by (auto simp: sds_holds_def)
  obtain t2 free2 where u: "sds_ok t2 ys free2" "u = sds_of t2 ys free2" using assms(2) by (auto simp: sds_holds_def)
  have fits: "sds_fits (length xs + n)" "sds_fits (length xs + length ys)" "sds_fits n" "length xs + 18 < 2 ^ 64"
    using assms(4) by (simp_all add: sds_fits_def)
  have body: "drop (sp (sds_of t xs free)) (mem (sds_of t xs free)) = xs @ 0 # free" if "sds_ok t xs free" for t xs free
    using length_sds_hdr [OF sds_ok_type [OF that]] by (simp add: sds_of_def sds_raw_def)
  show ?thesis
  proof (intro conjI)
    show "\<exists>s'. sdscatlen junk s p n = Some s' \<and> sds_holds s' (xs @ take n p)"
      unfolding s(2) by (rule sdscatlen_of [OF s(1) fits(1) assms(3)]) (rule sds_holdsI)
    show "\<exists>s'. sdscatsds junk s u = Some s' \<and> sds_holds s' (xs @ ys)"
      unfolding s(2) u(2) sdscatsds_def sdslen_of [OF u(1)] bind.bind_lunit body [OF u(1)]
      by (rule sdscatlen_of [OF s(1) fits(2), of "ys @ 0 # free2" junk]) (auto simp: sds_holds_def)
    show "\<exists>s'. sdscpylen junk s p n = Some s' \<and> sds_holds s' (take n p)"
      unfolding s(2) by (rule sdscpylen_of [OF s(1) fits(1) assms(3)]) (rule sds_holdsI)
    show "\<exists>s'. sdsgrowzero junk s n = Some s' \<and> sds_holds s' (xs @ replicate (n - length xs) 0)"
      unfolding s(2) by (rule sdsgrowzero_of [OF s(1) fits(3)]) (rule sds_holdsI)
    show "\<exists>s'. sdsRemoveFreeSpace junk s = Some s' \<and> sds_holds s' xs"
      unfolding s(2) by (rule sdsRemoveFreeSpace_of [OF s(1) fits(4)]) (rule sds_holdsI)
    show "\<exists>s'. sdsdup junk s = Some s' \<and> sds_holds s' xs"
      unfolding s(2) sdsdup_def sdslen_of [OF s(1)] bind.bind_lunit body [OF s(1)]
      using sdsnewlen_ok [OF fits(4), of "Some (xs @ 0 # free)" junk] by (auto simp: sds_holds_def)
  qed
qed

theorem sds_growth_refines_witness:
  "\<exists>s'. sdscatlen (\<lambda>_. 7) (sds_of 0 [97, 98] []) (replicate 40 99) 40 = Some s' \<and> sds_holds s' ([97, 98] @ replicate 40 99)"
proof -
  have "sds_holds (sds_of 0 [97, 98] []) [97, 98]" unfolding sds_holds_def by (intro exI [of _ 0] exI [of _ "[]"]) (simp add: sds_ok_def)
  then show ?thesis
    using sds_growth_refines [of "sds_of 0 [97, 98] []" "[97, 98]" "sds_of 0 [97, 98] []" "[97, 98]" 40 "replicate 40 99" "\<lambda>_. 7"]
    by (simp add: sds_fits_def SDS_MAX_PREALLOC_def)
qed

text \<open>
  C17: the operations that work in place keep the allocation and leave in it the substring that
  \<open>start\<close> and \<open>stop\<close> select, the string trimmed of the given bytes (and of zero bytes) at both
  ends, the empty string, or the converted string; \<open>sdscmp\<close> decides the lexicographic order.
\<close>

theorem sds_inplace_refines:
  assumes "sds_holds s xs" "sds_holds u ys" "strlen cset = Some k"
  shows "(\<exists>s'. sdsrange s start stop = Some s' \<and> sds_holds s' (slice start stop xs)) \<and>
    (\<exists>s'. sdstrim s cset = Some s' \<and> sds_holds s' (trim (\<lambda>c. c = 0 \<or> c \<in> set (take k cset)) xs)) \<and>
    (\<exists>s'. sdsclear s = Some s' \<and> sds_holds s' []) \<and>
    (\<exists>s'. sdstolower s = Some s' \<and> sds_holds s' (map tolower xs)) \<and>
    (\<exists>s'. sdstoupper s = Some s' \<and> sds_holds s' (map toupper xs)) \<and>
    sdscmp s u = Some (if xs < ys then -1 else if ys < xs then 1 else 0)"
proof -
  obtain t free where s: "sds_ok t xs free" "s = sds_of t xs free" using assms(1) by (auto simp: sds_holds_def)
  obtain t2 free2 where u: "sds_ok t2 ys free2" "u = sds_of t2 ys free2" using assms(2) by (auto simp: sds_holds_def)
  show ?thesis
  proof (intro conjI)
    show "\<exists>s'. sdsrange s start stop = Some s' \<and> sds_holds s' (slice start stop xs)"
      unfolding s(2) by (rule sdsrange_of [OF s(1)]) (rule sds_holdsI)
    show "\<exists>s'. sdstrim s cset = Some s' \<and> sds_holds s' (trim (\<lambda>c. c = 0 \<or> c \<in> set (take k cset)) xs)"
      unfolding s(2) by (rule sdstrim_of [OF s(1) assms(3)]) (rule sds_holdsI)
    show "\<exists>s'. sdsclear s = Some s' \<and> sds_holds s' []"
      unfolding s(2) by (rule sdsclear_of [OF s(1)]) (rule sds_holdsI)
    show "\<exists>s'. sdstolower s = Some s' \<and> sds_holds s' (map tolower xs)"
      unfolding s(2) sdstolower_def sdslen_of [OF s(1)] using sds_map_of [OF s(1), of "map tolower xs"]
      by (simp add: sds_holds_def) blast
    show "\<exists>s'. sdstoupper s = Some s' \<and> sds_holds s' (map toupper xs)"
      unfolding s(2) sdstoupper_def sdslen_of [OF s(1)] using sds_map_of [OF s(1), of "map toupper xs"]
      by (simp add: sds_holds_def) blast
    show "sdscmp s u = Some (if xs < ys then -1 else if ys < xs then 1 else 0)"
      unfolding s(2) u(2) by (simp add: sdscmp_of [OF s(1) u(1)] sdscmp_str_eq)
  qed
qed

theorem sds_inplace_refines_witness:
  "\<exists>s'. sdsrange (sds_of 0 [97, 98, 99, 100] []) 1 (-2) = Some s' \<and> sds_holds s' [98, 99]"
proof -
  have "sds_holds (sds_of 0 [97, 98, 99, 100] []) [97, 98, 99, 100]"
    unfolding sds_holds_def by (intro exI [of _ 0] exI [of _ "[]"]) (simp add: sds_ok_def)
  moreover have "slice 1 (-2) [97, 98, 99, 100 :: u8] = [98, 99]" by code_simp
  ultimately show ?thesis
    using sds_inplace_refines [of "sds_of 0 [97, 98, 99, 100] []" "[97, 98, 99, 100]" "sds_of 0 [97, 98, 99, 100] []" "[97, 98, 99, 100]" "[0]" 0 1 "-2"]
    by simp
qed

end
