(* ===== verification/Sds_Text.thy ===== *)
theory Sds_Text
  imports Sds "HOL-Library.Sublist"
begin

text \<open>
  The text routines of \<open>sds.c\<close>: splitting and joining, quoting (\<open>sdscatrepr\<close>) and the
  argument splitter of inline commands and configuration lines (\<open>sdssplitargs\<close>). The
  strings they build are given by their contents, \<open>sdscatlen\<close> and \<open>sdsnewlen\<close> being the list
  operations that theory \<open>Sds\<close> shows them to implement; the input buffers are read with bounds.
\<close>

subsection \<open>Definitions\<close>

text \<open>
  The loop of \<open>sdssplitlen\<close>: \<open>j\<close> is the position, \<open>start\<close> the start of the current token;
  \<open>len\<close> and \<open>seplen\<close> are the lengths of the two buffers. The array of tokens grows as needed.
\<close>

function split_loop :: "bytes \<Rightarrow> bytes \<Rightarrow> nat \<Rightarrow> nat \<Rightarrow> bytes list \<Rightarrow> bytes list option" where
  "split_loop s sep j start tokens =
     (if int j < int (length s) - (int (length sep) - 1) \<and> sep \<noteq> [] then do {
        c \<leftarrow> peek s j;
        sep0 \<leftarrow> peek sep 0;
        window \<leftarrow> peeks s j (length sep);
        if (length sep = 1 \<and> c = sep0) \<or> memcmp window sep = 0 then do {
          token \<leftarrow> peeks s start (j - start);
          split_loop s sep (j + length sep) (j + length sep) (tokens @ [token]) }
        else split_loop s sep (j + 1) start tokens }
      else do {
        token \<leftarrow> peeks s start (length s - start);
        Some (tokens @ [token]) })"
  by pat_completeness auto
termination
  by (relation "measure (\<lambda>(s, sep, j, start, tokens). length s - j)")
    (auto simp: peek_def neq_Nil_conv split: if_splits)

text \<open>The result \<open>Some None\<close> is the null pointer.\<close>

definition sdssplitlen :: "bytes \<Rightarrow> bytes \<Rightarrow> bytes list option option" where
  "sdssplitlen s sep =
     (if length sep < 1 then Some None
      else if length s = 0 then Some (Some [])
      else map_option Some (split_loop s sep 0 0 []))"

fun sdsjoinsds :: "bytes list \<Rightarrow> bytes \<Rightarrow> bytes" where
  "sdsjoinsds [] sep = []"
| "sdsjoinsds [x] sep = x"
| "sdsjoinsds (x # y # xs) sep = x @ sep @ sdsjoinsds (y # xs) sep"

fun mapchar :: "u8 \<Rightarrow> bytes \<Rightarrow> bytes \<Rightarrow> u8" where
  "mapchar c (f # from) (t # to) = (if c = f then t else mapchar c from to)"
| "mapchar c _ _ = c"

definition sdsmapchars :: "bytes \<Rightarrow> bytes \<Rightarrow> bytes \<Rightarrow> bytes" where
  "sdsmapchars s from to = map (\<lambda>c. mapchar c from to) s"

text \<open>\<open>isprint\<close> and \<open>isspace\<close> in the C locale.\<close>

definition isprint :: "u8 \<Rightarrow> bool" where
  "isprint c \<longleftrightarrow> 32 \<le> c \<and> c \<le> 126"

definition isspace :: "u8 \<Rightarrow> bool" where
  "isspace c \<longleftrightarrow> c = 32 \<or> (9 \<le> c \<and> c \<le> 13)"

text \<open>The conversion \<open>%02x\<close> of one byte.\<close>

definition hex_char :: "u8 \<Rightarrow> u8" where
  "hex_char d = (if d < 10 then 48 + d else 87 + d)"

definition repr_char :: "u8 \<Rightarrow> bytes" where
  "repr_char c =
     (if c = 92 \<or> c = 34 then [92, c]
      else if c = 10 then [92, 110]
      else if c = 13 then [92, 114]
      else if c = 9 then [92, 116]
      else if c = 7 then [92, 97]
      else if c = 8 then [92, 98]
      else if isprint c then [c]
      else [92, 120, hex_char (drop_bit 4 c), hex_char (c AND 15)])"

definition sdscatrepr :: "bytes \<Rightarrow> bytes \<Rightarrow> bytes" where
  "sdscatrepr s p = s @ [34] @ concat (map repr_char p) @ [34]"

definition is_hex_digit :: "u8 \<Rightarrow> bool" where
  "is_hex_digit c \<longleftrightarrow> (c \<ge> 48 \<and> c \<le> 57) \<or> (c \<ge> 97 \<and> c \<le> 102) \<or> (c \<ge> 65 \<and> c \<le> 70)"

definition hex_digit_to_int :: "u8 \<Rightarrow> u8" where
  "hex_digit_to_int c =
     (if c \<ge> 48 \<and> c \<le> 57 then c - 48
      else if c \<ge> 97 \<and> c \<le> 102 then c - 87
      else if c \<ge> 65 \<and> c \<le> 70 then c - 55 else 0)"

text \<open>
  One turn of the token loop of \<open>sdssplitargs\<close>. The state is the position, the two quoting
  flags, \<open>done\<close> and the token so far; \<open>Inl ()\<close> is the jump to \<open>err\<close>, \<^term>\<open>None\<close> a read outside
  the line. The tests are made in the order of the code, so that no byte behind the terminator
  is read.
\<close>

type_synonym args_state = "nat \<times> bool \<times> bool \<times> bool \<times> bytes"

definition hex_escape :: "bytes \<Rightarrow> nat \<Rightarrow> u8 option option" where
  "hex_escape line p = do {
     c0 \<leftarrow> peek line p;
     if c0 \<noteq> 92 then Some None else do {
     c1 \<leftarrow> peek line (p + 1);
     if c1 \<noteq> 120 then Some None else do {
     c2 \<leftarrow> peek line (p + 2);
     if \<not> is_hex_digit c2 then Some None else do {
     c3 \<leftarrow> peek line (p + 3);
     Some (if is_hex_digit c3 then Some (hex_digit_to_int c2 * 16 + hex_digit_to_int c3) else None) }}}}"

definition unescape :: "u8 \<Rightarrow> u8" where
  "unescape c =
     (if c = 110 then 10 else if c = 114 then 13 else if c = 116 then 9
      else if c = 98 then 8 else if c = 97 then 7 else c)"

definition close_quote :: "bytes \<Rightarrow> nat \<Rightarrow> bool \<Rightarrow> bool \<Rightarrow> bytes \<Rightarrow> (unit + args_state) option" where
  "close_quote line p inq insq current = do {
     c1 \<leftarrow> peek line (p + 1);
     Some (if c1 \<noteq> 0 \<and> \<not> isspace c1 then Inl () else Inr (p, inq, insq, True, current)) }"

definition step_inq :: "bytes \<Rightarrow> nat \<Rightarrow> bytes \<Rightarrow> (unit + args_state) option" where
  "step_inq line p current = do {
     hex \<leftarrow> hex_escape line p;
     case hex of
       Some byte \<Rightarrow> Some (Inr (p + 3, True, False, False, current @ [byte]))
     | None \<Rightarrow> do {
         c \<leftarrow> peek line p;
         c1 \<leftarrow> (if c = 92 then peek line (p + 1) else Some 0);
         if c = 92 \<and> c1 \<noteq> 0 then
           Some (Inr (p + 1, True, False, False, current @ [unescape c1]))
         else if c = 34 then close_quote line p True False current
         else if c = 0 then Some (Inl ())
         else Some (Inr (p, True, False, False, current @ [c])) } }"

definition step_insq :: "bytes \<Rightarrow> nat \<Rightarrow> bytes \<Rightarrow> (unit + args_state) option" where
  "step_insq line p current = do {
     c \<leftarrow> peek line p;
     c1 \<leftarrow> (if c = 92 then peek line (p + 1) else Some 0);
     if c = 92 \<and> c1 = 39 then Some (Inr (p + 1, False, True, False, current @ [39]))
     else if c = 39 then close_quote line p False True current
     else if c = 0 then Some (Inl ())
     else Some (Inr (p, False, True, False, current @ [c])) }"

definition step_plain :: "bytes \<Rightarrow> nat \<Rightarrow> bytes \<Rightarrow> (unit + args_state) option" where
  "step_plain line p current = do {
     c \<leftarrow> peek line p;
     Some (Inr (if c = 32 \<or> c = 10 \<or> c = 13 \<or> c = 9 \<or> c = 0 then (p, False, False, True, current)
       else if c = 34 then (p, True, False, False, current)
       else if c = 39 then (p, False, True, False, current)
       else (p, False, False, False, current @ [c]))) }"

definition args_step :: "bytes \<Rightarrow> nat \<Rightarrow> bool \<Rightarrow> bool \<Rightarrow> bytes \<Rightarrow> (unit + args_state) option" where
  "args_step line p inq insq current =
     (if inq then step_inq line p current
      else if insq then step_insq line p current
      else step_plain line p current)"

lemmas args_step_defs =
  args_step_def step_inq_def step_insq_def step_plain_def close_quote_def hex_escape_def

lemma args_step_progress:
  assumes "args_step line p inq insq current = Some (Inr (p', inq', insq', fin, current'))"
  shows "p \<le> p'" "p < length line" "\<not> fin \<Longrightarrow> p' < length line \<Longrightarrow> line ! p' \<noteq> 0"
  using assms
  by (auto simp: args_step_defs peek_def is_hex_digit_def bind_eq_Some_conv split: if_splits option.splits)

function args_token :: "bytes \<Rightarrow> nat \<Rightarrow> bool \<Rightarrow> bool \<Rightarrow> bytes \<Rightarrow> (nat \<times> bytes) option option" where
  "args_token line p inq insq current =
     (case args_step line p inq insq current of
        None \<Rightarrow> None
      | Some (Inl _) \<Rightarrow> Some None
      | Some (Inr (p', inq', insq', fin, current')) \<Rightarrow>
          (case peek line p' of
             None \<Rightarrow> None
           | Some c \<Rightarrow>
               let p'' = (if c \<noteq> 0 then p' + 1 else p') in
               if fin then Some (Some (p'', current'))
               else args_token line p'' inq' insq' current'))"
  by pat_completeness auto
termination
proof (relation "measure (\<lambda>(line, p, inq, insq, current). length line - p)", goal_cases)
  case (2 line p inq insq current a b p' x inq' xa insq' xb fin current' c p'')
  then have st: "args_step line p inq insq current = Some (Inr (p', inq', insq', fin, current'))"
    and "\<not> fin" "peek line p' = Some c" by simp_all
  then have "c \<noteq> 0" "p' < length line"
    using args_step_progress(3) [OF st] by (auto simp: peek_def split: if_splits)
  then show ?case using args_step_progress(1,2) [OF st] 2 by simp
qed simp

function skip_blanks :: "bytes \<Rightarrow> nat \<Rightarrow> nat option" where
  "skip_blanks line p =
     (case peek line p of
        None \<Rightarrow> None
      | Some c \<Rightarrow> if c \<noteq> 0 \<and> isspace c then skip_blanks line (p + 1) else Some p)"
  by pat_completeness auto
termination
  by (relation "measure (\<lambda>(line, p). length line - p)") (auto simp: peek_def split: if_splits)

declare split_loop.simps [simp del] args_token.simps [simp del] skip_blanks.simps [simp del]

lemma args_token_progress:
  "args_token line p inq insq current = Some (Some (p', tok)) \<Longrightarrow>
    p \<le> p' \<and> (line ! p \<noteq> 0 \<longrightarrow> p < p')"
proof (induction line p inq insq current rule: args_token.induct)
  case (1 line p inq insq current)
  then obtain p1 inq1 insq1 fin current1 c where st:
    "args_step line p inq insq current = Some (Inr (p1, inq1, insq1, fin, current1))" "peek line p1 = Some c"
    by (subst (asm) args_token.simps) (auto split: option.splits sum.splits)
  let ?p = "if c \<noteq> 0 then p1 + 1 else p1"
  note pr = args_step_progress [OF st(1)]
  have c: "c = line ! p1" "p1 < length line" using st(2) by (auto simp: peek_def split: if_splits)
  show ?case
  proof (cases fin)
    case True
    then have "p' = ?p" using 1(2) st by (subst (asm) args_token.simps) simp
    then show ?thesis using pr(1) c by (auto simp: le_less)
  next
    case False
    then have rec: "args_token line ?p inq1 insq1 current1 = Some (Some (p', tok))"
      using 1(2) st by (subst (asm) args_token.simps) (simp add: Let_def)
    have "c \<noteq> 0" using pr(3) [OF False c(2)] c(1) by simp
    have "?p \<le> p'"
      using 1(1) [OF st(1) refl refl refl refl refl st(2) refl False rec] by blast
    then show ?thesis using pr(1) \<open>c \<noteq> 0\<close> by simp
  qed
qed

lemma skip_blanks_progress: "skip_blanks line p = Some p' \<Longrightarrow> p \<le> p' \<and> p' < length line"
proof (induction line p rule: skip_blanks.induct)
  case (1 line p)
  show ?case
    using 1(2) 1(1) by (subst (asm) skip_blanks.simps) (fastforce simp: peek_def split: option.splits if_splits)
qed

text \<open>
  The main loop of \<open>sdssplitargs\<close>; the line is a C string with its terminator. \<open>Some None\<close> is
  the null pointer, returned for unbalanced quotes.
\<close>

function args_loop :: "bytes \<Rightarrow> nat \<Rightarrow> bytes list \<Rightarrow> bytes list option option" where
  "args_loop line p vector =
     (case skip_blanks line p of
        None \<Rightarrow> None
      | Some p' \<Rightarrow>
          if line ! p' \<noteq> 0 then
            (case args_token line p' False False [] of
               None \<Rightarrow> None
             | Some None \<Rightarrow> Some None
             | Some (Some (p'', current)) \<Rightarrow> args_loop line p'' (vector @ [current]))
          else Some (Some vector))"
  by pat_completeness auto
termination
proof (relation "measure (\<lambda>(line, p, vector). length line - p)", goal_cases)
  case (2 line p vector p' tok1 tok2 p'' current)
  then have a: "skip_blanks line p = Some p'" "line ! p' \<noteq> 0"
    "args_token line p' False False [] = Some (Some (p'', current))" by simp_all
  show ?case using skip_blanks_progress [OF a(1)] args_token_progress [OF a(3)] a(2) by auto
qed simp

definition sdssplitargs :: "bytes \<Rightarrow> bytes list option option" where
  "sdssplitargs line = args_loop line 0 []"

declare args_loop.simps [simp del]

subsection \<open>Reading a line at a known position\<close>

lemma peek_at_append:
  "peek (pre @ xs) (length pre) = peek xs 0" "peek (pre @ xs) (Suc (length pre)) = peek xs 1"
  "peek (pre @ xs) (Suc (Suc (length pre))) = peek xs 2"
  "peek (pre @ xs) (Suc (Suc (Suc (length pre)))) = peek xs 3"
  by (simp_all add: peek_def nth_append)

lemma peek_at_append_plus: "peek (pre @ xs) (length pre + i) = peek xs i"
  by (simp add: peek_def)

lemma peek_Cons: "peek (x # xs) 0 = Some x" "peek (x # xs) (Suc i) = peek xs i"
  by (simp_all add: peek_def)

lemma peek_Cons_num: "peek (x # xs) (numeral n) = peek xs (pred_numeral n)"
  by (simp add: peek_Cons numeral_eq_Suc)

lemmas peek_line = peek_at_append peek_at_append_plus peek_Cons peek_Cons_num

subsection \<open>Quoting and splitting\<close>

definition hex_char_ok :: "u8 \<Rightarrow> bool" where
  "hex_char_ok d \<longleftrightarrow> is_hex_digit (hex_char d) \<and> hex_digit_to_int (hex_char d) = d"

lemma hex_char_ok: "d < 16 \<Longrightarrow> hex_char_ok d"
proof -
  assume "d < 16"
  then have "unat d \<in> set [0..<16]" by (simp add: word_less_nat_alt)
  moreover have "list_all (\<lambda>n. hex_char_ok (of_nat n)) [0..<16]" by code_simp
  ultimately have "hex_char_ok (of_nat (unat d))" by (simp only: list_all_iff)
  then show ?thesis by simp
qed

lemma hex_pair:
  "is_hex_digit (hex_char (drop_bit 4 c))" "is_hex_digit (hex_char (c AND 15))"
  "hex_digit_to_int (hex_char (drop_bit 4 c)) * 16 + hex_digit_to_int (hex_char (c AND 15)) = (c :: u8)"
proof -
  have m: "c AND 15 = c mod 16"
    using take_bit_eq_mask [of 4 c] take_bit_eq_mod [of 4 c] by (simp add: mask_eq_exp_minus_1)
  have d: "drop_bit 4 c = c div 16" by (simp add: drop_bit_eq_div)
  have "unat c < 256" using unsigned_less [of c, where ?'a = nat] by simp
  then have l: "c div 16 < 16" "c mod 16 < 16" by (simp_all add: word_less_nat_alt unat_div unat_mod)
  show "is_hex_digit (hex_char (drop_bit 4 c))" "is_hex_digit (hex_char (c AND 15))"
    using hex_char_ok [OF l(1)] hex_char_ok [OF l(2)] by (simp_all add: m d hex_char_ok_def)
  show "hex_digit_to_int (hex_char (drop_bit 4 c)) * 16 + hex_digit_to_int (hex_char (c AND 15)) = c"
    using hex_char_ok [OF l(1)] hex_char_ok [OF l(2)] div_mult_mod_eq [of c 16] by (simp add: m d hex_char_ok_def)
qed

lemma repr_char_step:
  "\<exists>q. args_step (pre @ repr_char c @ rest) (length pre) True False cur = Some (Inr (q, True, False, False, cur @ [c])) \<and>
    q + 1 = length (pre @ repr_char c) \<and> (\<exists>d. peek (pre @ repr_char c @ rest) q = Some d \<and> d \<noteq> 0)"
proof -
  have h: "is_hex_digit (hex_char (drop_bit 4 c))" "is_hex_digit (hex_char (c AND 15))"
    "hex_digit_to_int (hex_char (drop_bit 4 c)) * 16 + hex_digit_to_int (hex_char (c AND 15)) = c"
    by (rule hex_pair)+
  have "hex_char (c AND 15) \<noteq> 0" using h(2) by (auto simp: is_hex_digit_def)
  then show ?thesis
    using h by (auto simp: repr_char_def args_step_defs peek_line unescape_def isprint_def)
qed

lemma quoted_token:
  "args_token (pre @ concat (map repr_char x) @ 34 # e # rest) (length pre) True False cur =
     Some (Some (length pre + length (concat (map repr_char x)) + 1, cur @ x))" if "e = 0 \<or> e = 32"
proof (induction x arbitrary: pre cur)
  case Nil
  have "args_step (pre @ 34 # e # rest) (length pre) True False cur = Some (Inr (length pre, True, False, True, cur))"
    using that by (auto simp: args_step_defs peek_line isspace_def)
  then show ?case by (subst args_token.simps) (simp add: peek_line)
next
  case (Cons c x)
  let ?rest = "concat (map repr_char x) @ 34 # e # rest"
  obtain q d where q: "args_step (pre @ repr_char c @ ?rest) (length pre) True False cur =
      Some (Inr (q, True, False, False, cur @ [c]))" "q + 1 = length (pre @ repr_char c)"
      "peek (pre @ repr_char c @ ?rest) q = Some d" "d \<noteq> 0"
    using repr_char_step [of pre c ?rest cur] by blast
  have "args_token (pre @ repr_char c @ ?rest) (length pre) True False cur =
      args_token ((pre @ repr_char c) @ ?rest) (length (pre @ repr_char c)) True False (cur @ [c])"
    using q by (subst args_token.simps) simp
  then show ?case using Cons [of "pre @ repr_char c" "cur @ [c]"] by simp
qed

lemma repr_token:
  assumes "e = 0 \<or> e = 32"
  shows "args_token (pre @ sdscatrepr [] x @ e # rest) (length pre) False False [] =
     Some (Some (length (pre @ sdscatrepr [] x), x))"
proof -
  let ?line = "pre @ sdscatrepr [] x @ e # rest"
  have "args_step ?line (length pre) False False [] = Some (Inr (length pre, True, False, False, []))"
    by (simp add: args_step_defs peek_line sdscatrepr_def)
  then have "args_token ?line (length pre) False False [] =
      args_token ((pre @ [34]) @ concat (map repr_char x) @ 34 # e # rest) (length (pre @ [34])) True False []"
    by (subst args_token.simps) (simp add: peek_line sdscatrepr_def)
  then show ?thesis using quoted_token [OF assms, of "pre @ [34]" x rest "[]"] by (simp add: sdscatrepr_def)
qed

lemma skip_blanks_one: "skip_blanks (pre @ 34 # rest) (length pre) = Some (length pre)"
  by (subst skip_blanks.simps) (simp add: peek_line isspace_def)

lemma skip_blanks_space: "skip_blanks (pre @ 32 # 34 # rest) (length pre) = Some (Suc (length pre))"
  using skip_blanks_one [of "pre @ [32]" rest]
  by (subst skip_blanks.simps) (simp add: peek_line isspace_def)

lemma skip_blanks_end: "skip_blanks (pre @ 0 # rest) (length pre) = Some (length pre)"
  by (subst skip_blanks.simps) (simp add: peek_line)

lemma sdscatrepr_Cons: "sdscatrepr [] x = 34 # concat (map repr_char x) @ [34]"
  by (simp add: sdscatrepr_def)

text \<open>After each quoted argument the loop is in front of a blank and the next argument, or at the end.\<close>

lemma args_loop_tail:
  "args_loop (pre @ concat (map (\<lambda>x. 32 # sdscatrepr [] x) argv) @ [0]) (length pre) vector = Some (Some (vector @ argv))"
proof (induction argv arbitrary: pre vector)
  case Nil
  then show ?case by (subst args_loop.simps) (simp add: skip_blanks_end)
next
  case (Cons x argv)
  let ?rest = "concat (map (\<lambda>x. 32 # sdscatrepr [] x) argv) @ [0]"
  let ?line = "pre @ 32 # sdscatrepr [] x @ ?rest"
  obtain e rest where e: "?rest = e # rest" "e = 0 \<or> e = 32" by (cases argv) auto
  have "skip_blanks ?line (length pre) = Some (Suc (length pre))"
    using skip_blanks_space [of pre "concat (map repr_char x) @ 34 # ?rest"] by (simp add: sdscatrepr_Cons)
  moreover have "?line ! Suc (length pre) = 34" by (simp add: sdscatrepr_Cons nth_append)
  moreover have "args_token ?line (Suc (length pre)) False False [] = Some (Some (length (pre @ 32 # sdscatrepr [] x), x))"
    using repr_token [OF e(2), of "pre @ [32]" x rest] e(1) by simp
  ultimately have "args_loop ?line (length pre) vector =
      args_loop ((pre @ 32 # sdscatrepr [] x) @ ?rest) (length (pre @ 32 # sdscatrepr [] x)) (vector @ [x])"
    by (subst args_loop.simps) simp
  then show ?case using Cons [of "pre @ 32 # sdscatrepr [] x" "vector @ [x]"] by simp
qed

lemma args_loop_reprs:
  "args_loop (sdsjoinsds (map (sdscatrepr []) argv) [32] @ [0]) 0 [] = Some (Some argv)"
proof (cases argv)
  case Nil
  then show ?thesis using args_loop_tail [of "[]" "[]" "[]"] by simp
next
  case (Cons x xs)
  have join: "sdsjoinsds (sdscatrepr [] x # map (sdscatrepr []) xs) [32] = sdscatrepr [] x @ concat (map (\<lambda>x. 32 # sdscatrepr [] x) xs)"
    for x xs by (induction xs arbitrary: x) simp_all
  let ?rest = "concat (map (\<lambda>x. 32 # sdscatrepr [] x) xs) @ [0]"
  let ?line = "sdscatrepr [] x @ ?rest"
  obtain e rest where e: "?rest = e # rest" "e = 0 \<or> e = 32" by (cases xs) auto
  have "skip_blanks ?line 0 = Some 0"
    using skip_blanks_one [of "[]" "concat (map repr_char x) @ 34 # ?rest"] by (simp add: sdscatrepr_Cons)
  moreover have "?line ! 0 = 34" by (simp add: sdscatrepr_Cons)
  moreover have "args_token ?line 0 False False [] = Some (Some (length (sdscatrepr [] x), x))"
    using repr_token [OF e(2), of "[]" x rest] e(1) by simp
  ultimately have "args_loop ?line 0 [] = args_loop ?line (length (sdscatrepr [] x)) [x]"
    by (subst args_loop.simps) simp
  then show ?thesis using args_loop_tail [of "sdscatrepr [] x" xs "[x]"] Cons by (simp add: join)
qed

subsection \<open>No read behind the terminator\<close>

definition terminated :: "bytes \<Rightarrow> bool" where
  "terminated line \<longleftrightarrow> line \<noteq> [] \<and> last line = 0"

lemma terminated_next:
  assumes "terminated line" "p < length line" "line ! p \<noteq> 0"
  shows "Suc p < length line"
  using assms by (metis Suc_lessI diff_Suc_1 last_conv_nth terminated_def)

lemma is_hex_digit_nonzero: "is_hex_digit c \<Longrightarrow> c \<noteq> 0"
  by (cases "c = 0") (simp_all add: is_hex_digit_def)

lemma hex_escape_safe:
  assumes "terminated line" "p < length line"
  shows "\<exists>r. hex_escape line p = Some r \<and> (r = None \<or> p + 3 < length line)"
proof -
  note nx = terminated_next [OF assms(1)]
  have n1: "line ! p = 92 \<Longrightarrow> p + 1 < length line" using nx [OF assms(2)] by simp
  have n2: "line ! p = 92 \<Longrightarrow> line ! (p + 1) = 120 \<Longrightarrow> p + 2 < length line" using nx [of "p + 1"] n1 by simp
  have n3: "line ! p = 92 \<Longrightarrow> line ! (p + 1) = 120 \<Longrightarrow> is_hex_digit (line ! (p + 2)) \<Longrightarrow> p + 3 < length line"
    using nx [of "p + 2"] n2 is_hex_digit_nonzero [of "line ! (p + 2)"] by simp
  show ?thesis
  proof (cases "line ! p = 92 \<and> line ! (p + 1) = 120 \<and> is_hex_digit (line ! (p + 2))")
    case True
    then show ?thesis using assms(2) n1 n2 n3 by (simp add: hex_escape_def peek_def)
  next
    case False
    then have "hex_escape line p = Some None"
      using assms(2) n1 n2 by (cases "line ! p = 92"; cases "line ! (p + 1) = 120") (simp_all add: hex_escape_def peek_def)
    then show ?thesis by simp
  qed
qed

lemma close_quote_safe:
  assumes "p + 1 < length line"
  shows "close_quote line p inq insq current = Some (Inl ()) \<or>
    close_quote line p inq insq current = Some (Inr (p, inq, insq, True, current))"
  using assms by (simp add: close_quote_def peek_def)

definition step_safe :: "bytes \<Rightarrow> (unit + args_state) option \<Rightarrow> bool" where
  "step_safe line r \<longleftrightarrow> r = Some (Inl ()) \<or> (\<exists>p' st. r = Some (Inr (p', st)) \<and> p' < length line)"

lemma args_step_safe:
  assumes "terminated line" "p < length line"
  shows "step_safe line (args_step line p inq insq current)"
proof -
  have n1: "line ! p \<noteq> 0 \<Longrightarrow> p + 1 < length line" using terminated_next [OF assms] by simp
  have pk: "peek line p = Some (line ! p)" using assms(2) by (simp add: peek_def)
  have pk1: "line ! p \<noteq> 0 \<Longrightarrow> peek line (p + 1) = Some (line ! (p + 1))" using n1 by (simp add: peek_def)
  have cl: "line ! p \<noteq> 0 \<Longrightarrow> step_safe line (close_quote line p inq insq current)" for inq insq
    using close_quote_safe [OF n1, of inq insq current] assms(2) by (auto simp: step_safe_def)
  obtain r where r: "hex_escape line p = Some r" "r = None \<or> p + 3 < length line"
    using hex_escape_safe [OF assms] by blast
  have q: "step_safe line (step_inq line p current)"
  proof (cases r)
    case None
    then show ?thesis using r pk pk1 n1 cl assms(2)
      by (cases "line ! p = 92"; cases "line ! p = 34") (auto simp: step_inq_def step_safe_def)
  qed (use r in \<open>auto simp: step_inq_def step_safe_def\<close>)
  have sq: "step_safe line (step_insq line p current)"
    using pk pk1 n1 cl assms(2)
    by (cases "line ! p = 92"; cases "line ! p = 39") (auto simp: step_insq_def step_safe_def)
  have "step_safe line (step_plain line p current)" using pk assms(2) by (auto simp: step_plain_def step_safe_def)
  with q sq show ?thesis by (simp add: args_step_def)
qed

lemma args_token_safe:
  "terminated line \<Longrightarrow> p < length line \<Longrightarrow>
    \<exists>r. args_token line p inq insq current = Some r \<and> (\<forall>p' tok. r = Some (p', tok) \<longrightarrow> p' < length line)"
proof (induction line p inq insq current rule: args_token.induct)
  case c1: (1 line p inq insq current)
  consider "args_step line p inq insq current = Some (Inl ())"
    | p1 inq1 insq1 fin current1 where
      "args_step line p inq insq current = Some (Inr (p1, inq1, insq1, fin, current1))" "p1 < length line"
    using args_step_safe [OF c1(2,3), of inq insq current] by (auto simp: step_safe_def)
  then show ?case
  proof cases
    case 1
    then show ?thesis by (subst args_token.simps) simp
  next
    case st: (2 p1 inq1 insq1 fin current1)
    let ?p = "if line ! p1 \<noteq> 0 then p1 + 1 else p1"
    have pk: "peek line p1 = Some (line ! p1)" using st(2) by (simp add: peek_def)
    have lt: "?p < length line" using terminated_next [OF c1(2) st(2)] st(2) by simp
    show ?thesis
    proof (cases fin)
      case True
      then show ?thesis using st pk lt by (subst args_token.simps) simp
    next
      case False
      have "\<exists>r. args_token line ?p inq1 insq1 current1 = Some r \<and> (\<forall>p' tok. r = Some (p', tok) \<longrightarrow> p' < length line)"
        using c1(1) [OF st(1) refl refl refl refl refl pk refl False c1(2) lt] .
      then show ?thesis using st pk False by (subst args_token.simps) (simp add: Let_def)
    qed
  qed
qed

lemma skip_blanks_safe:
  "terminated line \<Longrightarrow> p < length line \<Longrightarrow> \<exists>p'. skip_blanks line p = Some p' \<and> p' < length line"
proof (induction line p rule: skip_blanks.induct)
  case (1 line p)
  then have pk: "peek line p = Some (line ! p)" by (simp add: peek_def)
  show ?case
  proof (cases "line ! p \<noteq> 0 \<and> isspace (line ! p)")
    case True
    then show ?thesis
      using 1(1) [OF pk True 1(2)] terminated_next [OF 1(2,3)] pk by (subst skip_blanks.simps) simp
  next
    case False
    then show ?thesis using pk 1(3) by (subst skip_blanks.simps) auto
  qed
qed

lemma args_loop_safe:
  "terminated line \<Longrightarrow> p < length line \<Longrightarrow> args_loop line p vector \<noteq> None"
proof (induction line p vector rule: args_loop.induct)
  case (1 line p vector)
  obtain p1 where p1: "skip_blanks line p = Some p1" "p1 < length line" using skip_blanks_safe [OF 1(2,3)] by blast
  obtain r where r: "args_token line p1 False False [] = Some r" "\<And>p' tok. r = Some (p', tok) \<Longrightarrow> p' < length line"
    using args_token_safe [OF 1(2) p1(2)] by blast
  show ?case
  proof (cases "line ! p1 \<noteq> 0 \<and> r \<noteq> None")
    case True
    then obtain p2 tok where r2: "r = Some (p2, tok)" by auto
    then have "args_loop line p2 (vector @ [tok]) \<noteq> None"
      using 1(1) [OF p1(1) _ _ _ refl 1(2)] True r by simp
    then show ?thesis using p1 True r r2 by (subst args_loop.simps) simp
  next
    case False
    then consider "line ! p1 = 0" | "r = None" by blast
    then show ?thesis using p1 r(1) by cases (subst args_loop.simps, simp)+
  qed
qed

subsection \<open>Splitting and joining\<close>

lemma memcmp_0_iff: "length xs = length ys \<Longrightarrow> memcmp xs ys = 0 \<longleftrightarrow> xs = ys"
  by (induction xs ys rule: list_induct2) auto

definition occurs_at :: "bytes \<Rightarrow> bytes \<Rightarrow> nat \<Rightarrow> bool" where
  "occurs_at sep s k \<longleftrightarrow> take (length sep) (drop k s) = sep"

lemma sublist_occurs:
  assumes "sublist sep (take n (drop start s))"
  obtains k where "start \<le> k" "k + length sep \<le> start + n" "k + length sep \<le> length s \<or> sep = []" "occurs_at sep s k"
proof -
  obtain ps ss where d: "take n (drop start s) = ps @ sep @ ss" using assms by (auto simp: sublist_def)
  then have "length (take n (drop start s)) = length ps + length sep + length ss" by simp
  then have "min (length s - start) n = length ps + length sep + length ss" by (simp only: length_take length_drop)
  then have len: "length ps + length sep \<le> n" "length ps + length sep \<le> length s - start" by simp_all
  have "take (length sep) (drop (length ps) (take n (drop start s))) = sep" using d by simp
  then have "occurs_at sep s (start + length ps)"
    using len(1) by (simp add: occurs_at_def drop_take min_def add.commute split: if_splits)
  then show ?thesis using that [of "start + length ps"] len by (cases sep) auto
qed

definition glue :: "bytes list \<Rightarrow> bytes \<Rightarrow> bytes" where
  "glue tokens sep = concat (map (\<lambda>t. t @ sep) tokens)"

lemma sdsjoinsds_snoc: "sdsjoinsds (tokens @ [t]) sep = glue tokens sep @ t"
proof (induction tokens)
  case (Cons x xs)
  then show ?case by (cases xs) (simp_all add: glue_def)
qed (simp add: glue_def)

lemma split_loop_correct:
  assumes "sep \<noteq> []"
  shows "start \<le> j \<Longrightarrow> j \<le> length s \<Longrightarrow> glue tokens sep = take start s \<Longrightarrow>
    (\<And>k. start \<le> k \<Longrightarrow> k < j \<Longrightarrow> \<not> occurs_at sep s k) \<Longrightarrow> (\<And>t. t \<in> set tokens \<Longrightarrow> \<not> sublist sep t) \<Longrightarrow>
    \<exists>toks. split_loop s sep j start tokens = Some toks \<and> sdsjoinsds toks sep = s \<and> (\<forall>t \<in> set toks. \<not> sublist sep t)"
  using assms
proof (induction s sep j start tokens rule: split_loop.induct)
  case (1 s sep j start tokens)
  let ?m = "length sep"
  show ?case
  proof (cases "j + ?m \<le> length s")
    case False
    have tok: "\<not> sublist sep (drop start s)"
    proof
      assume "sublist sep (drop start s)"
      then have "sublist sep (take (length s - start) (drop start s))" by simp
      then obtain k where "start \<le> k" "k + ?m \<le> length s" "occurs_at sep s k"
        using 1(8) by (elim sublist_occurs) auto
      then show False using 1(6) [of k] False by simp
    qed
    have "split_loop s sep j start tokens = Some (tokens @ [drop start s])"
      using False 1(3,4) by (subst split_loop.simps) (auto simp: peeks_def)
    then show ?thesis using tok 1(5,7) by (auto simp: sdsjoinsds_snoc)
  next
    case True
    then have j: "int j < int (length s) - (int ?m - 1) \<and> sep \<noteq> []" "j < length s"
      using 1(8) by (auto simp: neq_Nil_conv)
    obtain sep0 where sep0: "peek sep 0 = Some sep0" using 1(8) by (cases sep) (auto simp: peek_def)
    let ?w = "take ?m (drop j s)"
    have pk: "peek s j = Some (s ! j)" "peeks s j ?m = Some ?w" using True j by (simp_all add: peek_def peeks_def)
    have cond: "(?m = 1 \<and> s ! j = sep0) \<or> memcmp ?w sep = 0 \<longleftrightarrow> occurs_at sep s j"
      (is "?c \<longleftrightarrow> _")
    proof -
      have "memcmp ?w sep = 0 \<longleftrightarrow> occurs_at sep s j" using True by (simp add: memcmp_0_iff occurs_at_def)
      moreover have "?m = 1 \<Longrightarrow> s ! j = sep0 \<Longrightarrow> occurs_at sep s j"
        using sep0 j by (auto simp: occurs_at_def peek_def length_Suc_conv take_Suc_conv_app_nth
            Cons_nth_drop_Suc [symmetric])
      ultimately show ?thesis by blast
    qed
    let ?tok = "take (j - start) (drop start s)"
    have tk: "peeks s start (j - start) = Some ?tok" using 1(3,4) by (simp add: peeks_def)
    show ?thesis
    proof (cases "occurs_at sep s j")
      case occ: True
      have nosub: "\<not> sublist sep ?tok"
      proof
        assume "sublist sep ?tok"
        then obtain k where "start \<le> k" "k + ?m \<le> start + (j - start)" "occurs_at sep s k" by (rule sublist_occurs)
        moreover have "0 < ?m" using 1(8) by simp
        ultimately show False using 1(6) [of k] 1(3) by simp
      qed
      have "take (j + ?m) s = take start s @ ?tok @ sep"
        using occ 1(3) take_add [of start "j - start" s] by (simp add: take_add occurs_at_def)
      then have "glue (tokens @ [?tok]) sep = take (j + ?m) s" using 1(5) by (simp add: glue_def)
      then have "\<exists>toks. split_loop s sep (j + ?m) (j + ?m) (tokens @ [?tok]) = Some toks \<and> sdsjoinsds toks sep = s \<and>
          (\<forall>t \<in> set toks. \<not> sublist sep t)"
        using 1(1) [OF j(1) pk(1) sep0 pk(2) _ tk] cond occ True nosub 1(7,8) by auto
      then show ?thesis using j pk sep0 cond occ tk by (subst split_loop.simps) simp
    next
      case nocc: False
      then have "\<not> occurs_at sep s k" if "start \<le> k" "k < j + 1" for k
        using 1(6) [of k] that by (cases "k = j") auto
      then have "\<exists>toks. split_loop s sep (j + 1) start tokens = Some toks \<and> sdsjoinsds toks sep = s \<and>
          (\<forall>t \<in> set toks. \<not> sublist sep t)"
        using 1(2) [OF j(1) pk(1) sep0 pk(2)] cond nocc j(2) 1(3,5,7,8) by auto
      then show ?thesis using j pk sep0 cond nocc by (subst split_loop.simps) auto
    qed
  qed
qed

subsection \<open>Properties\<close>

text \<open>
  C18: \<open>sdssplitargs\<close> terminates on every C string without reading behind its terminator, and
  gives back any list of byte strings that \<open>sdscatrepr\<close> has quoted and blanks separate.
\<close>

theorem sdssplitargs_sdscatrepr:
  "sdssplitargs (line @ [0]) \<noteq> None \<and>
   sdssplitargs (sdsjoinsds (map (sdscatrepr []) argv) [32] @ [0]) = Some (Some argv)"
  using args_loop_safe [of "line @ [0]" 0 "[]"] args_loop_reprs [of argv]
  by (simp add: sdssplitargs_def terminated_def)

text \<open>
  C19: on a non-empty string and separator, \<open>sdssplitlen\<close> stays inside its buffers and cuts the
  string at the separator: no token contains it, and joining the tokens gives the string back.
\<close>

theorem sdssplitlen_joins:
  assumes "s \<noteq> []" "sep \<noteq> []"
  shows "\<exists>toks. sdssplitlen s sep = Some (Some toks) \<and> sdsjoinsds toks sep = s \<and> (\<forall>t \<in> set toks. \<not> sublist sep t)"
proof -
  obtain toks where "split_loop s sep 0 0 [] = Some toks" "sdsjoinsds toks sep = s" "\<forall>t \<in> set toks. \<not> sublist sep t"
    using split_loop_correct [OF assms(2), of 0 0 s "[]"] by (auto simp: glue_def)
  moreover have "\<not> length sep < 1" using assms(2) by (cases sep) simp_all
  ultimately show ?thesis using assms by (simp add: sdssplitlen_def)
qed

theorem sdssplitlen_joins_witness:
  "\<exists>toks. sdssplitlen [97, 45, 45, 45, 98] [45, 45] = Some (Some toks) \<and> sdsjoinsds toks [45, 45] = [97, 45, 45, 45, 98] \<and>
    (\<forall>t \<in> set toks. \<not> sublist [45, 45] t)"
  by (rule sdssplitlen_joins) simp_all

end
