(* ===== verification/Skiplist.thy ===== *)
theory Skiplist
  imports Sds
begin

text \<open>
  The skip list of \<open>t_zset.c\<close> (low level API). Nodes live in a heap, a partial map from
  addresses to nodes; a pointer is an address or \<open>NULL\<close> (\<^term>\<open>None\<close>). A node has, for each
  of its levels, a forward pointer and a span, the number of nodes the pointer crosses, which
  is an \<open>unsigned int\<close>. Following a \<open>NULL\<close> or dangling pointer, or accessing a level that a node
  does not have, is \<^term>\<open>None\<close>.

  Scores are values of a linear order: \<open>double\<close> without \<open>NaN\<close>, which \<open>zslInsert\<close> asserts not to be
  given. Elements are the contents of \<open>sds\<close> strings; the header has none. The random numbers and
  the address of a new node are arguments.
\<close>

subsection \<open>Data\<close>

record 's zskiplistNode =
  ele :: "bytes option"
  score :: 's
  backward :: "nat option"
  level :: "(nat option \<times> u32) list"

record zskiplist =
  zsl_header :: nat
  zsl_tail :: "nat option"
  zsl_length :: nat
  zsl_level :: nat

type_synonym 's zheap = "nat \<Rightarrow> 's zskiplistNode option"

abbreviation (input) ZSKIPLIST_MAXLEVEL :: nat where "ZSKIPLIST_MAXLEVEL \<equiv> 32"

text \<open>Memory accesses: \<open>x->level[i]\<close> and the assignments to it.\<close>

definition get_level :: "'s zheap \<Rightarrow> nat \<Rightarrow> nat \<Rightarrow> (nat option \<times> u32) option" where
  "get_level h x i = do { n \<leftarrow> h x; peek (level n) i }"

definition set_level :: "'s zheap \<Rightarrow> nat \<Rightarrow> nat \<Rightarrow> nat option \<times> u32 \<Rightarrow> 's zheap option" where
  "set_level h x i e = do {
     n \<leftarrow> h x;
     if i < length (level n) then Some (h(x \<mapsto> n\<lparr>level := (level n)[i := e]\<rparr>)) else None }"

definition set_backward :: "'s zheap \<Rightarrow> nat \<Rightarrow> nat option \<Rightarrow> 's zheap option" where
  "set_backward h x b = do { n \<leftarrow> h x; Some (h(x \<mapsto> n\<lparr>backward := b\<rparr>)) }"

text \<open>A loop over the levels.\<close>

primrec for_levels :: "(nat \<Rightarrow> 'a \<Rightarrow> 'a option) \<Rightarrow> nat list \<Rightarrow> 'a \<Rightarrow> 'a option" where
  "for_levels body [] a = Some a"
| "for_levels body (i # ls) a = do { a \<leftarrow> body i a; for_levels body ls a }"

subsection \<open>Creation\<close>

text \<open>The fields of a fresh node that are not set are indeterminate; they are given by \<open>junk\<close>.\<close>

type_synonym junk = "nat \<Rightarrow> nat option \<times> u32"

definition zslCreateNode :: "junk \<Rightarrow> 's zheap \<Rightarrow> nat \<Rightarrow> nat \<Rightarrow> 's \<Rightarrow> bytes option \<Rightarrow> 's zheap" where
  "zslCreateNode junk h a lvl sc e =
     h(a \<mapsto> \<lparr>ele = e, score = sc, backward = fst (junk lvl), level = map junk [0..<lvl]\<rparr>)"

definition zslCreate :: "junk \<Rightarrow> 's::zero zheap \<Rightarrow> nat \<Rightarrow> ('s zheap \<times> zskiplist) option" where
  "zslCreate junk h a = do {
     let h = zslCreateNode junk h a ZSKIPLIST_MAXLEVEL 0 None;
     h \<leftarrow> for_levels (\<lambda>j h. set_level h a j (None, 0)) [0..<ZSKIPLIST_MAXLEVEL] h;
     h \<leftarrow> set_backward h a None;
     Some (h, \<lparr>zsl_header = a, zsl_tail = None, zsl_length = 0, zsl_level = 1\<rparr>) }"

text \<open>
  \<open>ZSKIPLIST_P * 0xFFFF\<close> is 16383.75. The \<open>n\<close>-th call of \<open>random\<close> returns \<open>rnd n\<close>; a loop that
  never ends is \<^term>\<open>None\<close>.
\<close>

partial_function (option) random_level :: "(nat \<Rightarrow> nat) \<Rightarrow> nat \<Rightarrow> nat \<Rightarrow> nat option" where
  "random_level rnd n lvl =
     (if rnd n mod 0x10000 \<le> 16383 then random_level rnd (n + 1) (lvl + 1) else Some lvl)"

definition zslRandomLevel :: "(nat \<Rightarrow> nat) \<Rightarrow> nat option" where
  "zslRandomLevel rnd = do {
     lvl \<leftarrow> random_level rnd 0 1;
     Some (if lvl < ZSKIPLIST_MAXLEVEL then lvl else ZSKIPLIST_MAXLEVEL) }"

text \<open>The nodes that \<open>zslFree\<close> releases, in order, the header first.\<close>

partial_function (option) free_loop :: "'s zheap \<Rightarrow> nat option \<Rightarrow> nat list option" where
  "free_loop h node =
     (case node of
        None \<Rightarrow> Some []
      | Some x \<Rightarrow> do {
          (nx, _) \<leftarrow> get_level h x 0;
          xs \<leftarrow> free_loop h nx;
          Some (x # xs) })"

definition zslFree :: "'s zheap \<Rightarrow> zskiplist \<Rightarrow> nat list option" where
  "zslFree h zsl = do {
     (node, _) \<leftarrow> get_level h (zsl_header zsl) 0;
     xs \<leftarrow> free_loop h node;
     Some (zsl_header zsl # xs) }"

subsection \<open>Walks\<close>

text \<open>
  The inner loop shared by all searches: from \<open>x\<close>, follow the forward pointers of level \<open>i\<close> as long
  as \<open>adv\<close> holds for the rank reached so far, the span of the pointer and the node it leads to;
  the ranks crossed are added up. \<open>walk_down\<close> is the outer loop over the levels, which records
  for each level the node reached (\<open>update[i]\<close>) and its rank (\<open>rank[i]\<close>).
\<close>

partial_function (option) walk_level ::
  "'s zheap \<Rightarrow> (nat \<Rightarrow> nat \<Rightarrow> 's zskiplistNode \<Rightarrow> bool) \<Rightarrow> nat \<Rightarrow> nat \<Rightarrow> nat \<Rightarrow> (nat \<times> nat) option" where
  "walk_level h adv i x rank = do {
     (f, span) \<leftarrow> get_level h x i;
     case f of
       None \<Rightarrow> Some (x, rank)
     | Some y \<Rightarrow> do {
         n \<leftarrow> h y;
         if adv rank (unat span) n then walk_level h adv i y (rank + unat span) else Some (x, rank) } }"

fun walk_down ::
  "'s zheap \<Rightarrow> (nat \<Rightarrow> nat \<Rightarrow> 's zskiplistNode \<Rightarrow> bool) \<Rightarrow> nat \<Rightarrow> nat \<Rightarrow> nat \<Rightarrow> (nat \<times> nat \<times> (nat \<times> nat) list) option" where
  "walk_down h adv 0 x rank = Some (x, rank, [])"
| "walk_down h adv (Suc i) x rank = do {
     (x, rank) \<leftarrow> walk_level h adv i x rank;
     (y, r, us) \<leftarrow> walk_down h adv i x rank;
     Some (y, r, us @ [(x, rank)]) }"

text \<open>The loop condition of \<open>zslInsert\<close> and \<open>zslDelete\<close>: the next node is before the given score and element.\<close>

definition node_before :: "'s::linorder \<Rightarrow> bytes \<Rightarrow> nat \<Rightarrow> nat \<Rightarrow> 's zskiplistNode \<Rightarrow> bool" where
  "node_before sc e rank span n \<longleftrightarrow>
     score n < sc \<or> (score n = sc \<and> (case ele n of Some e' \<Rightarrow> sdscmp_str e' e < 0 | None \<Rightarrow> False))"

subsection \<open>Insertion\<close>

text \<open>
  \<open>update\<close> and \<open>rank\<close> are the two arrays, given as functions of the level; ranks are of type
  \<open>unsigned int\<close>.
\<close>

definition raise_level :: "zskiplist \<Rightarrow> nat \<Rightarrow> 's zheap \<Rightarrow> 's zheap option" where
  "raise_level zsl i h = do {
     (f, _) \<leftarrow> get_level h (zsl_header zsl) i;
     set_level h (zsl_header zsl) i (f, of_nat (zsl_length zsl)) }"

definition link_level :: "nat \<Rightarrow> (nat \<Rightarrow> nat) \<Rightarrow> (nat \<Rightarrow> u32) \<Rightarrow> nat \<Rightarrow> 's zheap \<Rightarrow> 's zheap option" where
  "link_level x update rank i h = do {
     (f, span) \<leftarrow> get_level h (update i) i;
     h \<leftarrow> set_level h x i (f, span - (rank 0 - rank i));
     set_level h (update i) i (Some x, (rank 0 - rank i) + 1) }"

definition bump_level :: "(nat \<Rightarrow> nat) \<Rightarrow> nat \<Rightarrow> 's zheap \<Rightarrow> 's zheap option" where
  "bump_level update i h = do {
     (f, span) \<leftarrow> get_level h (update i) i;
     set_level h (update i) i (f, span + 1) }"

definition zslInsert ::
  "(nat \<Rightarrow> nat) \<Rightarrow> junk \<Rightarrow> nat \<Rightarrow> 's::linorder zheap \<Rightarrow> zskiplist \<Rightarrow> 's \<Rightarrow> bytes \<Rightarrow> ('s zheap \<times> zskiplist) option" where
  "zslInsert rnd junk a h zsl sc e = do {
     (x, r, us) \<leftarrow> walk_down h (node_before sc e) (zsl_level zsl) (zsl_header zsl) 0;
     lvl \<leftarrow> zslRandomLevel rnd;
     let oldlevel = zsl_level zsl;
     let update = (\<lambda>i. if i < oldlevel then fst (us ! i) else zsl_header zsl);
     let rank = (\<lambda>i. if i < oldlevel then of_nat (snd (us ! i)) else 0);
     h \<leftarrow> for_levels (raise_level zsl) [oldlevel..<lvl] h;
     let zsl = (if lvl > oldlevel then zsl\<lparr>zsl_level := lvl\<rparr> else zsl);
     let h = zslCreateNode junk h a lvl sc (Some e);
     h \<leftarrow> for_levels (link_level a update rank) [0..<lvl] h;
     h \<leftarrow> for_levels (bump_level update) [lvl..<zsl_level zsl] h;
     h \<leftarrow> set_backward h a (if update 0 = zsl_header zsl then None else Some (update 0));
     (f, _) \<leftarrow> get_level h a 0;
     (h, zsl) \<leftarrow> (case f of
         Some y \<Rightarrow> do { h \<leftarrow> set_backward h y (Some a); Some (h, zsl) }
       | None \<Rightarrow> Some (h, zsl\<lparr>zsl_tail := Some a\<rparr>));
     Some (h, zsl\<lparr>zsl_length := zsl_length zsl + 1\<rparr>) }"

subsection \<open>Deletion\<close>

definition unlink_level :: "nat \<Rightarrow> (nat \<Rightarrow> nat) \<Rightarrow> nat \<Rightarrow> 's zheap \<Rightarrow> 's zheap option" where
  "unlink_level x update i h = do {
     (f, span) \<leftarrow> get_level h (update i) i;
     if f = Some x then do {
       (xf, xspan) \<leftarrow> get_level h x i;
       set_level h (update i) i (xf, span + (xspan - 1)) }
     else set_level h (update i) i (f, span - 1) }"

fun lower_level :: "'s zheap \<Rightarrow> nat \<Rightarrow> nat \<Rightarrow> nat option" where
  "lower_level h hdr (Suc (Suc i)) = do {
     (f, _) \<leftarrow> get_level h hdr (Suc i);
     if f = None then lower_level h hdr (Suc i) else Some (Suc (Suc i)) }"
| "lower_level h hdr n = Some n"

definition zslDeleteNode ::
  "'s zheap \<Rightarrow> zskiplist \<Rightarrow> nat \<Rightarrow> (nat \<Rightarrow> nat) \<Rightarrow> ('s zheap \<times> zskiplist) option" where
  "zslDeleteNode h zsl x update = do {
     h \<leftarrow> for_levels (unlink_level x update) [0..<zsl_level zsl] h;
     nx \<leftarrow> h x;
     (f, _) \<leftarrow> get_level h x 0;
     (h, zsl) \<leftarrow> (case f of
         Some y \<Rightarrow> do { h \<leftarrow> set_backward h y (backward nx); Some (h, zsl) }
       | None \<Rightarrow> Some (h, zsl\<lparr>zsl_tail := backward nx\<rparr>));
     lvl \<leftarrow> lower_level h (zsl_header zsl) (zsl_level zsl);
     Some (h, zsl\<lparr>zsl_level := lvl, zsl_length := zsl_length zsl - 1\<rparr>) }"

definition zslFreeNode :: "'s zheap \<Rightarrow> nat \<Rightarrow> 's zheap" where
  "zslFreeNode h x = h(x := None)"

text \<open>\<open>keep\<close> says that the caller wants the unlinked node back (the argument \<open>node\<close> is not \<open>NULL\<close>).\<close>

definition zslDelete ::
  "'s::linorder zheap \<Rightarrow> zskiplist \<Rightarrow> 's \<Rightarrow> bytes \<Rightarrow> bool \<Rightarrow> ('s zheap \<times> zskiplist \<times> nat option) option" where
  "zslDelete h zsl sc e keep = do {
     (x, r, us) \<leftarrow> walk_down h (node_before sc e) (zsl_level zsl) (zsl_header zsl) 0;
     let update = (\<lambda>i. fst (us ! i));
     (f, _) \<leftarrow> get_level h x 0;
     case f of
       None \<Rightarrow> Some (h, zsl, None)
     | Some x \<Rightarrow> do {
         n \<leftarrow> h x;
         if sc = score n \<and> (case ele n of Some e' \<Rightarrow> sdscmp_str e' e = 0 | None \<Rightarrow> False)
         then do {
           (h, zsl) \<leftarrow> zslDeleteNode h zsl x update;
           Some (if keep then h else zslFreeNode h x, zsl, Some x) }
         else Some (h, zsl, None) } }"

subsection \<open>Ranks\<close>

definition node_upto :: "'s::linorder \<Rightarrow> bytes \<Rightarrow> nat \<Rightarrow> nat \<Rightarrow> 's zskiplistNode \<Rightarrow> bool" where
  "node_upto sc e rank span n \<longleftrightarrow>
     score n < sc \<or> (score n = sc \<and> (case ele n of Some e' \<Rightarrow> sdscmp_str e' e \<le> 0 | None \<Rightarrow> False))"

fun get_rank_loop :: "'s::linorder zheap \<Rightarrow> 's \<Rightarrow> bytes \<Rightarrow> nat \<Rightarrow> nat \<Rightarrow> nat \<Rightarrow> nat option" where
  "get_rank_loop h sc e 0 x rank = Some 0"
| "get_rank_loop h sc e (Suc i) x rank = do {
     (x, rank) \<leftarrow> walk_level h (node_upto sc e) i x rank;
     n \<leftarrow> h x;
     if (case ele n of Some e' \<Rightarrow> sdscmp_str e' e = 0 | None \<Rightarrow> False) then Some rank
     else get_rank_loop h sc e i x rank }"

definition zslGetRank :: "'s::linorder zheap \<Rightarrow> zskiplist \<Rightarrow> 's \<Rightarrow> bytes \<Rightarrow> nat option" where
  "zslGetRank h zsl sc e = get_rank_loop h sc e (zsl_level zsl) (zsl_header zsl) 0"

fun by_rank_loop :: "'s zheap \<Rightarrow> nat \<Rightarrow> nat \<Rightarrow> nat \<Rightarrow> nat \<Rightarrow> nat option option" where
  "by_rank_loop h rank 0 x traversed = Some None"
| "by_rank_loop h rank (Suc i) x traversed = do {
     (x, traversed) \<leftarrow> walk_level h (\<lambda>traversed span n. traversed + span \<le> rank) i x traversed;
     if traversed = rank then Some (Some x) else by_rank_loop h rank i x traversed }"

definition zslGetElementByRank :: "'s zheap \<Rightarrow> zskiplist \<Rightarrow> nat \<Rightarrow> nat option option" where
  "zslGetElementByRank h zsl rank = by_rank_loop h rank (zsl_level zsl) (zsl_header zsl) 0"

subsection \<open>Score ranges\<close>

record 's zrangespec =
  rmin :: 's
  rmax :: 's
  minex :: bool
  maxex :: bool

definition zslValueGteMin :: "'s::linorder \<Rightarrow> 's zrangespec \<Rightarrow> bool" where
  "zslValueGteMin v spec = (if minex spec then v > rmin spec else v \<ge> rmin spec)"

definition zslValueLteMax :: "'s::linorder \<Rightarrow> 's zrangespec \<Rightarrow> bool" where
  "zslValueLteMax v spec = (if maxex spec then v < rmax spec else v \<le> rmax spec)"

definition zslIsInRange :: "'s::linorder zheap \<Rightarrow> zskiplist \<Rightarrow> 's zrangespec \<Rightarrow> bool option" where
  "zslIsInRange h zsl rng =
     (if rmin rng > rmax rng \<or> (rmin rng = rmax rng \<and> (minex rng \<or> maxex rng))
      then Some False
      else case zsl_tail zsl of
        None \<Rightarrow> Some False
      | Some x \<Rightarrow> do {
          n \<leftarrow> h x;
          if \<not> zslValueGteMin (score n) rng then Some False
          else do {
            (f, _) \<leftarrow> get_level h (zsl_header zsl) 0;
            case f of
              None \<Rightarrow> Some False
            | Some x \<Rightarrow> do {
                n \<leftarrow> h x;
                Some (zslValueLteMax (score n) rng) } } })"

text \<open>The inner \<open>Some None\<close> is the null pointer, the outer \<^term>\<open>None\<close> a failed assertion or a bad access.\<close>

definition zslFirstInRange :: "'s::linorder zheap \<Rightarrow> zskiplist \<Rightarrow> 's zrangespec \<Rightarrow> nat option option" where
  "zslFirstInRange h zsl rng = do {
     inr \<leftarrow> zslIsInRange h zsl rng;
     if \<not> inr then Some None
     else do {
       (x, _) \<leftarrow> walk_down h (\<lambda>r span n. \<not> zslValueGteMin (score n) rng) (zsl_level zsl) (zsl_header zsl) 0;
       (f, _) \<leftarrow> get_level h x 0;
       case f of
         None \<Rightarrow> None
       | Some x \<Rightarrow> do {
           n \<leftarrow> h x;
           Some (if zslValueLteMax (score n) rng then Some x else None) } } }"

definition zslLastInRange :: "'s::linorder zheap \<Rightarrow> zskiplist \<Rightarrow> 's zrangespec \<Rightarrow> nat option option" where
  "zslLastInRange h zsl rng = do {
     inr \<leftarrow> zslIsInRange h zsl rng;
     if \<not> inr then Some None
     else do {
       (x, _) \<leftarrow> walk_down h (\<lambda>r span n. zslValueLteMax (score n) rng) (zsl_level zsl) (zsl_header zsl) 0;
       n \<leftarrow> h x;
       Some (if zslValueGteMin (score n) rng then Some x else None) } }"

subsection \<open>Lexicographic ranges\<close>

text \<open>
  The bounds of a lexicographic range are strings or one of the two shared objects \<open>minstring\<close> and
  \<open>maxstring\<close>, which \<open>sdscmplex\<close> recognises by their addresses; their contents, which \<open>sdscmp\<close>
  sees, are the strings of the same names (\<open>createSharedObjects\<close> in \<open>server.c\<close>).
\<close>

datatype lexstr = MinString | MaxString | LexStr bytes

record zlexrangespec =
  lmin :: lexstr
  lmax :: lexstr
  lminex :: bool
  lmaxex :: bool

definition lex_content :: "lexstr \<Rightarrow> bytes" where
  "lex_content s = (case s of
     MinString \<Rightarrow> map of_char ''minstring'' | MaxString \<Rightarrow> map of_char ''maxstring'' | LexStr b \<Rightarrow> b)"

definition zslParseLexRangeItem :: "bytes \<Rightarrow> (lexstr \<times> bool) option" where
  "zslParseLexRangeItem c =
     (if c = [] then None
      else if c ! 0 = of_char (CHR ''+'') then (if length c > 1 \<and> c ! 1 \<noteq> 0 then None else Some (MaxString, False))
      else if c ! 0 = of_char (CHR ''-'') then (if length c > 1 \<and> c ! 1 \<noteq> 0 then None else Some (MinString, False))
      else if c ! 0 = of_char (CHR ''('') then Some (LexStr (drop 1 c), True)
      else if c ! 0 = of_char (CHR ''['') then Some (LexStr (drop 1 c), False)
      else None)"

text \<open>The arguments of the range commands: integer encoded string objects are refused. \<open>C_ERR\<close> is \<^term>\<open>None\<close>.\<close>

definition zslParseLexRange :: "string_robj \<Rightarrow> string_robj \<Rightarrow> zlexrangespec option" where
  "zslParseLexRange omin omax = (case (omin, omax) of
     (StrEnc cmin, StrEnc cmax) \<Rightarrow> do {
       (mn, mnex) \<leftarrow> zslParseLexRangeItem cmin;
       (mx, mxex) \<leftarrow> zslParseLexRangeItem cmax;
       Some \<lparr>lmin = mn, lmax = mx, lminex = mnex, lmaxex = mxex\<rparr> }
   | _ \<Rightarrow> None)"

text \<open>Whether two of these pointers are equal: a string that was parsed is a new object.\<close>

definition same_object :: "lexstr \<Rightarrow> lexstr \<Rightarrow> bool" where
  "same_object a b \<longleftrightarrow> (a = MinString \<and> b = MinString) \<or> (a = MaxString \<and> b = MaxString)"

text \<open>
  The C library promises of \<open>memcmp\<close> only the sign of its result, and \<open>zslIsInLexRange\<close> tests the
  magnitude of what \<open>sdscmp\<close> makes of it. The functions below take the \<open>memcmp\<close> of the platform as
  their parameter \<open>mc\<close>; \<open>sdscmp_with\<close> is \<open>sdscmp\<close> on the contents of two strings.
\<close>

definition memcmp_sign :: "(bytes \<Rightarrow> bytes \<Rightarrow> int) \<Rightarrow> bool" where
  "memcmp_sign mc \<longleftrightarrow> (\<forall>a b. length a = length b \<longrightarrow> sgn (mc a b) = memcmp a b)"

definition sdscmp_with :: "(bytes \<Rightarrow> bytes \<Rightarrow> int) \<Rightarrow> bytes \<Rightarrow> bytes \<Rightarrow> int" where
  "sdscmp_with mc s1 s2 =
     (let l1 = length s1; l2 = length s2;
          minlen = (if l1 < l2 then l1 else l2);
          cmp = mc (take minlen s1) (take minlen s2)
      in if cmp = 0 then (if l1 > l2 then 1 else if l1 < l2 then -1 else 0) else cmp)"

definition sdscmplex :: "(bytes \<Rightarrow> bytes \<Rightarrow> int) \<Rightarrow> lexstr \<Rightarrow> lexstr \<Rightarrow> int" where
  "sdscmplex mc a b =
     (if same_object a b then 0
      else if a = MinString \<or> b = MaxString then -1
      else if a = MaxString \<or> b = MinString then 1
      else sdscmp_with mc (lex_content a) (lex_content b))"

definition zslLexValueGteMin :: "(bytes \<Rightarrow> bytes \<Rightarrow> int) \<Rightarrow> bytes \<Rightarrow> zlexrangespec \<Rightarrow> bool" where
  "zslLexValueGteMin mc v spec =
     (if lminex spec then sdscmplex mc (LexStr v) (lmin spec) > 0 else sdscmplex mc (LexStr v) (lmin spec) \<ge> 0)"

definition zslLexValueLteMax :: "(bytes \<Rightarrow> bytes \<Rightarrow> int) \<Rightarrow> bytes \<Rightarrow> zlexrangespec \<Rightarrow> bool" where
  "zslLexValueLteMax mc v spec =
     (if lmaxex spec then sdscmplex mc (LexStr v) (lmax spec) < 0 else sdscmplex mc (LexStr v) (lmax spec) \<le> 0)"

definition zslIsInLexRange :: "(bytes \<Rightarrow> bytes \<Rightarrow> int) \<Rightarrow> 's zheap \<Rightarrow> zskiplist \<Rightarrow> zlexrangespec \<Rightarrow> bool option" where
  "zslIsInLexRange mc h zsl rng =
     (if sdscmplex mc (lmin rng) (lmax rng) > 1 \<or>
         (sdscmp_with mc (lex_content (lmin rng)) (lex_content (lmax rng)) = 0 \<and> (lminex rng \<or> lmaxex rng))
      then Some False
      else case zsl_tail zsl of
        None \<Rightarrow> Some False
      | Some x \<Rightarrow> do {
          n \<leftarrow> h x;
          e \<leftarrow> ele n;
          if \<not> zslLexValueGteMin mc e rng then Some False
          else do {
            (f, _) \<leftarrow> get_level h (zsl_header zsl) 0;
            case f of
              None \<Rightarrow> Some False
            | Some x \<Rightarrow> do {
                n \<leftarrow> h x;
                e \<leftarrow> ele n;
                Some (zslLexValueLteMax mc e rng) } } })"

definition zslFirstInLexRange :: "(bytes \<Rightarrow> bytes \<Rightarrow> int) \<Rightarrow> 's zheap \<Rightarrow> zskiplist \<Rightarrow> zlexrangespec \<Rightarrow> nat option option" where
  "zslFirstInLexRange mc h zsl rng = do {
     inr \<leftarrow> zslIsInLexRange mc h zsl rng;
     if \<not> inr then Some None
     else do {
       (x, _) \<leftarrow> walk_down h (\<lambda>r span n. \<not> zslLexValueGteMin mc (the (ele n)) rng) (zsl_level zsl) (zsl_header zsl) 0;
       (f, _) \<leftarrow> get_level h x 0;
       case f of
         None \<Rightarrow> None
       | Some x \<Rightarrow> do {
           n \<leftarrow> h x;
           e \<leftarrow> ele n;
           Some (if zslLexValueLteMax mc e rng then Some x else None) } } }"

definition zslLastInLexRange :: "(bytes \<Rightarrow> bytes \<Rightarrow> int) \<Rightarrow> 's zheap \<Rightarrow> zskiplist \<Rightarrow> zlexrangespec \<Rightarrow> nat option option" where
  "zslLastInLexRange mc h zsl rng = do {
     inr \<leftarrow> zslIsInLexRange mc h zsl rng;
     if \<not> inr then Some None
     else do {
       (x, _) \<leftarrow> walk_down h (\<lambda>r span n. zslLexValueLteMax mc (the (ele n)) rng) (zsl_level zsl) (zsl_header zsl) 0;
       n \<leftarrow> h x;
       e \<leftarrow> ele n;
       Some (if zslLexValueGteMin mc e rng then Some x else None) } }"

end
