(* ===== verification/Skiplist_Refine.thy ===== *)
theory Skiplist_Refine
  imports Skiplist "HOL-Library.Product_Lexorder"
begin

text \<open>
  The invariant of the skip list and its refinement to a sorted list of pairs of score and
  element. The abstract state is given by three lists of the same length: the addresses \<open>ps\<close>,
  the heights \<open>hs\<close> and the keys \<open>ks\<close> of the nodes in the order of level 0. Every forward pointer and
  every span is determined by them (\<open>lnk\<close>): the pointer of level \<open>i\<close> leads to the next node that is
  higher than \<open>i\<close>, the span is its distance, or the distance to the end of the list.
\<close>

subsection \<open>The links\<close>

fun nxt :: "nat \<Rightarrow> nat list \<Rightarrow> nat option" where
  "nxt i [] = None"
| "nxt i (x # hs) = (if i < x then Some 0 else map_option Suc (nxt i hs))"

definition dist :: "nat \<Rightarrow> nat list \<Rightarrow> nat" where
  "dist i hs = (case nxt i hs of Some j \<Rightarrow> Suc j | None \<Rightarrow> length hs)"

definition lnk :: "nat \<Rightarrow> nat list \<Rightarrow> nat list \<Rightarrow> nat option \<times> u32" where
  "lnk i ps hs = (map_option ((!) ps) (nxt i hs), of_nat (dist i hs))"

lemma nxt_less: "nxt i hs = Some j \<Longrightarrow> j < length hs \<and> i < hs ! j"
  by (induction hs arbitrary: j) (auto split: if_splits)

lemma nxt_None_iff: "nxt i hs = None \<longleftrightarrow> (\<forall>x \<in> set hs. x \<le> i)"
  by (induction hs) (auto simp: not_less)

lemma nxt_append:
  "nxt i (xs @ ys) = (case nxt i xs of Some j \<Rightarrow> Some j | None \<Rightarrow> map_option (\<lambda>j. length xs + j) (nxt i ys))"
  by (cases "nxt i ys"; induction xs) (auto split: option.splits)

lemma dist_le: "dist i hs \<le> length hs"
  using nxt_less by (fastforce simp: dist_def split: option.splits)

lemma lnk_Cons:
  "lnk i (p # ps) (x # hs) = (if i < x then (Some p, 1) else (fst (lnk i ps hs), 1 + snd (lnk i ps hs)))"
  by (auto simp: lnk_def dist_def option.map_comp comp_def split: option.splits)

lemma lnk_append_Some:
  "length ps = length hs \<Longrightarrow> nxt i hs = Some j \<Longrightarrow> lnk i (ps @ qs) (hs @ ls) = lnk i ps hs"
  using nxt_less [of i hs j] by (simp add: lnk_def dist_def nxt_append nth_append)

lemma lnk_append_None:
  "length ps = length hs \<Longrightarrow> nxt i hs = None \<Longrightarrow>
    lnk i (ps @ qs) (hs @ ls) = (fst (lnk i qs ls), of_nat (length hs) + snd (lnk i qs ls))"
  by (auto simp: lnk_def dist_def nxt_append nth_append option.map_comp comp_def split: option.splits)

lemma lnk_None: "nxt i hs = None \<Longrightarrow> lnk i ps hs = (None, of_nat (length hs))"
  by (simp add: lnk_def dist_def)

subsection \<open>The invariant\<close>

definition node_shape ::
  "'s zheap \<Rightarrow> nat \<Rightarrow> 's \<times> bytes \<Rightarrow> nat \<Rightarrow> nat list \<Rightarrow> nat list \<Rightarrow> bool" where
  "node_shape h p k x ps hs \<longleftrightarrow>
     (\<exists>n. h p = Some n \<and> ele n = Some (snd k) \<and> score n = fst k \<and>
        length (level n) = x \<and> (\<forall>i < x. level n ! i = lnk i ps hs))"

definition header_shape :: "'s zheap \<Rightarrow> nat \<Rightarrow> nat \<Rightarrow> nat list \<Rightarrow> nat list \<Rightarrow> bool" where
  "header_shape h p x ps hs \<longleftrightarrow>
     (\<exists>n. h p = Some n \<and> ele n = None \<and> length (level n) = ZSKIPLIST_MAXLEVEL \<and>
        (\<forall>i < x. level n ! i = lnk i ps hs) \<and>
        (\<forall>i < ZSKIPLIST_MAXLEVEL. x \<le> i \<longrightarrow> fst (level n ! i) = None))"

definition pred_addr :: "nat list \<Rightarrow> nat \<Rightarrow> nat option" where
  "pred_addr ps k = (if k = 0 then None else Some (ps ! (k - 1)))"

definition links_ok ::
  "'s zheap \<Rightarrow> nat \<Rightarrow> nat \<Rightarrow> nat list \<Rightarrow> nat list \<Rightarrow> ('s \<times> bytes) list \<Rightarrow> bool" where
  "links_ok h hdr L ps hs ks \<longleftrightarrow>
     length hs = length ps \<and> length ks = length ps \<and> distinct (hdr # ps) \<and>
     1 \<le> L \<and> L \<le> ZSKIPLIST_MAXLEVEL \<and> (\<forall>x \<in> set hs. 1 \<le> x \<and> x \<le> L) \<and>
     header_shape h hdr L ps hs \<and>
     (\<forall>k < length ps. node_shape h (ps ! k) (ks ! k) (hs ! k) (drop (Suc k) ps) (drop (Suc k) hs)) \<and>
     (\<forall>k < length ps. map_option backward (h (ps ! k)) = Some (pred_addr ps k))"

definition zsl_shape ::
  "'s zheap \<Rightarrow> zskiplist \<Rightarrow> nat list \<Rightarrow> nat list \<Rightarrow> ('s \<times> bytes) list \<Rightarrow> bool" where
  "zsl_shape h zsl ps hs ks \<longleftrightarrow>
     links_ok h (zsl_header zsl) (zsl_level zsl) ps hs ks \<and>
     zsl_tail zsl = pred_addr ps (length ps) \<and> zsl_length zsl = length ps \<and>
     (zsl_level zsl = 1 \<or> zsl_level zsl \<in> set hs)"

text \<open>The node of rank \<open>k\<close>, the header having rank 0, its height and what follows it.\<close>

definition pos :: "nat \<Rightarrow> nat list \<Rightarrow> nat \<Rightarrow> nat" where
  "pos hdr ps k = (hdr # ps) ! k"

definition height :: "nat \<Rightarrow> nat list \<Rightarrow> nat \<Rightarrow> nat" where
  "height L hs k = (L # hs) ! k"

lemma pos_simps [simp]: "pos hdr ps 0 = hdr" "pos hdr ps (Suc k) = ps ! k"
  by (simp_all add: pos_def)

lemma height_simps [simp]: "height L hs 0 = L" "height L hs (Suc k) = hs ! k"
  by (simp_all add: height_def)

lemma links_get:
  assumes "links_ok h hdr L ps hs ks" "k \<le> length ps" "i < height L hs k"
  shows "get_level h (pos hdr ps k) i = Some (lnk i (drop k ps) (drop k hs))"
proof (cases k)
  case 0
  then show ?thesis using assms by (auto simp: links_ok_def header_shape_def get_level_def peek_def)
next
  case (Suc j)
  then have "node_shape h (ps ! j) (ks ! j) (hs ! j) (drop (Suc j) ps) (drop (Suc j) hs)"
    using assms by (simp add: links_ok_def)
  then show ?thesis using Suc assms(3) by (auto simp: node_shape_def get_level_def peek_def)
qed

lemma links_node:
  assumes "links_ok h hdr L ps hs ks" "k < length ps"
  obtains n where "h (ps ! k) = Some n" "ele n = Some (snd (ks ! k))" "score n = fst (ks ! k)"
    "backward n = pred_addr ps k" "length (level n) = hs ! k"
proof -
  have "map_option backward (h (ps ! k)) = Some (pred_addr ps k)"
    "node_shape h (ps ! k) (ks ! k) (hs ! k) (drop (Suc k) ps) (drop (Suc k) hs)"
    using assms by (simp_all add: links_ok_def)
  then show ?thesis using that by (auto simp: node_shape_def)
qed

lemma links_header:
  assumes "links_ok h hdr L ps hs ks"
  obtains n where "h hdr = Some n" "ele n = None" "length (level n) = ZSKIPLIST_MAXLEVEL"
  using assms by (auto simp: links_ok_def header_shape_def)

lemma pos_inj:
  "distinct (hdr # ps) \<Longrightarrow> k \<le> length ps \<Longrightarrow> j \<le> length ps \<Longrightarrow> pos hdr ps k = pos hdr ps j \<longleftrightarrow> k = j"
  unfolding pos_def by (subst nth_eq_iff_index_eq) auto

subsection \<open>Walks\<close>

text \<open>
  \<open>upd_at hs k0 i u\<close>: of the nodes of rank at most \<open>k0\<close> and higher than \<open>i\<close>, the one of rank \<open>u\<close> is the last.
\<close>

definition upd_at :: "nat \<Rightarrow> nat list \<Rightarrow> nat \<Rightarrow> nat \<Rightarrow> nat \<Rightarrow> bool" where
  "upd_at L hs k0 i u \<longleftrightarrow> u \<le> k0 \<and> i < height L hs u \<and> nxt i (take (k0 - u) (drop u hs)) = None"

lemma nxt_take:
  "nxt i (take m hs) = (case nxt i hs of Some j \<Rightarrow> if j < m then Some j else None | None \<Rightarrow> None)"
  by (induction hs arbitrary: m) (auto simp: take_Cons' split: option.splits)

lemma walk_level_correct:
  assumes ok: "links_ok h hdr L ps hs ks" and n: "length ps < 2 ^ 32" and k0: "k0 \<le> length ps"
    and adv: "\<And>k q n. k < q \<Longrightarrow> q \<le> length ps \<Longrightarrow> h (pos hdr ps q) = Some n \<Longrightarrow> adv k (q - k) n \<longleftrightarrow> q \<le> k0"
  shows "k \<le> k0 \<Longrightarrow> i < height L hs k \<Longrightarrow>
    \<exists>u. walk_level h adv i (pos hdr ps k) k = Some (pos hdr ps u, u) \<and> k \<le> u \<and> upd_at L hs k0 i u"
proof (induction "k0 - k" arbitrary: k rule: less_induct)
  case less
  have len: "length hs = length ps" using ok by (simp add: links_ok_def)
  let ?d = "drop k hs"
  have g: "get_level h (pos hdr ps k) i = Some (lnk i (drop k ps) ?d)"
    using ok less.prems k0 by (intro links_get) simp_all
  show ?case
  proof (cases "nxt i ?d")
    case None
    then have "walk_level h adv i (pos hdr ps k) k = Some (pos hdr ps k, k)"
      using g by (subst walk_level.simps) (simp add: lnk_def)
    then show ?thesis using less.prems None by (auto simp: upd_at_def nxt_take)
  next
    case (Some j)
    have j: "k + j < length ps" "i < hs ! (k + j)" using nxt_less [OF Some] len less.prems k0 by (auto simp: add.commute)
    obtain n where nd: "h (ps ! (k + j)) = Some n" using ok j(1) by (rule links_node)
    let ?q = "Suc (k + j)"
    have f: "lnk i (drop k ps) ?d = (Some (ps ! (k + j)), of_nat (Suc j))"
      using Some less.prems k0 by (simp add: lnk_def dist_def)
    have sp: "unat (of_nat (Suc j) :: u32) = ?q - k"
      using j(1) n by (simp add: unat_of_nat del: of_nat_Suc)
    have a: "adv k (?q - k) n \<longleftrightarrow> ?q \<le> k0" using adv [of k ?q n] j nd by simp
    show ?thesis
    proof (cases "?q \<le> k0")
      case True
      have "\<exists>u. walk_level h adv i (pos hdr ps ?q) ?q = Some (pos hdr ps u, u) \<and> ?q \<le> u \<and> upd_at L hs k0 i u"
        using less.hyps [of ?q] True j less.prems by simp
      moreover have "walk_level h adv i (pos hdr ps k) k = walk_level h adv i (pos hdr ps ?q) ?q"
        using g nd a True sp by (subst walk_level.simps) (simp add: f del: of_nat_Suc)
      ultimately show ?thesis by auto
    next
      case False
      then have "walk_level h adv i (pos hdr ps k) k = Some (pos hdr ps k, k)"
        using g nd a sp by (subst walk_level.simps) (simp add: f del: of_nat_Suc)
      then show ?thesis using less.prems Some False by (auto simp: upd_at_def nxt_take)
    qed
  qed
qed

lemma upd_at_0:
  assumes "\<forall>x \<in> set hs. 1 \<le> x" "upd_at L hs k0 0 u" "k0 \<le> length hs"
  shows "u = k0"
proof (rule ccontr)
  assume "u \<noteq> k0"
  then have "u < k0" using assms(2) by (simp add: upd_at_def)
  then have "hs ! u \<in> set (take (k0 - u) (drop u hs))" using assms(3) by (auto simp: in_set_conv_nth intro!: exI [of _ 0])
  moreover have "\<forall>x \<in> set (take (k0 - u) (drop u hs)). x \<le> 0"
    using assms(2) unfolding upd_at_def nxt_None_iff by blast
  moreover have "1 \<le> hs ! u" using assms(1,3) \<open>u < k0\<close> by simp
  ultimately show False by fastforce
qed

lemma upd_at_unique:
  assumes "upd_at L hs k0 i u" "upd_at L hs k0 i v" "k0 \<le> length hs"
  shows "u = v"
proof -
  have "\<not> u < v" if "upd_at L hs k0 i u" "upd_at L hs k0 i v" for u v
  proof
    assume "u < v"
    then obtain w where v: "v = Suc w" "u \<le> w" by (cases v) auto
    then have "take (k0 - u) (drop u hs) ! (w - u) = hs ! w" "w - u < length (take (k0 - u) (drop u hs))"
      using that assms(3) by (auto simp: upd_at_def)
    then have "hs ! w \<in> set (take (k0 - u) (drop u hs))" by (metis nth_mem)
    then show False using that v by (auto simp: upd_at_def nxt_None_iff)
  qed
  then show ?thesis using assms by (meson nat_neq_iff)
qed

lemma walk_down_correct:
  assumes ok: "links_ok h hdr L ps hs ks" and n: "length ps < 2 ^ 32" and k0: "k0 \<le> length ps"
    and adv: "\<And>k q n. k < q \<Longrightarrow> q \<le> length ps \<Longrightarrow> h (pos hdr ps q) = Some n \<Longrightarrow> adv k (q - k) n \<longleftrightarrow> q \<le> k0"
  shows "k \<le> k0 \<Longrightarrow> m \<le> height L hs k \<Longrightarrow>
    \<exists>v us. walk_down h adv m (pos hdr ps k) k = Some (pos hdr ps v, v, us) \<and> length us = m \<and>
      (\<forall>i < m. \<exists>u. us ! i = (pos hdr ps u, u) \<and> upd_at L hs k0 i u) \<and> (if m = 0 then v = k else v = k0)"
proof (induction m arbitrary: k)
  case (Suc m)
  obtain u where u: "walk_level h adv m (pos hdr ps k) k = Some (pos hdr ps u, u)" "k \<le> u" "upd_at L hs k0 m u"
    using walk_level_correct [OF ok n k0, where adv = adv and k = k and i = m] adv Suc.prems by auto
  then obtain v us where v: "walk_down h adv m (pos hdr ps u) u = Some (pos hdr ps v, v, us)" "length us = m"
    "\<forall>i < m. \<exists>u. us ! i = (pos hdr ps u, u) \<and> upd_at L hs k0 i u" "if m = 0 then v = u else v = k0"
    using Suc.IH [of u] by (auto simp: upd_at_def)
  have "v = k0"
    using v(4) u(3) upd_at_0 [of hs L k0 u] ok k0 by (auto simp: links_ok_def split: if_splits)
  then show ?case using u v by (auto simp: nth_append less_Suc_eq)
qed simp

subsection \<open>Loops over the levels\<close>

text \<open>The heap in which the entry of level \<open>i\<close> of the node at \<open>p\<close> is changed by \<open>g p i\<close>.\<close>

definition upd_entries ::
  "'s zheap \<Rightarrow> (nat \<Rightarrow> nat \<Rightarrow> nat option \<times> u32 \<Rightarrow> nat option \<times> u32) \<Rightarrow> 's zheap" where
  "upd_entries h g =
     (\<lambda>p. map_option (\<lambda>n. n\<lparr>level := map (\<lambda>i. g p i (level n ! i)) [0..<length (level n)]\<rparr>) (h p))"

lemma get_upd_entries: "get_level (upd_entries h g) p i = map_option (g p i) (get_level h p i)"
  by (cases "h p") (simp_all add: get_level_def upd_entries_def peek_def)

lemma upd_entries_comp: "upd_entries (upd_entries h g) g' = upd_entries h (\<lambda>p i e. g' p i (g p i e))"
proof (rule ext)
  fix p
  show "upd_entries (upd_entries h g) g' p = upd_entries h (\<lambda>p i e. g' p i (g p i e)) p"
    by (cases "h p") (auto simp: upd_entries_def)
qed

lemma upd_entries_id: "upd_entries h (\<lambda>p i e. e) = h"
  by (rule ext) (simp add: upd_entries_def map_nth option.map_ident)

lemma upd_entries_cong:
  assumes "\<And>p i e. get_level h p i = Some e \<Longrightarrow> g p i e = g' p i e"
  shows "upd_entries h g = upd_entries h g'"
proof (rule ext)
  fix p
  show "upd_entries h g p = upd_entries h g' p"
  proof (cases "h p")
    case (Some n)
    then have "g p i (level n ! i) = g' p i (level n ! i)" if "i < length (level n)" for i
      using assms [of p i "level n ! i"] that by (simp add: get_level_def peek_def)
    then have "map (\<lambda>i. g p i (level n ! i)) [0..<length (level n)] = map (\<lambda>i. g' p i (level n ! i)) [0..<length (level n)]"
      by (intro map_cong) simp_all
    then show ?thesis using Some by (simp add: upd_entries_def)
  qed (simp add: upd_entries_def)
qed

lemma set_level_upd:
  assumes "get_level h x i = Some e0"
  shows "set_level h x i e = Some (upd_entries h (\<lambda>p j e'. if p = x \<and> j = i then e else e'))"
proof -
  obtain n where n: "h x = Some n" "i < length (level n)"
    using assms by (auto simp: get_level_def peek_def split: if_splits bind_splits)
  have "(level n)[i := e] = map (\<lambda>j. if j = i then e else level n ! j) [0..<length (level n)]"
    by (rule nth_equalityI) (auto simp: nth_list_update)
  moreover have "upd_entries h (\<lambda>p j e'. if p = x \<and> j = i then e else e') p = h p" if "p \<noteq> x" for p
    using that by (simp add: upd_entries_def map_nth option.map_ident)
  ultimately have "h(x \<mapsto> n\<lparr>level := (level n)[i := e]\<rparr>) = upd_entries h (\<lambda>p j e'. if p = x \<and> j = i then e else e')"
    using n by (intro ext) (simp add: upd_entries_def)
  then show ?thesis using n by (simp add: set_level_def)
qed

lemma for_levels_upd:
  assumes "distinct ls"
    and "\<And>i h'. i \<in> set ls \<Longrightarrow> (\<And>p. get_level h' p i = get_level h p i) \<Longrightarrow> body i h' = Some (upd_entries h' (g i))"
    and "\<And>i j p e. j \<noteq> i \<Longrightarrow> g i p j e = e"
  shows "for_levels body ls h = Some (upd_entries h (\<lambda>p j e. if j \<in> set ls then g j p j e else e))"
  using assms
proof (induction ls arbitrary: h)
  case Nil
  then show ?case by (simp add: upd_entries_id)
next
  case (Cons i ls)
  let ?h = "upd_entries h (g i)"
  have "body i h = Some ?h" using Cons.prems(2) [of i h] by simp
  moreover have "get_level ?h p j = get_level h p j" if "j \<in> set ls" for p j
  proof -
    have "j \<noteq> i" using that Cons.prems(1) by auto
    then show ?thesis using Cons.prems(3) [of j i p] by (cases "get_level h p j") (simp_all add: get_upd_entries)
  qed
  then have "for_levels body ls ?h = Some (upd_entries ?h (\<lambda>p j e. if j \<in> set ls then g j p j e else e))"
    using Cons.prems by (intro Cons.IH) simp_all
  moreover have "upd_entries ?h (\<lambda>p j e. if j \<in> set ls then g j p j e else e) =
      upd_entries h (\<lambda>p j e. if j \<in> set (i # ls) then g j p j e else e)"
    unfolding upd_entries_comp
  proof (rule upd_entries_cong)
    fix p j e
    show "(if j \<in> set ls then g j p j (g i p j e) else g i p j e) = (if j \<in> set (i # ls) then g j p j e else e)"
      using Cons.prems(1,3) by (cases "j = i") auto
  qed
  ultimately show ?case by simp
qed

lemma upd_entries_fields:
  "upd_entries h g p = None \<longleftrightarrow> h p = None"
  "map_option backward (upd_entries h g p) = map_option backward (h p)"
  "map_option ele (upd_entries h g p) = map_option ele (h p)"
  "map_option score (upd_entries h g p) = map_option score (h p)"
  by (simp_all add: upd_entries_def option.map_comp comp_def)

lemma node_shape_upd:
  assumes "node_shape h p k x ps hs" "\<And>i. i < x \<Longrightarrow> g p i (lnk i ps hs) = lnk i ps' hs'"
  shows "node_shape (upd_entries h g) p k x ps' hs'"
proof -
  obtain n where n: "h p = Some n" "ele n = Some (snd k)" "score n = fst k" "length (level n) = x"
    "\<And>i. i < x \<Longrightarrow> level n ! i = lnk i ps hs"
    using assms(1) by (auto simp: node_shape_def)
  show ?thesis
    unfolding node_shape_def upd_entries_def
    by (rule exI [of _ "n\<lparr>level := map (\<lambda>i. g p i (level n ! i)) [0..<length (level n)]\<rparr>"]) (use n assms(2) in simp)
qed

lemma header_shape_upd:
  assumes "header_shape h p x ps hs" "x \<le> ZSKIPLIST_MAXLEVEL" "\<And>i. i < x \<Longrightarrow> g p i (lnk i ps hs) = lnk i ps' hs'"
    "\<And>i e. x \<le> i \<Longrightarrow> g p i e = e"
  shows "header_shape (upd_entries h g) p x ps' hs'"
proof -
  obtain n where n: "h p = Some n" "ele n = None" "length (level n) = ZSKIPLIST_MAXLEVEL"
    "\<And>i. i < x \<Longrightarrow> level n ! i = lnk i ps hs" "\<And>i. i < ZSKIPLIST_MAXLEVEL \<Longrightarrow> x \<le> i \<Longrightarrow> fst (level n ! i) = None"
    using assms(1) by (auto simp: header_shape_def)
  show ?thesis
    unfolding header_shape_def upd_entries_def
    by (rule exI [of _ "n\<lparr>level := map (\<lambda>i. g p i (level n ! i)) [0..<length (level n)]\<rparr>"]) (use n assms(2-4) in simp)
qed

lemma shape_set_backward:
  assumes "set_backward h x b = Some h'"
  shows "node_shape h' p k y ps hs = node_shape h p k y ps hs" "header_shape h' p y ps hs = header_shape h p y ps hs"
    "get_level h' p i = get_level h p i"
    "map_option backward (h' p) = (if p = x then Some b else map_option backward (h p))"
proof -
  obtain n where n: "h x = Some n" "h' = h(x \<mapsto> n\<lparr>backward := b\<rparr>)"
    using assms by (auto simp: set_backward_def split: bind_splits)
  show "node_shape h' p k y ps hs = node_shape h p k y ps hs" "header_shape h' p y ps hs = header_shape h p y ps hs"
    "get_level h' p i = get_level h p i"
    "map_option backward (h' p) = (if p = x then Some b else map_option backward (h p))"
    using n by (cases "p = x"; simp add: node_shape_def header_shape_def get_level_def)+
qed

lemma shape_set_backward_eq:
  assumes "set_backward h x b = Some h'"
  shows "node_shape h' = node_shape h" "header_shape h' = header_shape h"
  by (intro ext shape_set_backward(1,2) [OF assms])+

subsection \<open>Insertion\<close>

lemma set_level_upd_fun:
  assumes "get_level h x i = Some e0"
  shows "set_level h x i (F e0) = Some (upd_entries h (\<lambda>p j e. if p = x \<and> j = i then F e else e))"
  unfolding set_level_upd [OF assms] using assms by (intro arg_cong [of _ _ Some] upd_entries_cong) auto

lemma raise_level_correct:
  assumes ok: "links_ok h (zsl_header zsl) (zsl_level zsl) ps hs ks" and lvl: "lvl \<le> ZSKIPLIST_MAXLEVEL"
    and len: "zsl_length zsl = length ps"
  obtains h' where "for_levels (raise_level zsl) [zsl_level zsl..<lvl] h = Some h'"
    "links_ok h' (zsl_header zsl) (max (zsl_level zsl) lvl) ps hs ks"
    "\<And>p. p \<noteq> zsl_header zsl \<Longrightarrow> h' p = h p"
proof -
  let ?hdr = "zsl_header zsl" and ?L = "zsl_level zsl"
  let ?g = "\<lambda>i p j e. if p = ?hdr \<and> j = i then (fst e, of_nat (length ps)) else e :: nat option \<times> u32"
  obtain n where n: "h ?hdr = Some n" "ele n = None" "length (level n) = ZSKIPLIST_MAXLEVEL"
    "\<And>i. i < ?L \<Longrightarrow> level n ! i = lnk i ps hs" "\<And>i. i < ZSKIPLIST_MAXLEVEL \<Longrightarrow> ?L \<le> i \<Longrightarrow> fst (level n ! i) = None"
    using ok by (auto simp: links_ok_def header_shape_def)
  let ?h = "upd_entries h (\<lambda>p j e. if j \<in> set [?L..<lvl] then ?g j p j e else e)"
  have "for_levels (raise_level zsl) [?L..<lvl] h = Some ?h"
  proof (rule for_levels_upd [where g = ?g])
    fix i h'
    assume i: "i \<in> set [?L..<lvl]" and eq: "\<And>p. get_level h' p i = get_level h p i"
    have "get_level h ?hdr i = Some (level n ! i)" using i lvl n by (simp add: get_level_def peek_def)
    then have "get_level h' ?hdr i = Some (level n ! i)" by (simp only: eq)
    from set_level_upd_fun [OF this, of "\<lambda>e. (fst e, of_nat (length ps))"] this
    show "raise_level zsl i h' = Some (upd_entries h' (?g i))"
      by (simp add: raise_level_def len split: prod.splits) (metis fst_conv)
  qed auto
  moreover have other: "?h p = h p" if "p \<noteq> ?hdr" for p
    using that by (simp add: upd_entries_def map_nth option.map_ident if_distrib cong: if_cong)
  moreover have "links_ok ?h ?hdr (max ?L lvl) ps hs ks"
  proof -
    have nx: "nxt i hs = None" if "?L \<le> i" for i using ok that by (force simp: links_ok_def nxt_None_iff)
    have hd: "header_shape ?h ?hdr (max ?L lvl) ps hs"
      unfolding header_shape_def upd_entries_def
      by (rule exI [of _ "n\<lparr>level := map (\<lambda>i. if i \<in> set [?L..<lvl] then ?g i ?hdr i (level n ! i) else level n ! i) [0..<length (level n)]\<rparr>"])
        (use n lvl ok nx in \<open>auto simp: lnk_None links_ok_def max_def split: if_splits\<close>)
    have "ps ! k \<noteq> ?hdr" if "k < length ps" for k using ok nth_mem [OF that] by (auto simp: links_ok_def)
    then show ?thesis
      using ok hd other lvl unfolding links_ok_def node_shape_def by (auto simp: max_def)
  qed
  ultimately show ?thesis using that by blast
qed

lemma link_level_upd:
  assumes "get_level h (U i) i = Some (f, w)" "get_level h a i = Some ea" "a \<noteq> U i"
  shows "link_level a U R i h = Some (upd_entries h (\<lambda>p j e. if j = i then
      if p = a then (f, w - (R 0 - R i)) else if p = U i then (Some a, R 0 - R i + 1) else e else e))"
proof -
  let ?h = "upd_entries h (\<lambda>p j e. if p = a \<and> j = i then (f, w - (R 0 - R i)) else e)"
  have "set_level h a i (f, w - (R 0 - R i)) = Some ?h" using assms(2) by (rule set_level_upd)
  moreover have "get_level ?h (U i) i = Some (f, w)" using assms by (simp add: get_upd_entries)
  then have "set_level ?h (U i) i (Some a, R 0 - R i + 1) =
      Some (upd_entries ?h (\<lambda>p j e. if p = U i \<and> j = i then (Some a, R 0 - R i + 1) else e))"
    by (rule set_level_upd)
  moreover have "upd_entries ?h (\<lambda>p j e. if p = U i \<and> j = i then (Some a, R 0 - R i + 1) else e) =
    upd_entries h (\<lambda>p j e. if j = i then
      if p = a then (f, w - (R 0 - R i)) else if p = U i then (Some a, R 0 - R i + 1) else e else e)"
    unfolding upd_entries_comp using assms(3) by (intro upd_entries_cong) auto
  ultimately show ?thesis using assms(1) by (simp add: link_level_def)
qed

lemma bump_level_upd:
  assumes "get_level h (U i) i = Some e0"
  shows "bump_level U i h = Some (upd_entries h (\<lambda>p j e. if p = U i \<and> j = i then (fst e, snd e + 1) else e))"
  using set_level_upd_fun [OF assms, of "\<lambda>e. (fst e, snd e + 1)"] assms
  by (cases e0) (simp add: bump_level_def)

text \<open>The links when a node is put behind the node of rank \<open>k0\<close>, seen from an earlier node and from the new one.\<close>

lemma drop_splice: "r \<le> k0 \<Longrightarrow> k0 \<le> length xs \<Longrightarrow> drop r (take k0 xs @ y # drop k0 xs) = take (k0 - r) (drop r xs) @ y # drop k0 xs"
  by (simp add: drop_take)

lemma drop_cut: "r \<le> k0 \<Longrightarrow> drop r xs = take (k0 - r) (drop r xs) @ drop k0 xs"
  by (metis append_take_drop_id drop_drop le_add_diff_inverse2)

lemma lnk_splice:
  assumes "length hs = length ps" "r \<le> k0" "k0 \<le> length ps" "i < height L hs r" "upd_at L hs k0 i u"
  shows "lnk i (drop r (take k0 ps @ a # drop k0 ps)) (drop r (take k0 hs @ x # drop k0 hs)) =
    (let old = lnk i (drop r ps) (drop r hs) in
     if r = u then if i < x then (Some a, of_nat (k0 - u) + 1) else (fst old, snd old + 1) else old)"
proof -
  let ?A = "take (k0 - r) (drop r hs)" and ?PA = "take (k0 - r) (drop r ps)"
  have len: "length ?PA = length ?A" "length ?A = k0 - r" using assms by simp_all
  have old: "lnk i (drop r ps) (drop r hs) = lnk i (?PA @ drop k0 ps) (?A @ drop k0 hs)"
    using drop_cut [OF assms(2), of ps] drop_cut [OF assms(2), of hs] by simp
  have new: "lnk i (drop r (take k0 ps @ a # drop k0 ps)) (drop r (take k0 hs @ x # drop k0 hs)) =
      lnk i (?PA @ a # drop k0 ps) (?A @ x # drop k0 hs)"
    using assms by (simp only: drop_splice)
  show ?thesis
  proof (cases "nxt i ?A")
    case None
    then have "upd_at L hs k0 i r" using assms by (simp add: upd_at_def)
    then have "r = u" using assms(1,3,5) upd_at_unique by metis
    then show ?thesis
      using None len unfolding new old by (simp add: lnk_append_None lnk_Cons)
  next
    case (Some j)
    then have "r \<noteq> u" using assms(5) by (auto simp: upd_at_def)
    then show ?thesis using Some len unfolding new old by (simp add: lnk_append_Some)
  qed
qed

lemma lnk_behind:
  assumes "length hs = length ps" "k0 \<le> length ps" "upd_at L hs k0 i u"
  shows "lnk i (drop k0 ps) (drop k0 hs) =
    (fst (lnk i (drop u ps) (drop u hs)), snd (lnk i (drop u ps) (drop u hs)) - of_nat (k0 - u))"
proof -
  have u: "u \<le> k0" "nxt i (take (k0 - u) (drop u hs)) = None" using assms(3) by (simp_all add: upd_at_def)
  have "lnk i (drop u ps) (drop u hs) =
      lnk i (take (k0 - u) (drop u ps) @ drop k0 ps) (take (k0 - u) (drop u hs) @ drop k0 hs)"
    using drop_cut [OF u(1), of ps] drop_cut [OF u(1), of hs] by simp
  then show ?thesis using u(2) assms(1,2) by (simp add: lnk_append_None)
qed

text \<open>The heap after the node has been linked on all levels.\<close>

definition linked ::
  "'s zheap \<Rightarrow> nat \<Rightarrow> nat \<Rightarrow> nat \<Rightarrow> nat list \<Rightarrow> nat list \<Rightarrow> (nat \<Rightarrow> nat) \<Rightarrow> nat \<Rightarrow> nat \<Rightarrow> 's zheap" where
  "linked h a x hdr ps hs u k0 L = upd_entries h (\<lambda>p j e.
     if j < x then
       if p = a then lnk j (drop k0 ps) (drop k0 hs)
       else if p = pos hdr ps (u j) then (Some a, of_nat (k0 - u j) + 1) else e
     else if j < L \<and> p = pos hdr ps (u j) then (fst e, snd e + 1) else e)"

lemma link_loops:
  assumes ok: "links_ok h hdr L ps hs ks" and a: "a \<notin> set (hdr # ps)" and x: "1 \<le> x" "x \<le> L"
    and k0: "k0 \<le> length ps" and upd: "\<And>i. i < L \<Longrightarrow> upd_at L hs k0 i (u i)"
    and U: "\<And>i. i < L \<Longrightarrow> U i = pos hdr ps (u i)" and R: "\<And>i. i < L \<Longrightarrow> R i = of_nat (u i)"
    and h1: "h1 = h(a \<mapsto> n)" "length (level n) = x"
  obtains h2 where "for_levels (link_level a U R) [0..<x] h1 = Some h2"
    "for_levels (bump_level U) [x..<L] h2 = Some (linked h1 a x hdr ps hs u k0 L)"
proof -
  have len: "length hs = length ps" using ok by (simp add: links_ok_def)
  have u: "u i \<le> k0" "u i \<le> length ps" "i < height L hs (u i)" if "i < L" for i
    using upd [OF that] k0 by (simp_all add: upd_at_def)
  have aU: "a \<noteq> U i" if "i < L" for i
    using a u(2) [OF that] U [OF that] by (cases "u i") (auto simp: pos_def)
  have ent: "get_level h1 (U i) i = Some (lnk i (drop (u i) ps) (drop (u i) hs))" if "i < L" for i
    using links_get [OF ok u(2,3) [OF that]] aU [OF that] U [OF that] by (simp add: get_level_def h1)
  have enta: "\<exists>ea. get_level h1 a i = Some ea" if "i < x" for i using that h1 by (simp add: get_level_def peek_def)
  have "u 0 = k0" using upd [of 0] x upd_at_0 [of hs L k0 "u 0"] ok k0 len by (auto simp: links_ok_def)
  then have R': "R 0 - R i = of_nat (k0 - u i)" if "i < L" for i
    using R [of 0] R [OF that] x u(1) [OF that] by simp
  let ?g = "\<lambda>i p j e. if j = i then if p = a then lnk j (drop k0 ps) (drop k0 hs)
      else if p = U i then (Some a, of_nat (k0 - u i) + 1) else e else e"
  let ?h2 = "upd_entries h1 (\<lambda>p j e. if j \<in> set [0..<x] then ?g j p j e else e)"
  have "for_levels (link_level a U R) [0..<x] h1 = Some ?h2"
  proof (rule for_levels_upd [where g = ?g])
    fix i h'
    assume i: "i \<in> set [0..<x]" and eq: "\<And>p. get_level h' p i = get_level h1 p i"
    let ?E = "lnk i (drop (u i) ps) (drop (u i) hs)"
    have iL: "i < L" "i < x" using i x by simp_all
    have "get_level h' (U i) i = Some (fst ?E, snd ?E)" using ent [OF iL(1)] by (simp add: eq)
    moreover obtain ea where "get_level h' a i = Some ea" using enta [OF iL(2)] by (auto simp: eq)
    ultimately have "link_level a U R i h' = Some (upd_entries h' (\<lambda>p j e. if j = i then
      if p = a then (fst ?E, snd ?E - (R 0 - R i)) else if p = U i then (Some a, R 0 - R i + 1) else e else e))"
      using aU [OF iL(1)] by (rule link_level_upd)
    then show "link_level a U R i h' = Some (upd_entries h' (?g i))"
      using lnk_behind [OF len k0 upd [OF iL(1)]] R' [OF iL(1)] by (simp cong: if_cong)
  qed auto
  moreover have "for_levels (bump_level U) [x..<L] ?h2 = Some (upd_entries ?h2 (\<lambda>p j e.
      if j \<in> set [x..<L] then if p = U j \<and> j = j then (fst e, snd e + 1) else e else e))"
  proof (rule for_levels_upd [where g = "\<lambda>i p j e. if p = U i \<and> j = i then (fst e, snd e + 1) else e"])
    fix i h'
    assume i: "i \<in> set [x..<L]" and eq: "\<And>p. get_level h' p i = get_level ?h2 p i"
    have "get_level h' (U i) i = Some (lnk i (drop (u i) ps) (drop (u i) hs))"
      using i ent [of i] by (simp add: eq get_upd_entries)
    then show "bump_level U i h' = Some (upd_entries h' (\<lambda>p j e. if p = U i \<and> j = i then (fst e, snd e + 1) else e))"
      by (rule bump_level_upd)
  qed auto
  moreover have "upd_entries ?h2 (\<lambda>p j e. if j \<in> set [x..<L] then if p = U j \<and> j = j then (fst e, snd e + 1) else e else e) =
      linked h1 a x hdr ps hs u k0 L"
    unfolding linked_def upd_entries_comp using x U by (intro upd_entries_cong) auto
  ultimately show ?thesis using that by simp
qed

definition ins_at :: "nat \<Rightarrow> 'a \<Rightarrow> 'a list \<Rightarrow> 'a list" where
  "ins_at k y xs = take k xs @ y # drop k xs"

lemma length_ins_at [simp]: "length (ins_at k y xs) = Suc (length xs)"
  by (simp add: ins_at_def)

lemma ins_at_nth: "k0 \<le> length xs \<Longrightarrow> ins_at k0 y xs ! k = (if k < k0 then xs ! k else if k = k0 then y else xs ! (k - 1))"
  by (auto simp: ins_at_def nth_append min_def nth_Cons')

lemma ins_at_drop: "k0 \<le> length xs \<Longrightarrow> k0 < k \<Longrightarrow> drop k (ins_at k0 y xs) = drop (k - 1) xs"
  by (cases k) (simp_all add: ins_at_def Suc_diff_le)

lemma set_ins_at: "set (ins_at k y xs) = insert y (set xs)"
  by (simp add: ins_at_def) (metis append_take_drop_id set_append)

lemma distinct_ins_at: "distinct (ins_at k y xs) \<longleftrightarrow> y \<notin> set xs \<and> distinct xs"
proof -
  have "distinct (ins_at k y xs) \<longleftrightarrow> distinct (y # take k xs @ drop k xs)"
    unfolding ins_at_def by (simp only: distinct_append distinct.simps list.set set_append) blast
  then show ?thesis by simp
qed

lemma linked_shape:
  assumes ok: "links_ok h hdr L ps hs ks" and a: "a \<notin> set (hdr # ps)" and x: "1 \<le> x" "x \<le> L"
    and k0: "k0 \<le> length ps" and upd: "\<And>i. i < L \<Longrightarrow> upd_at L hs k0 i (u i)"
    and h1: "h1 = h(a \<mapsto> n)" "length (level n) = x" "ele n = Some (snd key)" "score n = fst key"
  shows "header_shape (linked h1 a x hdr ps hs u k0 L) hdr L (ins_at k0 a ps) (ins_at k0 x hs)"
    and "k < Suc (length ps) \<Longrightarrow> node_shape (linked h1 a x hdr ps hs u k0 L) (ins_at k0 a ps ! k) (ins_at k0 key ks ! k)
      (ins_at k0 x hs ! k) (drop (Suc k) (ins_at k0 a ps)) (drop (Suc k) (ins_at k0 x hs))"
proof -
  have len: "length hs = length ps" "length ks = length ps" "distinct (hdr # ps)" "L \<le> ZSKIPLIST_MAXLEVEL"
    using ok by (simp_all add: links_ok_def)
  have hgt: "hs ! j \<le> L" if "j < length ps" for j using ok that len(1) by (simp add: links_ok_def)
  have u: "u i \<le> k0" if "i < L" for i using upd [OF that] by (simp add: upd_at_def)
  have at: "pos hdr ps r = pos hdr ps (u i) \<longleftrightarrow> r = u i" if "r \<le> length ps" "i < L" for r i
    using pos_inj [OF len(3) that(1)] u [OF that(2)] k0 by simp
  have na: "pos hdr ps r \<noteq> a" if "r \<le> length ps" for r using a that by (cases r) (auto simp: pos_def)
  have old: "node_shape h1 (ps ! j) (ks ! j) (hs ! j) (drop (Suc j) ps) (drop (Suc j) hs)" if "j < length ps" for j
    using ok that na [of "Suc j"] by (simp add: links_ok_def node_shape_def h1)
  have early: "(if i < x then if pos hdr ps r = a then lnk i (drop k0 ps) (drop k0 hs)
        else if pos hdr ps r = pos hdr ps (u i) then (Some a, of_nat (k0 - u i) + 1) else e
      else if i < L \<and> pos hdr ps r = pos hdr ps (u i) then (fst e, snd e + 1) else e) =
      lnk i (drop r (ins_at k0 a ps)) (drop r (ins_at k0 x hs))"
    if "r \<le> k0" "i < height L hs r" "i < L" "e = lnk i (drop r ps) (drop r hs)" for r i e
    using lnk_splice [OF len(1) that(1) k0 that(2) upd [OF that(3)], of a x] at [of r i] na [of r] that k0
    by (auto simp: ins_at_def Let_def)
  show "header_shape (linked h1 a x hdr ps hs u k0 L) hdr L (ins_at k0 a ps) (ins_at k0 x hs)"
    unfolding linked_def
  proof (rule header_shape_upd)
    show "header_shape h1 hdr L ps hs" using ok na [of 0] by (simp add: links_ok_def header_shape_def h1)
    show "(if i < x then if hdr = a then lnk i (drop k0 ps) (drop k0 hs)
        else if hdr = pos hdr ps (u i) then (Some a, of_nat (k0 - u i) + 1) else lnk i ps hs
      else if i < L \<and> hdr = pos hdr ps (u i) then (fst (lnk i ps hs), snd (lnk i ps hs) + 1) else lnk i ps hs) =
      lnk i (ins_at k0 a ps) (ins_at k0 x hs)" if "i < L" for i
      using early [of 0 i "lnk i ps hs"] that by (simp only: pos_simps height_simps drop_0 le0 simp_thms)
  qed (use x len in auto)
  assume k: "k < Suc (length ps)"
  consider "k < k0" | "k = k0" | "k0 < k" by linarith
  then show "node_shape (linked h1 a x hdr ps hs u k0 L) (ins_at k0 a ps ! k) (ins_at k0 key ks ! k)
      (ins_at k0 x hs ! k) (drop (Suc k) (ins_at k0 a ps)) (drop (Suc k) (ins_at k0 x hs))"
  proof cases
    case 1
    have "node_shape (linked h1 a x hdr ps hs u k0 L) (ps ! k) (ks ! k) (hs ! k)
        (drop (Suc k) (ins_at k0 a ps)) (drop (Suc k) (ins_at k0 x hs))"
      unfolding linked_def
    proof (intro node_shape_upd [OF old])
      show "(if i < x then if ps ! k = a then lnk i (drop k0 ps) (drop k0 hs)
          else if ps ! k = pos hdr ps (u i) then (Some a, of_nat (k0 - u i) + 1) else lnk i (drop (Suc k) ps) (drop (Suc k) hs)
        else if i < L \<and> ps ! k = pos hdr ps (u i)
          then (fst (lnk i (drop (Suc k) ps) (drop (Suc k) hs)), snd (lnk i (drop (Suc k) ps) (drop (Suc k) hs)) + 1)
          else lnk i (drop (Suc k) ps) (drop (Suc k) hs)) =
        lnk i (drop (Suc k) (ins_at k0 a ps)) (drop (Suc k) (ins_at k0 x hs))" if "i < hs ! k" for i
      proof -
        have "Suc k \<le> k0" "i < height L hs (Suc k)" "i < L" using that hgt [of k] 1 k0 by simp_all
        from early [OF this refl] show ?thesis by (simp only: pos_simps)
      qed
    qed (use 1 k0 in simp)
    then show ?thesis using 1 k0 len by (simp add: ins_at_nth)
  next
    case 2
    have "node_shape (linked h1 a x hdr ps hs u k0 L) a key x (drop k0 ps) (drop k0 hs)"
      unfolding node_shape_def linked_def upd_entries_def using h1 by simp
    then show ?thesis using 2 k0 len by (simp add: ins_at_nth ins_at_drop)
  next
    case 3
    then obtain j where j: "k = Suc j" "j < length ps" using k by (cases k) auto
    have ne: "ps ! j \<noteq> pos hdr ps (u i)" if "i < L" for i
      using at [of k i] u [OF that] that 3 j by auto
    have "node_shape (linked h1 a x hdr ps hs u k0 L) (ps ! j) (ks ! j) (hs ! j) (drop (Suc j) ps) (drop (Suc j) hs)"
      unfolding linked_def
    proof (intro node_shape_upd [OF old [OF j(2)]])
      fix i assume "i < hs ! j"
      then have "i < L" using hgt [OF j(2)] by simp
      then show "(if i < x then if ps ! j = a then lnk i (drop k0 ps) (drop k0 hs)
          else if ps ! j = pos hdr ps (u i) then (Some a, of_nat (k0 - u i) + 1) else lnk i (drop (Suc j) ps) (drop (Suc j) hs)
        else if i < L \<and> ps ! j = pos hdr ps (u i)
          then (fst (lnk i (drop (Suc j) ps) (drop (Suc j) hs)), snd (lnk i (drop (Suc j) ps) (drop (Suc j) hs)) + 1)
          else lnk i (drop (Suc j) ps) (drop (Suc j) hs)) = lnk i (drop (Suc j) ps) (drop (Suc j) hs)"
        using ne [of i] na [of k] j by simp
    qed
    then show ?thesis using 3 k0 len j by (simp add: ins_at_nth ins_at_drop)
  qed
qed

lemma random_level_ge: "random_level rnd n l = Some m \<Longrightarrow> l \<le> m"
  by (erule random_level.raw_induct [rotated]) (fastforce split: if_splits)

lemma zslRandomLevel_bounds: "zslRandomLevel rnd = Some lvl \<Longrightarrow> 1 \<le> lvl \<and> lvl \<le> ZSKIPLIST_MAXLEVEL"
  by (auto simp: zslRandomLevel_def dest: random_level_ge split: bind_splits)

lemma prefix_takeWhile:
  assumes "\<And>i j. i < j \<Longrightarrow> j < length xs \<Longrightarrow> P (xs ! j) \<Longrightarrow> P (xs ! i)" "j < length xs"
  shows "P (xs ! j) \<longleftrightarrow> j < length (takeWhile P xs)"
proof
  assume "j < length (takeWhile P xs)"
  then show "P (xs ! j)" by (metis nth_mem set_takeWhileD takeWhile_nth)
next
  assume Pj: "P (xs ! j)"
  show "j < length (takeWhile P xs)"
  proof (rule ccontr)
    assume "\<not> j < length (takeWhile P xs)"
    then have l: "length (takeWhile P xs) \<le> j" by simp
    then have "\<not> P (xs ! length (takeWhile P xs))" using assms(2) by (intro nth_length_takeWhile) simp
    then show False using assms Pj l by (metis le_neq_implies_less)
  qed
qed

lemma lnk_0:
  assumes "\<forall>x \<in> set hs. 1 \<le> x" "length hs = length ps"
  shows "fst (lnk 0 (drop k ps) (drop k hs)) = (if k < length ps then Some (ps ! k) else None)"
proof (cases "k < length ps")
  case True
  then have "drop k hs = hs ! k # drop (Suc k) hs" "0 < hs ! k"
    using assms by (simp_all add: Cons_nth_drop_Suc [symmetric] Suc_le_eq)
  then show ?thesis using True by (simp add: lnk_def)
qed (use assms in \<open>simp add: lnk_def\<close>)

lemma upd_at_raise:
  assumes "\<forall>x \<in> set hs. x \<le> L" "i < max L x" "i < L \<Longrightarrow> upd_at L hs k0 i u"
  shows "upd_at (max L x) hs k0 i (if i < L then u else 0)"
proof (cases "i < L")
  case True
  then show ?thesis using assms(3) by (cases u) (auto simp: upd_at_def)
next
  case False
  then have "\<forall>y \<in> set (take k0 hs). y \<le> i" using assms(1) by (meson in_set_takeD le_trans not_less)
  then show ?thesis using False assms(2) by (simp add: upd_at_def nxt_None_iff)
qed

text \<open>The backward pointers after the insertion.\<close>

lemma backward_ins_at:
  assumes k0: "k0 \<le> length ps" and d: "a \<notin> set ps" "distinct ps"
    and old: "\<And>k. k < length ps \<Longrightarrow> map_option backward (h (ps ! k)) = Some (pred_addr ps k)"
    and new: "\<And>p. p \<noteq> a \<Longrightarrow> (k0 < length ps \<Longrightarrow> p \<noteq> ps ! k0) \<Longrightarrow> map_option backward (h' p) = map_option backward (h p)"
    and a: "map_option backward (h' a) = Some (pred_addr ps k0)"
    and y: "k0 < length ps \<Longrightarrow> map_option backward (h' (ps ! k0)) = Some (Some a)"
    and k: "k < Suc (length ps)"
  shows "map_option backward (h' (ins_at k0 a ps ! k)) = Some (pred_addr (ins_at k0 a ps) k)"
proof -
  have ne: "ps ! i \<noteq> a" if "i < length ps" for i using d that by auto
  have ne0: "ps ! i \<noteq> ps ! k0" if "i < length ps" "k0 < length ps" "i \<noteq> k0" for i
    using d that by (simp add: nth_eq_iff_index_eq)
  consider "k < k0" | "k = k0" | "k = Suc k0" | "Suc k0 < k" by linarith
  then show ?thesis
  proof cases
    case 1
    then have "map_option backward (h' (ps ! k)) = Some (pred_addr ps k)"
      using new [of "ps ! k"] old [of k] ne [of k] ne0 [of k] k0 by simp
    then show ?thesis using 1 k0 by (cases k) (simp_all add: ins_at_nth pred_addr_def)
  next
    case 2
    then show ?thesis using a k0 by (auto simp: ins_at_nth pred_addr_def)
  next
    case 3
    then show ?thesis using y k k0 by (simp add: ins_at_nth pred_addr_def)
  next
    case 4
    then have "map_option backward (h' (ps ! (k - 1))) = Some (pred_addr ps (k - 1))"
      using new [of "ps ! (k - 1)"] old [of "k - 1"] ne [of "k - 1"] ne0 [of "k - 1"] k k0 by simp
    then show ?thesis using 4 k0 by (cases k) (auto simp: ins_at_nth pred_addr_def)
  qed
qed

text \<open>The search of \<open>zslInsert\<close> and \<open>zslDelete\<close>: \<open>key_rank\<close> nodes are before the given key.\<close>

definition key_rank :: "('s::linorder \<times> bytes) list \<Rightarrow> 's \<times> bytes \<Rightarrow> nat" where
  "key_rank ks key = length (takeWhile (\<lambda>k. k < key) ks)"

lemma key_rank_le: "key_rank ks key \<le> length ks"
  by (simp add: key_rank_def length_takeWhile_le)

lemma node_before_key:
  "ele n = Some e' \<Longrightarrow> node_before sc e r w n \<longleftrightarrow> (score n, e') < (sc, e)"
  by (auto simp: node_before_def sdscmp_str_eq)

lemma node_before_rank:
  assumes ok: "links_ok h hdr L ps hs ks" and sorted: "sorted_wrt (<) ks"
    and q: "k < q" "q \<le> length ps" "h (pos hdr ps q) = Some n"
  shows "node_before sc e k (q - k) n \<longleftrightarrow> q \<le> key_rank ks (sc, e)"
proof -
  obtain j where j: "q = Suc j" "j < length ps" using q by (cases q) auto
  have len: "length ks = length ps" using ok by (simp add: links_ok_def)
  obtain n' where "h (ps ! j) = Some n'" "ele n' = Some (snd (ks ! j))" "score n' = fst (ks ! j)"
    using ok j(2) by (rule links_node)
  then have "node_before sc e k (q - k) n \<longleftrightarrow> ks ! j < (sc, e)"
    using q(3) j by (simp add: node_before_key)
  also have "\<dots> \<longleftrightarrow> j < key_rank ks (sc, e)"
    unfolding key_rank_def
  proof (rule prefix_takeWhile)
    fix i j assume "i < j" "j < length ks" "ks ! j < (sc, e)"
    then show "ks ! i < (sc, e)" by (meson order.strict_trans sorted sorted_wrt_nth_less)
  qed (use j len in simp)
  finally show ?thesis using j by auto
qed

lemma walk_to_key:
  assumes ok: "links_ok h hdr L ps hs ks" and sorted: "sorted_wrt (<) ks" and n: "length ps < 2 ^ 32"
  obtains us where "walk_down h (node_before sc e) L hdr 0 = Some (pos hdr ps (key_rank ks (sc, e)), key_rank ks (sc, e), us)"
    "length us = L" "\<And>i. i < L \<Longrightarrow> fst (us ! i) = pos hdr ps (snd (us ! i)) \<and> upd_at L hs (key_rank ks (sc, e)) i (snd (us ! i))"
proof -
  let ?k = "key_rank ks (sc, e)"
  have k0: "?k \<le> length ps" using key_rank_le [of ks] ok by (simp add: links_ok_def)
  have L: "1 \<le> L" using ok by (simp add: links_ok_def)
  have "\<exists>v us. walk_down h (node_before sc e) L (pos hdr ps 0) 0 = Some (pos hdr ps v, v, us) \<and> length us = L \<and>
      (\<forall>i < L. \<exists>u. us ! i = (pos hdr ps u, u) \<and> upd_at L hs ?k i u) \<and> (if L = 0 then v = 0 else v = ?k)"
    by (rule walk_down_correct [OF ok n k0]) (use node_before_rank [OF ok sorted] in auto)
  then obtain us where us: "walk_down h (node_before sc e) L hdr 0 = Some (pos hdr ps ?k, ?k, us)" "length us = L"
    "\<forall>i < L. \<exists>u. us ! i = (pos hdr ps u, u) \<and> upd_at L hs ?k i u"
    using L by auto
  show ?thesis
  proof (rule that [OF us(1,2)])
    fix i assume "i < L"
    then obtain u where "us ! i = (pos hdr ps u, u)" "upd_at L hs ?k i u" using us(3) by blast
    then show "fst (us ! i) = pos hdr ps (snd (us ! i)) \<and> upd_at L hs ?k i (snd (us ! i))" by simp
  qed
qed

lemma links_dom: "links_ok h hdr L ps hs ks \<Longrightarrow> p \<in> set (hdr # ps) \<Longrightarrow> h p \<noteq> None"
  by (auto simp: links_ok_def header_shape_def node_shape_def in_set_conv_nth)

text \<open>The part of \<open>zslInsert\<close> behind the loops: the backward pointers and the tail.\<close>

lemma insert_finish:
  assumes ok: "links_ok h hdr L ps hs ks" and a: "a \<notin> set (hdr # ps)" and x: "1 \<le> x" "x \<le> L" and k0: "k0 \<le> length ps"
    and upd: "\<And>i. i < L \<Longrightarrow> upd_at L hs k0 i (u i)"
    and h1: "h1 = h(a \<mapsto> n)" "length (level n) = x" "ele n = Some (snd key)" "score n = fst key"
    and h3: "h3 = linked h1 a x hdr ps hs u k0 L"
  obtains h4 h5 where "set_backward h3 a (pred_addr ps k0) = Some h4"
    "fst (the (get_level h4 a 0)) = (if k0 < length ps then Some (ps ! k0) else None)" "get_level h4 a 0 \<noteq> None"
    "if k0 < length ps then set_backward h4 (ps ! k0) (Some a) = Some h5 else h5 = h4"
    "links_ok h5 hdr L (ins_at k0 a ps) (ins_at k0 x hs) (ins_at k0 key ks)"
proof -
  have len: "length hs = length ps" "length ks = length ps" "\<forall>y \<in> set hs. 1 \<le> y"
    and bw: "\<And>k. k < length ps \<Longrightarrow> map_option backward (h (ps ! k)) = Some (pred_addr ps k)"
    using ok by (auto simp: links_ok_def)
  note shp = linked_shape [OF ok a x k0 upd h1, folded h3]
  have bw3: "map_option backward (h3 p) = map_option backward (h1 p)" for p
    by (simp add: h3 linked_def upd_entries_fields)
  have "h3 a \<noteq> None" by (simp add: h3 linked_def upd_entries_fields h1)
  then obtain h4 where h4: "set_backward h3 a (pred_addr ps k0) = Some h4" by (auto simp: set_backward_def)
  have "node_shape h3 a key x (drop k0 ps) (drop k0 hs)"
    using shp(2) [of k0] k0 len by (simp add: ins_at_nth ins_at_drop)
  then have "get_level h3 a 0 = Some (lnk 0 (drop k0 ps) (drop k0 hs))"
    using x by (auto simp: node_shape_def get_level_def peek_def)
  then have g: "get_level h4 a 0 = Some (lnk 0 (drop k0 ps) (drop k0 hs))"
    by (simp only: shape_set_backward(3) [OF h4])
  obtain h5 where h5: "if k0 < length ps then set_backward h4 (ps ! k0) (Some a) = Some h5 else h5 = h4"
  proof (cases "k0 < length ps")
    case True
    then have "h (ps ! k0) \<noteq> None" "ps ! k0 \<noteq> a" using links_dom [OF ok, of "ps ! k0"] a by auto
    then have "h4 (ps ! k0) \<noteq> None"
      using shape_set_backward(4) [OF h4, of "ps ! k0"] bw3 [of "ps ! k0"] by (auto simp: h1)
    then show ?thesis using that True by (auto simp: set_backward_def)
  qed (use that in simp)
  have shape5: "node_shape h5 = node_shape h3" "header_shape h5 = header_shape h3"
    using shape_set_backward_eq [OF h4] shape_set_backward_eq [of h4 "ps ! k0" "Some a" h5] h5
    by (metis (full_types))+
  have bw5: "map_option backward (h5 p) =
      (if k0 < length ps \<and> p = ps ! k0 then Some (Some a) else if p = a then Some (pred_addr ps k0) else map_option backward (h p))" for p
    using shape_set_backward(4) [OF h4, of p] shape_set_backward(4) [of h4 "ps ! k0" "Some a" h5 p] h5 bw3 [of p]
    by (auto simp: h1 split: if_splits)
  have "links_ok h5 hdr L (ins_at k0 a ps) (ins_at k0 x hs) (ins_at k0 key ks)"
    unfolding links_ok_def
  proof (intro conjI allI impI)
    fix k assume k: "k < length (ins_at k0 a ps)"
    then show "node_shape h5 (ins_at k0 a ps ! k) (ins_at k0 key ks ! k) (ins_at k0 x hs ! k)
        (drop (Suc k) (ins_at k0 a ps)) (drop (Suc k) (ins_at k0 x hs))"
      using shp(2) by (simp add: shape5)
    show "map_option backward (h5 (ins_at k0 a ps ! k)) = Some (pred_addr (ins_at k0 a ps) k)"
      using a ok k by (intro backward_ins_at [OF k0, of a h]) (auto simp: bw bw5 links_ok_def)
  qed (use ok a x shp(1) in \<open>auto simp: links_ok_def set_ins_at distinct_ins_at shape5\<close>)
  then show ?thesis using that [OF h4 _ _ h5] g lnk_0 [OF len(3,1), of k0] by simp
qed

lemma sorted_ins_at:
  assumes "sorted_wrt (<) ks" "key \<notin> set ks"
  shows "sorted_wrt (<) (ins_at (key_rank ks key) key ks)"
proof -
  let ?k = "key_rank ks key"
  have a: "x < key" if "x \<in> set (take ?k ks)" for x
    using that by (metis key_rank_def set_takeWhileD takeWhile_eq_take)
  have b: "key < x" if "x \<in> set (drop ?k ks)" for x
  proof -
    have "drop ?k ks = dropWhile (\<lambda>k. k < key) ks" by (simp add: key_rank_def dropWhile_eq_drop)
    then have "x \<in> set (dropWhile (\<lambda>k. k < key) ks)" using that by simp
    then obtain y ys where d: "dropWhile (\<lambda>k. k < key) ks = y # ys" "x = y \<or> x \<in> set ys"
      by (metis list.set_cases set_ConsD)
    have "\<not> y < key" using d(1) by (metis hd_dropWhile list.sel(1) list.distinct(1))
    moreover have "y \<noteq> key" using assms(2) d(1) by (metis list.set_intros(1) set_dropWhileD)
    moreover have "sorted_wrt (<) (y # ys)" using assms(1) d(1) by (metis sorted_wrt_append takeWhile_dropWhile_id)
    ultimately show ?thesis using d(2) by (auto dest: order.strict_trans)
  qed
  have c: "x < y" if "x \<in> set (take ?k ks)" "y \<in> set (drop ?k ks)" for x y
    using a [OF that(1)] b [OF that(2)] by (rule order.strict_trans)
  have "sorted_wrt (<) (take ?k ks)" "sorted_wrt (<) (drop ?k ks)" using assms(1) by (simp_all add: sorted_wrt_take sorted_wrt_drop)
  then show ?thesis using a b c by (auto simp: ins_at_def sorted_wrt_append)
qed

lemma zslInsert_shape:
  assumes shape: "zsl_shape h zsl ps hs ks" and sorted: "sorted_wrt (<) ks" and n: "length ps < 2 ^ 32"
    and a: "h a = None" and rnd: "zslRandomLevel rnd = Some lvl" and k0: "k0 = key_rank ks (sc, e)"
  obtains h' zsl' where "zslInsert rnd junk a h zsl sc e = Some (h', zsl')" "zsl_header zsl' = zsl_header zsl"
    "zsl_shape h' zsl' (ins_at k0 a ps) (ins_at k0 lvl hs) (ins_at k0 (sc, e) ks)"
proof -
  let ?hdr = "zsl_header zsl" and ?L = "zsl_level zsl" and ?M = "max (zsl_level zsl) lvl"
  have ok: "links_ok h ?hdr ?L ps hs ks" and tail: "zsl_tail zsl = pred_addr ps (length ps)"
    and len: "zsl_length zsl = length ps" and tight: "?L = 1 \<or> ?L \<in> set hs"
    using shape by (auto simp: zsl_shape_def)
  have hs: "length hs = length ps" "length ks = length ps" "\<forall>x \<in> set hs. x \<le> ?L" using ok by (auto simp: links_ok_def)
  have k0': "k0 \<le> length ps" using key_rank_le [of ks "(sc, e)"] hs k0 by simp
  have lvl: "1 \<le> lvl" "lvl \<le> ZSKIPLIST_MAXLEVEL" using zslRandomLevel_bounds [OF rnd] by simp_all
  obtain us where us: "walk_down h (node_before sc e) ?L ?hdr 0 = Some (pos ?hdr ps k0, k0, us)"
    "\<And>i. i < ?L \<Longrightarrow> fst (us ! i) = pos ?hdr ps (snd (us ! i)) \<and> upd_at ?L hs k0 i (snd (us ! i))"
    unfolding k0 by (rule walk_to_key [OF ok sorted n, of sc e]) blast
  obtain h1 where h1: "for_levels (raise_level zsl) [?L..<lvl] h = Some h1" "links_ok h1 ?hdr ?M ps hs ks"
    using ok lvl(2) len by (rule raise_level_correct)
  have na: "a \<notin> set (?hdr # ps)" using links_dom [OF ok, of a] a by auto
  define u where "u i = (if i < ?L then snd (us ! i) else 0)" for i
  define U where "U i = (if i < ?L then fst (us ! i) else ?hdr)" for i
  define R :: "nat \<Rightarrow> u32" where "R i = (if i < ?L then of_nat (snd (us ! i)) else 0)" for i
  have upd: "upd_at ?M hs k0 i (u i)" if "i < ?M" for i
    unfolding u_def using hs(3) that us(2) by (intro upd_at_raise) auto
  have U: "U i = pos ?hdr ps (u i)" "R i = of_nat (u i)" for i using us(2) [of i] by (simp_all add: U_def R_def u_def)
  have "u 0 = k0"
    using upd_at_0 [OF _ upd [of 0]] k0' hs lvl ok by (simp add: links_ok_def)
  then have U0: "(if U 0 = ?hdr then None else Some (U 0)) = pred_addr ps k0"
    using U(1) [of 0] pos_inj [of ?hdr ps k0 0] k0' ok by (cases k0) (auto simp: links_ok_def pred_addr_def)
  let ?n = "\<lparr>ele = Some e, score = sc, backward = fst (junk lvl), level = map junk [0..<lvl]\<rparr> :: 'a zskiplistNode"
  let ?h2 = "h1(a \<mapsto> ?n)"
  have lM: "lvl \<le> ?M" by simp
  obtain h2 where h2: "for_levels (link_level a U R) [0..<lvl] ?h2 = Some h2"
    "for_levels (bump_level U) [lvl..<?M] h2 = Some (linked ?h2 a lvl ?hdr ps hs u k0 ?M)"
    by (rule link_loops [OF h1(2) na lvl(1) lM k0' upd U refl, of ?n]) simp_all
  obtain h4 h5 where fin: "set_backward (linked ?h2 a lvl ?hdr ps hs u k0 ?M) a (pred_addr ps k0) = Some h4"
    "fst (the (get_level h4 a 0)) = (if k0 < length ps then Some (ps ! k0) else None)" "get_level h4 a 0 \<noteq> None"
    "if k0 < length ps then set_backward h4 (ps ! k0) (Some a) = Some h5 else h5 = h4"
    "links_ok h5 ?hdr ?M (ins_at k0 a ps) (ins_at k0 lvl hs) (ins_at k0 (sc, e) ks)"
    by (rule insert_finish [OF h1(2) na lvl(1) lM k0' upd refl, of ?n "(sc, e)"]) simp_all
  let ?zsl = "zsl\<lparr>zsl_level := ?M, zsl_tail := pred_addr (ins_at k0 a ps) (Suc (length ps)), zsl_length := Suc (length ps)\<rparr>"
  have eqs: "(\<lambda>i. if i < ?L then fst (us ! i) else ?hdr) = U"
    "(\<lambda>i. if i < ?L then of_nat (snd (us ! i)) else 0) = R"
    "(if 0 < ?L then fst (us ! 0) else ?hdr) = U 0"
    "zslCreateNode junk h1 a lvl sc (Some e) = ?h2"
    "(if lvl > ?L then zsl\<lparr>zsl_level := lvl\<rparr> else zsl) = zsl\<lparr>zsl_level := ?M\<rparr>"
    by (auto simp: U_def R_def zslCreateNode_def max_def)
  obtain f w where g: "get_level h4 a 0 = Some (f, w)" "f = (if k0 < length ps then Some (ps ! k0) else None)"
    using fin(2,3) by auto
  have "zslInsert rnd junk a h zsl sc e = do {
      (h, zsl) \<leftarrow> (case f of
         Some y \<Rightarrow> do { h \<leftarrow> set_backward h4 y (Some a); Some (h, zsl\<lparr>zsl_level := ?M\<rparr>) }
       | None \<Rightarrow> Some (h4, zsl\<lparr>zsl_level := ?M, zsl_tail := Some a\<rparr>));
      Some (h, zsl\<lparr>zsl_length := zsl_length zsl + 1\<rparr>) }"
    unfolding zslInsert_def us(1) bind.bind_lunit prod.case rnd Let_def eqs h1(1)
    using h2 U0 fin(1) g(1) by (simp split del: if_split)
  then have "zslInsert rnd junk a h zsl sc e = Some (h5, ?zsl)"
    using fin(4) g(2) len tail k0' by (cases zsl) (auto simp: pred_addr_def ins_at_nth)
  moreover have "zsl_shape h5 ?zsl (ins_at k0 a ps) (ins_at k0 lvl hs) (ins_at k0 (sc, e) ks)"
    using fin(5) tight lvl by (auto simp: zsl_shape_def set_ins_at max_def)
  ultimately show ?thesis using that by simp
qed

end
