(* ===== verification/Skiplist_Delete.thy ===== *)
theory Skiplist_Delete
  imports Skiplist_Refine
begin

text \<open>
  Deletion from the skip list, the ranks and the ranges: what the functions of \<open>t_zset.c\<close> do on
  the sorted list of keys that \<open>Skiplist_Refine\<close> abstracts a skip list to.
\<close>

subsection \<open>Deletion\<close>

text \<open>
  The lists before the deletion are those after it with one element inserted, so that the links
  before it are known from \<open>lnk_splice\<close>.
\<close>

definition del_at :: "nat \<Rightarrow> 'a list \<Rightarrow> 'a list" where
  "del_at k xs = take k xs @ drop (Suc k) xs"

lemma ins_at_del_at: "k < length xs \<Longrightarrow> ins_at k (xs ! k) (del_at k xs) = xs"
  by (simp add: ins_at_def del_at_def id_take_nth_drop [symmetric])

lemma length_del_at: "k < length xs \<Longrightarrow> length (del_at k xs) = length xs - 1"
  by (simp add: del_at_def)

lemma upd_at_ins_at:
  assumes "k0 \<le> length hs"
  shows "upd_at L (ins_at k0 x hs) k0 i u \<longleftrightarrow> upd_at L hs k0 i u"
proof (cases "u \<le> k0")
  case True
  then have "height L (ins_at k0 x hs) u = height L hs u" using assms by (cases u) (simp_all add: ins_at_nth)
  moreover have "take (k0 - u) (drop u (ins_at k0 x hs)) = take (k0 - u) (drop u hs)"
    using True assms by (simp add: ins_at_def drop_take)
  ultimately show ?thesis by (simp add: upd_at_def)
qed (simp add: upd_at_def)

definition unlinked ::
  "'s zheap \<Rightarrow> nat \<Rightarrow> nat list \<Rightarrow> nat list \<Rightarrow> (nat \<Rightarrow> nat) \<Rightarrow> nat \<Rightarrow> 's zheap" where
  "unlinked h hdr ps hs u L = upd_entries h (\<lambda>p j e.
     if j < L \<and> p = pos hdr ps (u j) then lnk j (drop (u j) ps) (drop (u j) hs) else e)"

lemma unlink_level_upd:
  assumes "get_level h (U i) i = Some (f, w)" "f = Some x \<Longrightarrow> get_level h x i = Some (xf, xw)"
    and "e' = (if f = Some x then (xf, w + (xw - 1)) else (f, w - 1))"
  shows "unlink_level x U i h = Some (upd_entries h (\<lambda>p j e. if p = U i \<and> j = i then e' else e))"
  using assms(1,2) unfolding assms(3) by (cases "f = Some x") (simp_all add: unlink_level_def set_level_upd [OF assms(1)])

lemma lnk_in: "length hs = length ps \<Longrightarrow> fst (lnk i ps hs) = Some p \<Longrightarrow> p \<in> set ps"
  using nxt_less by (fastforce simp: lnk_def)

lemma pos_ins_at: "k0 \<le> length ps \<Longrightarrow> u \<le> k0 \<Longrightarrow> pos hdr (ins_at k0 x ps) u = pos hdr ps u"
  by (cases u) (simp_all add: ins_at_nth)

lemma height_ins_at: "k0 \<le> length hs \<Longrightarrow> u \<le> k0 \<Longrightarrow> height L (ins_at k0 x hs) u = height L hs u"
  by (cases u) (simp_all add: ins_at_nth)

lemma unlink_loop:
  assumes ok: "links_ok h hdr L (ins_at k0 x ps) (ins_at k0 H hs) (ins_at k0 key ks)" and k0: "k0 \<le> length ps"
    and upd: "\<And>i. i < L \<Longrightarrow> upd_at L hs k0 i (u i)" and U: "\<And>i. i < L \<Longrightarrow> U i = pos hdr ps (u i)"
  shows "for_levels (unlink_level x U) [0..<L] h = Some (unlinked h hdr ps hs u L)"
proof -
  have len: "length hs = length ps" and nx: "x \<notin> set ps" "x \<noteq> hdr"
    using ok by (auto simp: links_ok_def distinct_ins_at set_ins_at)
  let ?E = "\<lambda>i. lnk i (drop (u i) ps) (drop (u i) hs)"
  let ?g = "\<lambda>i p j e. if p = U i \<and> j = i then ?E i else e"
  have "for_levels (unlink_level x U) [0..<L] h = Some (upd_entries h (\<lambda>p j e. if j \<in> set [0..<L] then ?g j p j e else e))"
  proof (rule for_levels_upd [where g = ?g])
    fix i h'
    assume i: "i \<in> set [0..<L]" and eq: "\<And>p. get_level h' p i = get_level h p i"
    then have iL: "i < L" by simp
    have u: "u i \<le> k0" "i < height L hs (u i)" using upd [OF iL] by (simp_all add: upd_at_def)
    have "get_level h (pos hdr (ins_at k0 x ps) (u i)) i =
        Some (lnk i (drop (u i) (ins_at k0 x ps)) (drop (u i) (ins_at k0 H hs)))"
      using u k0 len by (intro links_get [OF ok]) (simp_all add: height_ins_at)
    then have old: "get_level h' (U i) i =
        Some (if i < H then (Some x, of_nat (k0 - u i) + 1) else (fst (?E i), snd (?E i) + 1))"
      unfolding lnk_splice [OF len u(1) k0 u(2) upd [OF iL], folded ins_at_def, of x H] pos_ins_at [OF k0 u(1)]
      by (simp add: eq U [OF iL] Let_def)
    have xe: "get_level h' x i = Some (lnk i (drop k0 ps) (drop k0 hs))" if "i < H"
      using links_get [OF ok, of "Suc k0" i] that k0 len by (simp add: eq ins_at_nth ins_at_drop)
    have ne: "fst (?E i) \<noteq> Some x" using lnk_in [of "drop (u i) hs" "drop (u i) ps" i x] len nx by (auto dest: in_set_dropD)
    show "unlink_level x U i h' = Some (upd_entries h' (?g i))"
    proof (cases "i < H")
      case True
      then show ?thesis
        using old xe lnk_behind [OF len k0 upd [OF iL]] by (intro unlink_level_upd) (auto simp: prod_eq_iff)
    next
      case False
      then show ?thesis using old ne by (intro unlink_level_upd) auto
    qed
  qed auto
  moreover have "upd_entries h (\<lambda>p j e. if j \<in> set [0..<L] then ?g j p j e else e) = unlinked h hdr ps hs u L"
    unfolding unlinked_def using U by (intro upd_entries_cong) auto
  ultimately show ?thesis by simp
qed

lemma unlinked_shape:
  assumes ok: "links_ok h hdr L (ins_at k0 x ps) (ins_at k0 H hs) (ins_at k0 key ks)" and k0: "k0 \<le> length ps"
    and upd: "\<And>i. i < L \<Longrightarrow> upd_at L hs k0 i (u i)"
  shows "header_shape (unlinked h hdr ps hs u L) hdr L ps hs"
    and "k < length ps \<Longrightarrow> node_shape (unlinked h hdr ps hs u L) (ps ! k) (ks ! k) (hs ! k) (drop (Suc k) ps) (drop (Suc k) hs)"
    and "i < H \<Longrightarrow> get_level (unlinked h hdr ps hs u L) x i = Some (lnk i (drop k0 ps) (drop k0 hs))"
proof -
  have len: "length hs = length ps" "length ks = length ps" "distinct (hdr # ps)" "L \<le> ZSKIPLIST_MAXLEVEL" "x \<notin> set (hdr # ps)"
    and hgt: "\<And>j. j < length ps \<Longrightarrow> hs ! j \<le> L"
    using ok by (auto simp: links_ok_def distinct_ins_at set_ins_at)
  have u: "u i \<le> k0" if "i < L" for i using upd [OF that] by (simp add: upd_at_def)
  have at: "pos hdr ps r = pos hdr ps (u i) \<longleftrightarrow> r = u i" if "r \<le> length ps" "i < L" for r i
    using pos_inj [OF len(3) that(1)] u [OF that(2)] k0 by simp
  have early: "(if i < L \<and> pos hdr ps r = pos hdr ps (u i) then lnk i (drop (u i) ps) (drop (u i) hs)
      else lnk i (drop r (ins_at k0 x ps)) (drop r (ins_at k0 H hs))) = lnk i (drop r ps) (drop r hs)"
    if "r \<le> k0" "i < height L hs r" "i < L" for r i
    using lnk_splice [OF len(1) that(1) k0 that(2) upd [OF that(3)], of x H] at [of r i] that k0
    by (auto simp: ins_at_def Let_def)
  show "header_shape (unlinked h hdr ps hs u L) hdr L ps hs"
    unfolding unlinked_def
  proof (rule header_shape_upd)
    show "header_shape h hdr L (ins_at k0 x ps) (ins_at k0 H hs)" using ok by (simp add: links_ok_def)
    show "(if i < L \<and> hdr = pos hdr ps (u i) then lnk i (drop (u i) ps) (drop (u i) hs)
      else lnk i (ins_at k0 x ps) (ins_at k0 H hs)) = lnk i ps hs" if "i < L" for i
      using early [of 0 i] that by (simp only: pos_simps height_simps drop_0 le0 simp_thms)
  qed (use len in auto)
  have old: "node_shape h (ins_at k0 x ps ! q) (ins_at k0 key ks ! q) (ins_at k0 H hs ! q)
      (drop (Suc q) (ins_at k0 x ps)) (drop (Suc q) (ins_at k0 H hs))" if "q \<le> length ps" for q
    using ok that by (simp add: links_ok_def)
  show "node_shape (unlinked h hdr ps hs u L) (ps ! k) (ks ! k) (hs ! k) (drop (Suc k) ps) (drop (Suc k) hs)"
    if k: "k < length ps"
  proof (cases "k < k0")
    case True
    have "node_shape h (ps ! k) (ks ! k) (hs ! k) (drop (Suc k) (ins_at k0 x ps)) (drop (Suc k) (ins_at k0 H hs))"
      using old [of k] True k0 k len by (simp add: ins_at_nth)
    then show ?thesis
      unfolding unlinked_def
    proof (rule node_shape_upd)
      fix i assume "i < hs ! k"
      then have "Suc k \<le> k0" "i < height L hs (Suc k)" "i < L" using hgt [OF k] True by simp_all
      from early [OF this] show "(if i < L \<and> ps ! k = pos hdr ps (u i) then lnk i (drop (u i) ps) (drop (u i) hs)
          else lnk i (drop (Suc k) (ins_at k0 x ps)) (drop (Suc k) (ins_at k0 H hs))) = lnk i (drop (Suc k) ps) (drop (Suc k) hs)"
        by (simp only: pos_simps)
    qed
  next
    case False
    have "node_shape h (ps ! k) (ks ! k) (hs ! k) (drop (Suc k) ps) (drop (Suc k) hs)"
      using old [of "Suc k"] False k0 k len by (simp add: ins_at_nth ins_at_drop)
    then show ?thesis
      unfolding unlinked_def
    proof (rule node_shape_upd)
      fix i assume "i < hs ! k"
      then have "i < L" using hgt [OF k] by simp
      then show "(if i < L \<and> ps ! k = pos hdr ps (u i) then lnk i (drop (u i) ps) (drop (u i) hs)
          else lnk i (drop (Suc k) ps) (drop (Suc k) hs)) = lnk i (drop (Suc k) ps) (drop (Suc k) hs)"
        using at [of "Suc k" i] u [of i] False k by simp
    qed
  qed
  show "get_level (unlinked h hdr ps hs u L) x i = Some (lnk i (drop k0 ps) (drop k0 hs))" if "i < H"
  proof -
    have "x \<noteq> pos hdr ps (u i)" if "i < L" using len(5) u [OF that] k0 by (cases "u i") (auto simp: pos_def)
    moreover have "get_level h x i = Some (lnk i (drop k0 ps) (drop k0 hs))"
      using links_get [OF ok, of "Suc k0" i] that k0 len by (simp add: ins_at_nth ins_at_drop)
    ultimately show ?thesis by (auto simp: unlinked_def get_upd_entries)
  qed
qed

lemma backward_del_at:
  assumes k0: "k0 \<le> length ps" and d: "distinct ps"
    and old: "\<And>k. k \<le> length ps \<Longrightarrow> map_option backward (h (ins_at k0 x ps ! k)) = Some (pred_addr (ins_at k0 x ps) k)"
    and new: "\<And>p. (k0 < length ps \<Longrightarrow> p \<noteq> ps ! k0) \<Longrightarrow> map_option backward (h' p) = map_option backward (h p)"
    and y: "k0 < length ps \<Longrightarrow> map_option backward (h' (ps ! k0)) = Some (pred_addr ps k0)"
    and k: "k < length ps"
  shows "map_option backward (h' (ps ! k)) = Some (pred_addr ps k)"
proof -
  have ne: "ps ! k \<noteq> ps ! k0" if "k0 < length ps" "k \<noteq> k0" using d that k by (simp add: nth_eq_iff_index_eq)
  consider "k < k0" | "k = k0" | "k0 < k" by linarith
  then show ?thesis
  proof cases
    case 1
    then show ?thesis using new [of "ps ! k"] old [of k] ne k k0 by (cases k) (simp_all add: ins_at_nth pred_addr_def)
  next
    case 3
    then show ?thesis using new [of "ps ! k"] old [of "Suc k"] ne k k0 by (simp add: ins_at_nth pred_addr_def)
  qed (use y k in simp)
qed

lemma lower_level_correct:
  assumes "header_shape h hdr L ps hs" "L \<le> ZSKIPLIST_MAXLEVEL"
  shows "m \<le> L \<Longrightarrow> 1 \<le> m \<Longrightarrow> \<forall>x \<in> set hs. x \<le> m \<Longrightarrow>
    \<exists>m'. lower_level h hdr m = Some m' \<and> 1 \<le> m' \<and> m' \<le> m \<and> (\<forall>x \<in> set hs. x \<le> m') \<and> (m' = 1 \<or> m' \<in> set hs)"
  using assms
proof (induction h hdr m rule: lower_level.induct)
  case (1 h hdr i)
  then have g: "get_level h hdr (Suc i) = Some (lnk (Suc i) ps hs)"
    by (auto simp: header_shape_def get_level_def peek_def)
  show ?case
  proof (cases "nxt (Suc i) hs")
    case None
    then show ?thesis using 1 g by (fastforce simp: lnk_def nxt_None_iff)
  next
    case (Some j)
    then have "hs ! j \<in> set hs" "Suc i < hs ! j" using nxt_less by auto
    then have "Suc (Suc i) \<in> set hs" using 1(4) by (metis Suc_leI le_antisym)
    then show ?thesis using g Some 1(4) by (simp add: lnk_def)
  qed
qed auto

lemma links_lower:
  assumes "links_ok h hdr L ps hs ks" "1 \<le> m" "m \<le> L" "\<forall>x \<in> set hs. x \<le> m"
  shows "links_ok h hdr m ps hs ks"
proof -
  have "lnk i ps hs = (None, of_nat (length hs))" if "m \<le> i" for i
    using assms(4) that by (intro lnk_None) (auto simp: nxt_None_iff intro: order_trans)
  then have "header_shape h hdr m ps hs"
    using assms by (auto simp: links_ok_def header_shape_def) (metis fst_conv not_le)
  then show ?thesis using assms by (auto simp: links_ok_def)
qed

lemma links_cong:
  assumes "links_ok h hdr L ps hs ks" "\<And>p. p \<in> set (hdr # ps) \<Longrightarrow> h' p = h p"
  shows "links_ok h' hdr L ps hs ks"
  using assms unfolding links_ok_def header_shape_def node_shape_def by simp

lemma shape_cong:
  assumes "zsl_shape h zsl ps hs ks" "\<And>p. p \<in> set (zsl_header zsl # ps) \<Longrightarrow> h' p = h p"
  shows "zsl_shape h' zsl ps hs ks"
  using assms links_cong [of h "zsl_header zsl" "zsl_level zsl" ps hs ks h'] by (simp add: zsl_shape_def)

lemma zslDeleteNode_shape:
  assumes shape: "zsl_shape h zsl (ins_at k0 x ps) (ins_at k0 H hs) (ins_at k0 key ks)" and k0: "k0 \<le> length ps"
    and upd: "\<And>i. i < zsl_level zsl \<Longrightarrow> upd_at (zsl_level zsl) hs k0 i (u i)"
    and U: "\<And>i. i < zsl_level zsl \<Longrightarrow> U i = pos (zsl_header zsl) ps (u i)"
  obtains h' zsl' where "zslDeleteNode h zsl x U = Some (h', zsl')" "zsl_header zsl' = zsl_header zsl" "zsl_shape h' zsl' ps hs ks"
    "\<And>p. h' p = None \<longleftrightarrow> h p = None"
proof -
  let ?hdr = "zsl_header zsl" and ?L = "zsl_level zsl"
  have ok: "links_ok h ?hdr ?L (ins_at k0 x ps) (ins_at k0 H hs) (ins_at k0 key ks)"
    and tail: "zsl_tail zsl = pred_addr (ins_at k0 x ps) (Suc (length ps))" and len: "zsl_length zsl = Suc (length ps)"
    using shape by (auto simp: zsl_shape_def)
  have l: "length hs = length ps" "length ks = length ps" "\<forall>y \<in> set hs. 1 \<le> y \<and> y \<le> ?L" "1 \<le> H" "1 \<le> ?L" "?L \<le> ZSKIPLIST_MAXLEVEL"
    "distinct (x # ?hdr # ps)"
    using ok by (auto simp: links_ok_def set_ins_at distinct_ins_at)
  let ?h = "unlinked h ?hdr ps hs u ?L"
  note shp = unlinked_shape [OF ok k0 upd]
  have bw: "map_option backward (?h p) = map_option backward (h p)" "?h p = None \<longleftrightarrow> h p = None" for p
    by (simp_all add: unlinked_def upd_entries_fields)
  have old: "map_option backward (h (ins_at k0 x ps ! k)) = Some (pred_addr (ins_at k0 x ps) k)" if "k \<le> length ps" for k
    using ok that by (simp add: links_ok_def)
  have "pred_addr (ins_at k0 x ps) k0 = pred_addr ps k0" "ins_at k0 x ps ! k0 = x"
    using k0 by (simp_all add: pred_addr_def ins_at_nth)
  with old [of k0] k0 have "map_option backward (?h x) = Some (pred_addr ps k0)" by (simp only: bw)
  then obtain nx where nx: "?h x = Some nx" "backward nx = pred_addr ps k0" by auto
  have "fst (lnk 0 (drop k0 ps) (drop k0 hs)) = (if k0 < length ps then Some (ps ! k0) else None)"
    using l by (intro lnk_0) auto
  then obtain w where g: "get_level ?h x 0 = Some (if k0 < length ps then Some (ps ! k0) else None, w)"
    using shp(3) [of 0] l(4) by (cases "lnk 0 (drop k0 ps) (drop k0 hs)") simp
  obtain h5 where h5: "if k0 < length ps then set_backward ?h (ps ! k0) (pred_addr ps k0) = Some h5 else h5 = ?h"
  proof (cases "k0 < length ps")
    case True
    then have "?h (ps ! k0) \<noteq> None" using old [of "Suc k0"] k0 by (auto simp: bw ins_at_nth)
    then show ?thesis using that True by (auto simp: set_backward_def)
  qed (use that in simp)
  have shape5: "node_shape h5 = node_shape ?h" "header_shape h5 = header_shape ?h"
    using shape_set_backward_eq [of ?h "ps ! k0" "pred_addr ps k0" h5] h5 by (metis (full_types))+
  have bw5: "map_option backward (h5 p) =
      (if k0 < length ps \<and> p = ps ! k0 then Some (pred_addr ps k0) else map_option backward (h p))" for p
    using shape_set_backward(4) [of ?h "ps ! k0" "pred_addr ps k0" h5 p] h5 bw(1) [of p] by (auto split: if_splits)
  have dom: "h5 p = None \<longleftrightarrow> h p = None" for p
    using bw5 [of p] bw(2) [of p] h5 by (cases "h p") (auto simp: set_backward_def split: if_splits bind_splits)
  have ok5: "links_ok h5 ?hdr ?L ps hs ks"
    unfolding links_ok_def
  proof (intro conjI allI impI)
    fix k assume k: "k < length ps"
    then show "node_shape h5 (ps ! k) (ks ! k) (hs ! k) (drop (Suc k) ps) (drop (Suc k) hs)" using shp(2) by (simp add: shape5)
    show "map_option backward (h5 (ps ! k)) = Some (pred_addr ps k)"
      by (rule backward_del_at [OF k0 _ old _ _ k]) (use l in \<open>auto simp: bw5\<close>)
  qed (use l shp(1) in \<open>auto simp: shape5\<close>)
  obtain m where m: "lower_level h5 ?hdr ?L = Some m" "1 \<le> m" "m \<le> ?L" "\<forall>x \<in> set hs. x \<le> m" "m = 1 \<or> m \<in> set hs"
    using lower_level_correct [of h5 ?hdr ?L ps hs ?L] ok5 l by (auto simp: links_ok_def)
  let ?zsl = "zsl\<lparr>zsl_tail := pred_addr ps (length ps), zsl_level := m, zsl_length := length ps\<rparr>"
  have loop: "for_levels (unlink_level x U) [0..<?L] h = Some ?h" by (rule unlink_loop [OF ok k0 upd U])
  have "zslDeleteNode h zsl x U = Some (h5, ?zsl)"
    unfolding zslDeleteNode_def loop bind.bind_lunit
    using nx g h5 m(1) tail len k0 by (cases zsl) (auto simp: pred_addr_def ins_at_nth)
  moreover have "zsl_shape h5 ?zsl ps hs ks" using links_lower [OF ok5 m(2-4)] m(5) by (simp add: zsl_shape_def)
  ultimately show ?thesis using that dom by simp
qed

text \<open>Unlinking a node changes links only: every node keeps its element and its score.\<close>

definition node_data :: "'s zheap \<Rightarrow> nat \<Rightarrow> (bytes option \<times> 's) option" where
  "node_data h p = map_option (\<lambda>n. (ele n, score n)) (h p)"

lemma set_links_data:
  "set_level h x i l = Some h' \<Longrightarrow> node_data h' = node_data h"
  "set_backward h x b = Some h' \<Longrightarrow> node_data h' = node_data h"
  by (auto intro!: ext simp: node_data_def set_level_def set_backward_def split: bind_splits if_splits)

lemma for_levels_data:
  assumes "\<And>i h h'. f i h = Some h' \<Longrightarrow> node_data h' = node_data h"
  shows "for_levels f is h = Some h' \<Longrightarrow> node_data h' = node_data h"
proof (induction "is" arbitrary: h)
  case (Cons i js)
  from Cons.prems obtain h1 where "f i h = Some h1" "for_levels f js h1 = Some h'" by (auto split: bind_splits)
  then show ?case using assms [of i h h1] Cons.IH [of h1] by simp
qed simp

lemma unlink_level_data: "unlink_level x u i h = Some h' \<Longrightarrow> node_data h' = node_data h"
  by (auto simp: unlink_level_def dest: set_links_data split: bind_splits if_splits)

lemma zslDeleteNode_data: "zslDeleteNode h zsl x u = Some (h', zsl') \<Longrightarrow> node_data h' = node_data h"
proof -
  assume "zslDeleteNode h zsl x u = Some (h', zsl')"
  then obtain h1 where h1: "for_levels (unlink_level x u) [0..<zsl_level zsl] h = Some h1"
    and h': "h' = h1 \<or> (\<exists>y b. set_backward h1 y b = Some h')"
    unfolding zslDeleteNode_def by (auto split: bind_splits option.splits) blast
  have "node_data h1 = node_data h" by (rule for_levels_data [OF unlink_level_data h1])
  then show ?thesis using h' set_links_data(2) by metis
qed

lemma key_rank_found:
  assumes "sorted_wrt (<) ks" "j < length ks"
  shows "key_rank ks (ks ! j) = j"
proof -
  have "\<not> ks ! j < ks ! j" by simp
  then have "takeWhile (\<lambda>k. k < ks ! j) ks = take j ks"
    using assms by (intro takeWhile_eq_take_P_nth) (auto simp: sorted_wrt_nth_less)
  then show ?thesis using assms(2) by (simp add: key_rank_def)
qed

lemma key_rank_absent:
  "key \<notin> set ks \<Longrightarrow> key_rank ks key < length ks \<Longrightarrow> ks ! key_rank ks key \<noteq> key"
  by (metis nth_mem)

lemma zslDelete_shape:
  assumes shape: "zsl_shape h zsl ps hs ks" and sorted: "sorted_wrt (<) ks" and n: "length ps < 2 ^ 32"
    and k0: "k0 = key_rank ks (sc, e)" and mem: "(sc, e) \<in> set ks"
  obtains h' zsl' where "zslDelete h zsl sc e keep = Some (h', zsl', Some (ps ! k0))" "zsl_header zsl' = zsl_header zsl"
    "zsl_shape h' zsl' (del_at k0 ps) (del_at k0 hs) (del_at k0 ks)" "k0 < length ps" "ks ! k0 = (sc, e)"
    "\<And>p. node_data h' p = (if \<not> keep \<and> p = ps ! k0 then None else node_data h p)"
proof -
  let ?hdr = "zsl_header zsl" and ?L = "zsl_level zsl"
  have ok: "links_ok h ?hdr ?L ps hs ks" using shape by (simp add: zsl_shape_def)
  then have len: "length hs = length ps" "length ks = length ps" "distinct (?hdr # ps)" "\<forall>y \<in> set hs. 1 \<le> y" "1 \<le> ?L"
    by (auto simp: links_ok_def)
  obtain j where "j < length ks" "ks ! j = (sc, e)" using mem by (auto simp: in_set_conv_nth)
  then have k: "k0 < length ps" "ks ! k0 = (sc, e)" using key_rank_found [OF sorted, of j] k0 len by simp_all
  let ?x = "ps ! k0" and ?ps = "del_at k0 ps" and ?hs = "del_at k0 hs" and ?ks = "del_at k0 ks"
  have ins: "ins_at k0 ?x ?ps = ps" "ins_at k0 (hs ! k0) ?hs = hs" "ins_at k0 (sc, e) ?ks = ks"
    using ins_at_del_at [of k0 ps] ins_at_del_at [of k0 hs] ins_at_del_at [of k0 ks] k len by simp_all
  obtain us where us: "walk_down h (node_before sc e) ?L ?hdr 0 = Some (pos ?hdr ps k0, k0, us)"
    "\<And>i. i < ?L \<Longrightarrow> fst (us ! i) = pos ?hdr ps (snd (us ! i)) \<and> upd_at ?L hs k0 i (snd (us ! i))"
    unfolding k0 by (rule walk_to_key [OF ok sorted n, of sc e]) blast
  have k0': "k0 \<le> length ?ps" "k0 \<le> length ?hs" using k len by (simp_all add: length_del_at)
  have upd: "upd_at ?L ?hs k0 i (snd (us ! i))" if "i < ?L" for i
    using us(2) [OF that] upd_at_ins_at [OF k0'(2), of ?L "hs ! k0"] by (simp add: ins)
  have U: "fst (us ! i) = pos ?hdr ?ps (snd (us ! i))" if "i < ?L" for i
    using us(2) [OF that] upd [OF that] pos_ins_at [OF k0'(1), of "snd (us ! i)" ?hdr ?x] by (simp add: ins upd_at_def)
  obtain h1 zsl1 where d: "zslDeleteNode h zsl ?x (\<lambda>i. fst (us ! i)) = Some (h1, zsl1)" "zsl_header zsl1 = ?hdr"
    "zsl_shape h1 zsl1 ?ps ?hs ?ks" "\<And>p. h1 p = None \<longleftrightarrow> h p = None"
    by (rule zslDeleteNode_shape [of h zsl k0 ?x ?ps "hs ! k0" ?hs "(sc, e)" ?ks, unfolded ins, OF shape k0'(1) upd U]) blast+
  have "get_level h (pos ?hdr ps k0) 0 = Some (lnk 0 (drop k0 ps) (drop k0 hs))"
    using k len by (intro links_get [OF ok]) (cases k0; simp add: Suc_le_eq)+
  then obtain w where g: "get_level h (pos ?hdr ps k0) 0 = Some (Some ?x, w)"
    using lnk_0 [OF len(4,1), of k0] k by (cases "lnk 0 (drop k0 ps) (drop k0 hs)") simp
  obtain nd where nd: "h ?x = Some nd" "ele nd = Some e" "score nd = sc"
    using links_node [OF ok k(1)] k(2) by (metis fst_conv snd_conv)
  let ?h = "if keep then h1 else zslFreeNode h1 ?x"
  have del: "zslDelete h zsl sc e keep = Some (?h, zsl1, Some ?x)"
    unfolding zslDelete_def us(1) using g nd d(1) by (simp add: sdscmp_str_eq)
  have "?x \<notin> set (?hdr # ?ps)" using len(3) ins(1) distinct_ins_at [of k0 ?x ?ps] nth_mem [OF k(1)] by auto
  then have shp: "zsl_shape ?h zsl1 ?ps ?hs ?ks"
    by (intro shape_cong [OF d(3)]) (auto simp: d(2) zslFreeNode_def)
  have "node_data ?h p = (if \<not> keep \<and> p = ?x then None else node_data h p)" for p
    using fun_cong [OF zslDeleteNode_data [OF d(1)], of p] by (simp add: zslFreeNode_def node_data_def)
  then show ?thesis by (rule that [OF del d(2) shp k])
qed

lemma zslDelete_absent:
  assumes shape: "zsl_shape h zsl ps hs ks" and sorted: "sorted_wrt (<) ks" and n: "length ps < 2 ^ 32"
    and mem: "(sc, e) \<notin> set ks"
  shows "zslDelete h zsl sc e keep = Some (h, zsl, None)"
proof -
  let ?hdr = "zsl_header zsl" and ?L = "zsl_level zsl" and ?k = "key_rank ks (sc, e)"
  have ok: "links_ok h ?hdr ?L ps hs ks" using shape by (simp add: zsl_shape_def)
  then have len: "length hs = length ps" "length ks = length ps" "\<forall>y \<in> set hs. 1 \<le> y" "1 \<le> ?L"
    by (auto simp: links_ok_def)
  have k: "?k \<le> length ps" using key_rank_le [of ks] len by simp
  obtain us where us: "walk_down h (node_before sc e) ?L ?hdr 0 = Some (pos ?hdr ps ?k, ?k, us)"
    by (rule walk_to_key [OF ok sorted n, of sc e]) blast
  have "get_level h (pos ?hdr ps ?k) 0 = Some (lnk 0 (drop ?k ps) (drop ?k hs))"
    using k len by (intro links_get [OF ok]) (cases ?k; simp add: Suc_le_eq)+
  then obtain w where g: "get_level h (pos ?hdr ps ?k) 0 = Some (if ?k < length ps then Some (ps ! ?k) else None, w)"
    using lnk_0 [OF len(3,1), of ?k] by (cases "lnk 0 (drop ?k ps) (drop ?k hs)") simp
  show ?thesis
  proof (cases "?k < length ps")
    case True
    then obtain nd where nd: "h (ps ! ?k) = Some nd" "ele nd = Some (snd (ks ! ?k))" "score nd = fst (ks ! ?k)"
      by (rule links_node [OF ok])
    have "ks ! ?k \<noteq> (sc, e)" using key_rank_absent [OF mem] True len by simp
    then show ?thesis unfolding zslDelete_def us using g nd True by (auto simp: sdscmp_str_eq prod_eq_iff)
  next
    case False
    then show ?thesis unfolding zslDelete_def us using g by simp
  qed
qed

subsection \<open>Ranks\<close>

text \<open>
  A loop condition that depends only on the key of the next node, and that holds for a prefix of
  the list, stops the walk behind this prefix.
\<close>

lemma adv_prefix:
  assumes ok: "links_ok h hdr L ps hs ks"
    and adv: "\<And>k w n key. ele n = Some (snd key) \<Longrightarrow> score n = fst key \<Longrightarrow> adv k w n \<longleftrightarrow> P key"
    and mono: "\<And>i j. i < j \<Longrightarrow> j < length ks \<Longrightarrow> P (ks ! j) \<Longrightarrow> P (ks ! i)"
    and q: "k < q" "q \<le> length ps" "h (pos hdr ps q) = Some n"
  shows "adv k (q - k) n \<longleftrightarrow> q \<le> length (takeWhile P ks)"
proof -
  obtain j where j: "q = Suc j" "j < length ps" using q by (cases q) auto
  have len: "length ks = length ps" using ok by (simp add: links_ok_def)
  obtain n' where "h (ps ! j) = Some n'" "ele n' = Some (snd (ks ! j))" "score n' = fst (ks ! j)"
    using ok j(2) by (rule links_node)
  then have "adv k (q - k) n \<longleftrightarrow> P (ks ! j)" using q(3) j adv [of n "ks ! j"] by simp
  also have "\<dots> \<longleftrightarrow> j < length (takeWhile P ks)" using mono j len by (intro prefix_takeWhile) auto
  finally show ?thesis using j by auto
qed

lemma node_upto_key: "ele n = Some (snd key) \<Longrightarrow> score n = fst key \<Longrightarrow> node_upto sc e r w n \<longleftrightarrow> key \<le> (sc, e)"
  by (cases key) (auto simp: node_upto_def sdscmp_str_eq)

lemma get_rank_loop_correct:
  assumes ok: "links_ok h hdr L ps hs ks" and sorted: "sorted_wrt (<) ks" and n: "length ps < 2 ^ 32"
    and d: "distinct (map snd ks)" and j: "j < length ps" "ks ! j = (sc, e)"
  shows "k \<le> Suc j \<Longrightarrow> m \<le> height L hs k \<Longrightarrow> 0 < m \<Longrightarrow>
    get_rank_loop h sc e m (pos hdr ps k) k = Some (Suc j)"
proof (induction m arbitrary: k)
  case (Suc m)
  have len: "length ks = length ps" "length hs = length ps" using ok by (simp_all add: links_ok_def)
  have "takeWhile (\<lambda>k. k \<le> (sc, e)) ks = take (Suc j) ks"
  proof (rule takeWhile_eq_take_P_nth)
    fix i assume "i < Suc j" "i < length ks"
    then show "ks ! i \<le> (sc, e)"
      using sorted j len by (metis less_Suc_eq order.refl order.strict_implies_order sorted_wrt_nth_less)
  next
    assume "Suc j < length ks"
    then have "ks ! j < ks ! Suc j" using sorted by (simp add: sorted_wrt_nth_less)
    then show "\<not> ks ! Suc j \<le> (sc, e)" using j by (simp add: not_le)
  qed
  then have pre: "length (takeWhile (\<lambda>k. k \<le> (sc, e)) ks) = Suc j" using j len by simp
  have "\<exists>u. walk_level h (node_upto sc e) m (pos hdr ps k) k = Some (pos hdr ps u, u) \<and> k \<le> u \<and> upd_at L hs (Suc j) m u"
  proof (rule walk_level_correct [OF ok n])
    fix k q n assume "k < q" "q \<le> length ps" "h (pos hdr ps q) = Some n"
    then show "node_upto sc e k (q - k) n \<longleftrightarrow> q \<le> Suc j"
      unfolding pre [symmetric] using sorted
      by (intro adv_prefix [OF ok node_upto_key]) (auto dest: sorted_wrt_nth_less)
  qed (use j Suc.prems in simp_all)
  then obtain u where u: "walk_level h (node_upto sc e) m (pos hdr ps k) k = Some (pos hdr ps u, u)" "upd_at L hs (Suc j) m u"
    by blast
  have uj: "u \<le> Suc j" "m < height L hs u" using u(2) by (simp_all add: upd_at_def)
  show ?case
  proof (cases "u = Suc j")
    case True
    obtain nd where "h (ps ! j) = Some nd" "ele nd = Some (snd (ks ! j))" by (rule links_node [OF ok j(1)])
    then show ?thesis using True u(1) j by (simp add: sdscmp_str_eq)
  next
    case False
    then have m: "0 < m" using upd_at_0 [of hs L "Suc j" u] u(2) ok j len by (cases m) (auto simp: links_ok_def)
    obtain nd where nd: "h (pos hdr ps u) = Some nd" "ele nd \<noteq> Some e"
    proof (cases u)
      case 0
      then show ?thesis using links_header [OF ok] that by (metis option.distinct(1) pos_simps(1))
    next
      case (Suc i)
      then have i: "i < length ps" "i \<noteq> j" using False uj j by auto
      obtain nd where "h (ps ! i) = Some nd" "ele nd = Some (snd (ks ! i))" by (rule links_node [OF ok i(1)])
      moreover have "snd (ks ! i) \<noteq> e" using d i j len nth_eq_iff_index_eq [OF d, of i j] by auto
      ultimately show ?thesis using that Suc by simp
    qed
    then have "\<not> (case ele nd of Some e' \<Rightarrow> sdscmp_str e' e = 0 | None \<Rightarrow> False)"
      by (auto simp: sdscmp_str_eq split: option.splits)
    then show ?thesis using u(1) nd Suc.IH [of u] uj m by simp
  qed
qed simp

lemma by_rank_loop_correct:
  assumes ok: "links_ok h hdr L ps hs ks" and n: "length ps < 2 ^ 32"
  shows "k \<le> min r (length ps) \<Longrightarrow> m \<le> height L hs k \<Longrightarrow> 0 < m \<Longrightarrow>
    by_rank_loop h r m (pos hdr ps k) k = Some (if r \<le> length ps then Some (pos hdr ps r) else None)"
proof (induction m arbitrary: k)
  case (Suc m)
  let ?k0 = "min r (length ps)"
  have len: "length hs = length ps" using ok by (simp_all add: links_ok_def)
  have "\<exists>u. walk_level h (\<lambda>t span n. t + span \<le> r) m (pos hdr ps k) k = Some (pos hdr ps u, u) \<and> k \<le> u \<and> upd_at L hs ?k0 m u"
    by (rule walk_level_correct [OF ok n]) (use Suc.prems in auto)
  then obtain u where u: "walk_level h (\<lambda>t span n. t + span \<le> r) m (pos hdr ps k) k = Some (pos hdr ps u, u)"
    "upd_at L hs ?k0 m u" by blast
  have uk: "u \<le> ?k0" "m < height L hs u" using u(2) by (simp_all add: upd_at_def)
  show ?case
  proof (cases "m = 0")
    case True
    then have "u = ?k0" using upd_at_0 [of hs L ?k0 u] u(2) ok len by (auto simp: links_ok_def)
    then show ?thesis using u(1) True by auto
  next
    case False
    then show ?thesis using u(1) Suc.IH [of u] uk by auto
  qed
qed simp

subsection \<open>Ranges\<close>

text \<open>
  The walks of the range functions: \<open>Lo\<close> says that a key is not below the range, \<open>Hi\<close> that it is
  not above it.
\<close>

lemma walk_first:
  assumes ok: "links_ok h hdr L ps hs ks" and n: "length ps < 2 ^ 32"
    and adv: "\<And>k w n key. ele n = Some (snd key) \<Longrightarrow> score n = fst key \<Longrightarrow> adv k w n \<longleftrightarrow> \<not> Lo key"
    and mono: "\<And>i j. i \<le> j \<Longrightarrow> j < length ks \<Longrightarrow> Lo (ks ! i) \<Longrightarrow> Lo (ks ! j)"
    and ne: "ps \<noteq> []" "Lo (ks ! (length ps - 1))"
  obtains k us w where "walk_down h adv L hdr 0 = Some (pos hdr ps k, k, us)" "k < length ps"
    "get_level h (pos hdr ps k) 0 = Some (Some (ps ! k), w)" "Lo (ks ! k)" "\<forall>j < k. \<not> Lo (ks ! j)"
proof -
  let ?k = "length (takeWhile (\<lambda>k. \<not> Lo k) ks)"
  have len: "length ks = length ps" "length hs = length ps" "\<forall>y \<in> set hs. 1 \<le> y" "1 \<le> L"
    using ok by (auto simp: links_ok_def)
  have pre: "\<not> Lo (ks ! j) \<longleftrightarrow> j < ?k" if "j < length ps" for j
    by (rule prefix_takeWhile) (use mono [OF less_imp_le] that len in auto)
  have k: "?k < length ps" using pre [of "length ps - 1"] ne by (cases ps) auto
  have "\<exists>v us. walk_down h adv L (pos hdr ps 0) 0 = Some (pos hdr ps v, v, us) \<and> length us = L \<and>
      (\<forall>i < L. \<exists>u. us ! i = (pos hdr ps u, u) \<and> upd_at L hs ?k i u) \<and> (if L = 0 then v = 0 else v = ?k)"
  proof (rule walk_down_correct [OF ok n])
    fix k q n assume "k < q" "q \<le> length ps" "h (pos hdr ps q) = Some n"
    then show "adv k (q - k) n \<longleftrightarrow> q \<le> ?k" using mono [OF less_imp_le] by (intro adv_prefix [OF ok adv]) auto
  qed (use k in simp_all)
  then obtain us where "walk_down h adv L hdr 0 = Some (pos hdr ps ?k, ?k, us)" using len(4) by auto
  moreover have "get_level h (pos hdr ps ?k) 0 = Some (lnk 0 (drop ?k ps) (drop ?k hs))"
    using k len by (intro links_get [OF ok]) (cases ?k; simp add: Suc_le_eq)+
  then have "\<exists>w. get_level h (pos hdr ps ?k) 0 = Some (Some (ps ! ?k), w)"
    using lnk_0 [OF len(3,2), of ?k] k by (cases "lnk 0 (drop ?k ps) (drop ?k hs)") simp
  ultimately show ?thesis using that k pre by auto
qed

lemma walk_last:
  assumes ok: "links_ok h hdr L ps hs ks" and n: "length ps < 2 ^ 32"
    and adv: "\<And>k w n key. ele n = Some (snd key) \<Longrightarrow> score n = fst key \<Longrightarrow> adv k w n \<longleftrightarrow> Hi key"
    and mono: "\<And>i j. i \<le> j \<Longrightarrow> j < length ks \<Longrightarrow> Hi (ks ! j) \<Longrightarrow> Hi (ks ! i)"
    and ne: "ps \<noteq> []" "Hi (ks ! 0)"
  obtains k us where "walk_down h adv L hdr 0 = Some (ps ! k, Suc k, us)" "k < length ps"
    "Hi (ks ! k)" "\<forall>j < length ps. k < j \<longrightarrow> \<not> Hi (ks ! j)"
proof -
  let ?k = "length (takeWhile Hi ks)"
  have len: "length ks = length ps" "1 \<le> L" using ok by (auto simp: links_ok_def)
  have pre: "Hi (ks ! j) \<longleftrightarrow> j < ?k" if "j < length ps" for j
    by (rule prefix_takeWhile) (use mono [OF less_imp_le] that len in auto)
  have k: "0 < ?k" "?k \<le> length ps" using pre [of 0] ne len length_takeWhile_le [of Hi ks] by auto
  have "\<exists>v us. walk_down h adv L (pos hdr ps 0) 0 = Some (pos hdr ps v, v, us) \<and> length us = L \<and>
      (\<forall>i < L. \<exists>u. us ! i = (pos hdr ps u, u) \<and> upd_at L hs ?k i u) \<and> (if L = 0 then v = 0 else v = ?k)"
  proof (rule walk_down_correct [OF ok n])
    fix k q n assume "k < q" "q \<le> length ps" "h (pos hdr ps q) = Some n"
    then show "adv k (q - k) n \<longleftrightarrow> q \<le> ?k" using mono [OF less_imp_le] by (intro adv_prefix [OF ok adv]) auto
  qed (use k in simp_all)
  then obtain us where us: "walk_down h adv L hdr 0 = Some (pos hdr ps ?k, ?k, us)" using len(2) by auto
  obtain m where m: "?k = Suc m" using k by (cases ?k) auto
  show ?thesis
    by (rule that [of m us]) (use us m k pre in auto)
qed

text \<open>What the two functions return: the first and the last node in the range, \<open>NULL\<close> if there is none.\<close>

definition first_in :: "('k \<Rightarrow> bool) \<Rightarrow> nat list \<Rightarrow> 'k list \<Rightarrow> nat option \<Rightarrow> bool" where
  "first_in P ps ks r = (case r of
     None \<Rightarrow> \<forall>k \<in> set ks. \<not> P k
   | Some p \<Rightarrow> \<exists>k < length ps. p = ps ! k \<and> P (ks ! k) \<and> (\<forall>j < k. \<not> P (ks ! j)))"

definition last_in :: "('k \<Rightarrow> bool) \<Rightarrow> nat list \<Rightarrow> 'k list \<Rightarrow> nat option \<Rightarrow> bool" where
  "last_in P ps ks r = (case r of
     None \<Rightarrow> \<forall>k \<in> set ks. \<not> P k
   | Some p \<Rightarrow> \<exists>k < length ps. p = ps ! k \<and> P (ks ! k) \<and> (\<forall>j < length ps. k < j \<longrightarrow> \<not> P (ks ! j)))"

lemma first_scan:
  assumes ok: "links_ok h hdr L ps hs ks" and n: "length ps < 2 ^ 32"
    and adv: "\<And>k w n key. ele n = Some (snd key) \<Longrightarrow> score n = fst key \<Longrightarrow> adv k w n \<longleftrightarrow> \<not> Lo key"
    and lo: "\<And>i j. i \<le> j \<Longrightarrow> j < length ks \<Longrightarrow> Lo (ks ! i) \<Longrightarrow> Lo (ks ! j)"
    and hi: "\<And>i j. i \<le> j \<Longrightarrow> j < length ks \<Longrightarrow> Hi (ks ! j) \<Longrightarrow> Hi (ks ! i)"
    and ne: "ps \<noteq> []" "Lo (ks ! (length ps - 1))"
  obtains k us w nd where "walk_down h adv L hdr 0 = Some (pos hdr ps k, k, us)"
    "get_level h (pos hdr ps k) 0 = Some (Some (ps ! k), w)" "h (ps ! k) = Some nd"
    "ele nd = Some (snd (ks ! k))" "score nd = fst (ks ! k)"
    "first_in (\<lambda>k. Lo k \<and> Hi k) ps ks (if Hi (ks ! k) then Some (ps ! k) else None)"
proof -
  have len: "length ks = length ps" using ok by (simp add: links_ok_def)
  obtain k us w where k: "walk_down h adv L hdr 0 = Some (pos hdr ps k, k, us)" "k < length ps"
    "get_level h (pos hdr ps k) 0 = Some (Some (ps ! k), w)" "Lo (ks ! k)" "\<forall>j < k. \<not> Lo (ks ! j)"
    by (rule walk_first [where adv = adv and Lo = Lo, OF ok n adv lo ne])
  obtain nd where nd: "h (ps ! k) = Some nd" "ele nd = Some (snd (ks ! k))" "score nd = fst (ks ! k)"
    by (rule links_node [OF ok k(2)])
  have "\<not> (Lo (ks ! j) \<and> Hi (ks ! j))" if "\<not> Hi (ks ! k)" "j < length ks" for j
    using that k(5) hi [of k j] by (cases "j < k") auto
  then have "first_in (\<lambda>k. Lo k \<and> Hi k) ps ks (if Hi (ks ! k) then Some (ps ! k) else None)"
    using k(2,4,5) by (auto simp: first_in_def all_set_conv_all_nth)
  then show ?thesis using that k nd by blast
qed

lemma last_scan:
  assumes ok: "links_ok h hdr L ps hs ks" and n: "length ps < 2 ^ 32"
    and adv: "\<And>k w n key. ele n = Some (snd key) \<Longrightarrow> score n = fst key \<Longrightarrow> adv k w n \<longleftrightarrow> Hi key"
    and lo: "\<And>i j. i \<le> j \<Longrightarrow> j < length ks \<Longrightarrow> Lo (ks ! i) \<Longrightarrow> Lo (ks ! j)"
    and hi: "\<And>i j. i \<le> j \<Longrightarrow> j < length ks \<Longrightarrow> Hi (ks ! j) \<Longrightarrow> Hi (ks ! i)"
    and ne: "ps \<noteq> []" "Hi (ks ! 0)"
  obtains k us nd where "walk_down h adv L hdr 0 = Some (ps ! k, Suc k, us)" "h (ps ! k) = Some nd"
    "ele nd = Some (snd (ks ! k))" "score nd = fst (ks ! k)"
    "last_in (\<lambda>k. Lo k \<and> Hi k) ps ks (if Lo (ks ! k) then Some (ps ! k) else None)"
proof -
  have len: "length ks = length ps" using ok by (simp add: links_ok_def)
  obtain k us where k: "walk_down h adv L hdr 0 = Some (ps ! k, Suc k, us)" "k < length ps" "Hi (ks ! k)"
    "\<forall>j < length ps. k < j \<longrightarrow> \<not> Hi (ks ! j)"
    by (rule walk_last [where adv = adv and Hi = Hi, OF ok n adv hi ne])
  obtain nd where nd: "h (ps ! k) = Some nd" "ele nd = Some (snd (ks ! k))" "score nd = fst (ks ! k)"
    by (rule links_node [OF ok k(2)])
  have "\<not> (Lo (ks ! j) \<and> Hi (ks ! j))" if "\<not> Lo (ks ! k)" "j < length ks" for j
    using that k(2,4) lo [of j k] len by (cases "k < j") auto
  then have "last_in (\<lambda>k. Lo k \<and> Hi k) ps ks (if Lo (ks ! k) then Some (ps ! k) else None)"
    using k(2-4) len by (auto simp: last_in_def all_set_conv_all_nth)
  then show ?thesis using that k nd by blast
qed

lemma shape_ends:
  assumes "zsl_shape h zsl ps hs ks" "ps \<noteq> []"
  obtains n1 n2 w where "zsl_tail zsl = Some (ps ! (length ps - 1))" "h (ps ! (length ps - 1)) = Some n1"
    "ele n1 = Some (snd (ks ! (length ps - 1)))" "score n1 = fst (ks ! (length ps - 1))"
    "get_level h (zsl_header zsl) 0 = Some (Some (ps ! 0), w)" "h (ps ! 0) = Some n2"
    "ele n2 = Some (snd (ks ! 0))" "score n2 = fst (ks ! 0)"
proof -
  have ok: "links_ok h (zsl_header zsl) (zsl_level zsl) ps hs ks" using assms by (simp add: zsl_shape_def)
  have "length ps - 1 < length ps" "0 < length ps" using assms(2) by simp_all
  obtain n1 where n1: "h (ps ! (length ps - 1)) = Some n1" "ele n1 = Some (snd (ks ! (length ps - 1)))"
      "score n1 = fst (ks ! (length ps - 1))"
    by (rule links_node [OF ok \<open>length ps - 1 < length ps\<close>])
  obtain n2 where n2: "h (ps ! 0) = Some n2" "ele n2 = Some (snd (ks ! 0))" "score n2 = fst (ks ! 0)"
    by (rule links_node [OF ok \<open>0 < length ps\<close>])
  have l: "\<forall>y \<in> set hs. 1 \<le> y" "length hs = length ps" "1 \<le> zsl_level zsl" using ok by (auto simp: links_ok_def)
  have "get_level h (pos (zsl_header zsl) ps 0) 0 = Some (lnk 0 (drop 0 ps) (drop 0 hs))"
    using l by (intro links_get [OF ok]) simp_all
  then have "\<exists>w. get_level h (zsl_header zsl) 0 = Some (Some (ps ! 0), w)"
    using lnk_0 [OF l(1,2), of 0] assms(2) by (cases "lnk 0 ps hs") simp
  then show ?thesis using that n1 n2 assms by (auto simp: zsl_shape_def pred_addr_def)
qed

text \<open>The range of scores that a request names, each bound included or excluded.\<close>

definition in_score_range :: "'s::linorder zrangespec \<Rightarrow> 's \<times> bytes \<Rightarrow> bool" where
  "in_score_range rng key \<longleftrightarrow>
     fst key \<in> (if minex rng then {rmin rng<..} else {rmin rng..}) \<inter> (if maxex rng then {..<rmax rng} else {..rmax rng})"

lemma in_score_range_code: "in_score_range rng key \<longleftrightarrow> zslValueGteMin (fst key) rng \<and> zslValueLteMax (fst key) rng"
  by (simp add: in_score_range_def zslValueGteMin_def zslValueLteMax_def)

lemma sorted_score:
  fixes ks :: "('s::linorder \<times> bytes) list"
  shows "sorted_wrt (<) ks \<Longrightarrow> i < j \<Longrightarrow> j < length ks \<Longrightarrow> fst (ks ! i) \<le> fst (ks ! j)"
  by (drule (2) sorted_wrt_nth_less) (auto simp: less_prod_def)

lemma score_mono:
  "a \<le> b \<Longrightarrow> zslValueGteMin a rng \<Longrightarrow> zslValueGteMin b rng"
  "a \<le> b \<Longrightarrow> zslValueLteMax b rng \<Longrightarrow> zslValueLteMax a rng"
  by (auto simp: zslValueGteMin_def zslValueLteMax_def split: if_splits)

lemma sorted_lo:
  fixes ks :: "('s::linorder \<times> bytes) list"
  assumes "sorted_wrt (<) ks" "i \<le> j" "j < length ks" "zslValueGteMin (fst (ks ! i)) rng"
  shows "zslValueGteMin (fst (ks ! j)) rng"
  using assms score_mono(1) sorted_score [OF assms(1), of i j] by (cases "i = j") auto

lemma sorted_hi:
  fixes ks :: "('s::linorder \<times> bytes) list"
  assumes "sorted_wrt (<) ks" "i \<le> j" "j < length ks" "zslValueLteMax (fst (ks ! j)) rng"
  shows "zslValueLteMax (fst (ks ! i)) rng"
  using assms score_mono(2) sorted_score [OF assms(1), of i j] by (cases "i = j") auto

lemma empty_score_range:
  assumes "rmin rng > rmax rng \<or> (rmin rng = rmax rng \<and> (minex rng \<or> maxex rng))"
  shows "\<not> in_score_range rng key"
  using assms by (auto simp: in_score_range_code zslValueGteMin_def zslValueLteMax_def split: if_splits)

lemma zslIsInRange_correct:
  assumes shape: "zsl_shape h zsl ps hs ks" and sorted: "sorted_wrt (<) ks"
  obtains b where "zslIsInRange h zsl rng = Some b"
    "b \<longrightarrow> ps \<noteq> [] \<and> zslValueGteMin (fst (ks ! (length ps - 1))) rng \<and> zslValueLteMax (fst (ks ! 0)) rng"
    "\<not> b \<longrightarrow> (\<forall>k \<in> set ks. \<not> in_score_range rng k)"
proof -
  have len: "length ks = length ps" and tail: "zsl_tail zsl = pred_addr ps (length ps)"
    using shape by (simp_all add: zsl_shape_def links_ok_def)
  let ?e = "rmin rng > rmax rng \<or> (rmin rng = rmax rng \<and> (minex rng \<or> maxex rng))"
  consider "?e" | "\<not> ?e" "ps = []" | "\<not> ?e" "ps \<noteq> []" by blast
  then show ?thesis
  proof cases
    case 1
    then show ?thesis using that [of False] empty_score_range [OF 1] by (simp add: zslIsInRange_def)
  next
    case 2
    then have "zslIsInRange h zsl rng = Some False" unfolding zslIsInRange_def if_not_P [OF 2(1)] by (simp add: tail pred_addr_def)
    then show ?thesis using that [of False] 2(2) len by simp
  next
    case 3
    let ?b = "zslValueGteMin (fst (ks ! (length ps - 1))) rng \<and> zslValueLteMax (fst (ks ! 0)) rng"
    obtain n1 n2 w where "zsl_tail zsl = Some (ps ! (length ps - 1))" "h (ps ! (length ps - 1)) = Some n1"
      "score n1 = fst (ks ! (length ps - 1))"
      "get_level h (zsl_header zsl) 0 = Some (Some (ps ! 0), w)" "h (ps ! 0) = Some n2" "score n2 = fst (ks ! 0)"
      by (rule shape_ends [OF shape 3(2)])
    then have "zslIsInRange h zsl rng = Some ?b" unfolding zslIsInRange_def if_not_P [OF 3(1)] by simp
    moreover have "?b" if "in_score_range rng (ks ! j)" "j < length ks" for j
      using that sorted_lo [OF sorted, of j "length ps - 1" rng] sorted_hi [OF sorted, of 0 j rng] len
      by (simp add: in_score_range_code)
    then have "\<not> ?b \<longrightarrow> (\<forall>k \<in> set ks. \<not> in_score_range rng k)" unfolding all_set_conv_all_nth by blast
    ultimately show ?thesis using that 3(2) by blast
  qed
qed

lemma zslFirstInRange_correct:
  assumes shape: "zsl_shape h zsl ps hs ks" and sorted: "sorted_wrt (<) ks" and n: "length ps < 2 ^ 32"
  obtains r where "zslFirstInRange h zsl rng = Some r" "first_in (in_score_range rng) ps ks r"
proof -
  have ok: "links_ok h (zsl_header zsl) (zsl_level zsl) ps hs ks" and len: "length ks = length ps"
    using shape by (auto simp: zsl_shape_def links_ok_def)
  obtain b where b: "zslIsInRange h zsl rng = Some b"
    "b \<longrightarrow> ps \<noteq> [] \<and> zslValueGteMin (fst (ks ! (length ps - 1))) rng \<and> zslValueLteMax (fst (ks ! 0)) rng"
    "\<not> b \<longrightarrow> (\<forall>k \<in> set ks. \<not> in_score_range rng k)"
    by (rule zslIsInRange_correct [OF shape sorted, of rng])
  show ?thesis
  proof (cases b)
    case True
    obtain k us w nd where "walk_down h (\<lambda>r span n. \<not> zslValueGteMin (score n) rng) (zsl_level zsl) (zsl_header zsl) 0 =
        Some (pos (zsl_header zsl) ps k, k, us)"
      "get_level h (pos (zsl_header zsl) ps k) 0 = Some (Some (ps ! k), w)" "h (ps ! k) = Some nd" "score nd = fst (ks ! k)"
      "first_in (in_score_range rng) ps ks (if zslValueLteMax (fst (ks ! k)) rng then Some (ps ! k) else None)"
      unfolding in_score_range_code
      by (rule first_scan [where adv = "\<lambda>r span n. \<not> zslValueGteMin (score n) rng"
          and Lo = "\<lambda>k. zslValueGteMin (fst k) rng" and Hi = "\<lambda>k. zslValueLteMax (fst k) rng", OF ok n _ sorted_lo [OF sorted] sorted_hi [OF sorted]])
        (use b(2) True in auto)
    then show ?thesis using that b(1) True by (simp add: zslFirstInRange_def)
  qed (use that b in \<open>simp add: zslFirstInRange_def first_in_def\<close>)
qed

lemma zslLastInRange_correct:
  assumes shape: "zsl_shape h zsl ps hs ks" and sorted: "sorted_wrt (<) ks" and n: "length ps < 2 ^ 32"
  obtains r where "zslLastInRange h zsl rng = Some r" "last_in (in_score_range rng) ps ks r"
proof -
  have ok: "links_ok h (zsl_header zsl) (zsl_level zsl) ps hs ks" and len: "length ks = length ps"
    using shape by (auto simp: zsl_shape_def links_ok_def)
  obtain b where b: "zslIsInRange h zsl rng = Some b"
    "b \<longrightarrow> ps \<noteq> [] \<and> zslValueGteMin (fst (ks ! (length ps - 1))) rng \<and> zslValueLteMax (fst (ks ! 0)) rng"
    "\<not> b \<longrightarrow> (\<forall>k \<in> set ks. \<not> in_score_range rng k)"
    by (rule zslIsInRange_correct [OF shape sorted, of rng])
  show ?thesis
  proof (cases b)
    case True
    obtain k us nd where "walk_down h (\<lambda>r span n. zslValueLteMax (score n) rng) (zsl_level zsl) (zsl_header zsl) 0 =
        Some (ps ! k, Suc k, us)" "h (ps ! k) = Some nd" "score nd = fst (ks ! k)"
      "last_in (in_score_range rng) ps ks (if zslValueGteMin (fst (ks ! k)) rng then Some (ps ! k) else None)"
      unfolding in_score_range_code
      by (rule last_scan [where adv = "\<lambda>r span n. zslValueLteMax (score n) rng"
          and Lo = "\<lambda>k. zslValueGteMin (fst k) rng" and Hi = "\<lambda>k. zslValueLteMax (fst k) rng", OF ok n _ sorted_lo [OF sorted] sorted_hi [OF sorted]])
        (use b(2) True in auto)
    then show ?thesis using that b(1) True by (simp add: zslLastInRange_def)
  qed (use that b in \<open>simp add: zslLastInRange_def last_in_def\<close>)
qed

text \<open>
  Lexicographic ranges are meant for sets whose elements all have the same score, so that the
  elements are sorted. \<open>lex_lo\<close> and \<open>lex_hi\<close> say what the bounds mean. \<open>zslIsInLexRange\<close> compares the contents of
  the bounds also when one of them is a shared object: \<open>lex_clash\<close> says that it takes two different bounds,
  one of them exclusive, for the same string.
\<close>

definition lex_lo :: "zlexrangespec \<Rightarrow> bytes \<Rightarrow> bool" where
  "lex_lo rng v = (case lmin rng of
     MinString \<Rightarrow> True | MaxString \<Rightarrow> False | LexStr b \<Rightarrow> (if lminex rng then b < v else b \<le> v))"

definition lex_hi :: "zlexrangespec \<Rightarrow> bytes \<Rightarrow> bool" where
  "lex_hi rng v = (case lmax rng of
     MinString \<Rightarrow> False | MaxString \<Rightarrow> True | LexStr b \<Rightarrow> (if lmaxex rng then v < b else v \<le> b))"

definition in_lex_range :: "zlexrangespec \<Rightarrow> 's \<times> bytes \<Rightarrow> bool" where
  "in_lex_range rng key \<longleftrightarrow> lex_lo rng (snd key) \<and> lex_hi rng (snd key)"

definition lex_clash :: "zlexrangespec \<Rightarrow> bool" where
  "lex_clash rng \<longleftrightarrow> lmin rng \<noteq> lmax rng \<and> lex_content (lmin rng) = lex_content (lmax rng) \<and> (lminex rng \<or> lmaxex rng)"

lemma sgn_sdscmp_with:
  assumes "memcmp_sign mc"
  shows "sgn (sdscmp_with mc a b) = (if a < b then -1 else if b < a then 1 else 0)"
proof -
  let ?m = "if length a < length b then length a else length b"
  have s: "sgn (mc (take ?m a) (take ?m b)) = memcmp (take ?m a) (take ?m b)" using assms by (simp add: memcmp_sign_def)
  then have "mc (take ?m a) (take ?m b) = 0 \<longleftrightarrow> memcmp (take ?m a) (take ?m b) = 0" by (metis sgn_0_0)
  with s have "sgn (sdscmp_with mc a b) = sdscmp_str a b" by (simp add: sdscmp_with_def sdscmp_str_def Let_def)
  then show ?thesis by (simp add: sdscmp_str_eq)
qed

lemma sdscmp_with_iff:
  assumes "memcmp_sign mc"
  shows "sdscmp_with mc a b = 0 \<longleftrightarrow> a = b" "0 < sdscmp_with mc a b \<longleftrightarrow> b < a" "sdscmp_with mc a b < 0 \<longleftrightarrow> a < b"
    "0 \<le> sdscmp_with mc a b \<longleftrightarrow> b \<le> a" "sdscmp_with mc a b \<le> 0 \<longleftrightarrow> a \<le> b"
  using sgn_sdscmp_with [OF assms, of a b] by (auto simp: sgn_if not_le split: if_splits)

lemma lex_value:
  assumes "memcmp_sign mc"
  shows "zslLexValueGteMin mc v rng = lex_lo rng v" "zslLexValueLteMax mc v rng = lex_hi rng v"
  using sdscmp_with_iff [OF assms]
  by (cases "lmin rng"; simp add: zslLexValueGteMin_def lex_lo_def sdscmplex_def same_object_def lex_content_def)
    (cases "lmax rng"; simp add: zslLexValueLteMax_def lex_hi_def sdscmplex_def same_object_def lex_content_def sdscmp_with_iff [OF assms])

lemma lex_mono:
  "a \<le> b \<Longrightarrow> lex_lo rng a \<Longrightarrow> lex_lo rng b"
  "a \<le> b \<Longrightarrow> lex_hi rng b \<Longrightarrow> lex_hi rng a"
  by (auto simp: lex_lo_def lex_hi_def split: lexstr.splits if_splits)

lemma sorted_lex_lo:
  assumes "sorted_wrt (<) (map snd ks)" "i \<le> j" "j < length ks" "lex_lo rng (snd (ks ! i))"
  shows "lex_lo rng (snd (ks ! j))"
  using assms sorted_wrt_nth_less [OF assms(1), of i j] by (cases "i = j") (auto intro: lex_mono(1) [OF less_imp_le])

lemma sorted_lex_hi:
  assumes "sorted_wrt (<) (map snd ks)" "i \<le> j" "j < length ks" "lex_hi rng (snd (ks ! j))"
  shows "lex_hi rng (snd (ks ! i))"
  using assms sorted_wrt_nth_less [OF assms(1), of i j] by (cases "i = j") (auto intro: lex_mono(2) [OF less_imp_le])

lemma empty_lex_range:
  assumes mc: "memcmp_sign mc" and clash: "\<not> lex_clash rng" and e: "sdscmplex mc (lmin rng) (lmax rng) > 1 \<or>
    (sdscmp_with mc (lex_content (lmin rng)) (lex_content (lmax rng)) = 0 \<and> (lminex rng \<or> lmaxex rng))"
  shows "\<not> in_lex_range rng key"
  using e
proof
  assume "sdscmplex mc (lmin rng) (lmax rng) > 1"
  then obtain a b where "lmin rng = LexStr a" "lmax rng = LexStr b" "0 < sdscmp_with mc a b"
    by (cases "lmin rng"; cases "lmax rng") (auto simp: sdscmplex_def same_object_def lex_content_def)
  then show ?thesis by (auto simp: sdscmp_with_iff [OF mc] in_lex_range_def lex_lo_def lex_hi_def split: if_splits)
next
  assume "sdscmp_with mc (lex_content (lmin rng)) (lex_content (lmax rng)) = 0 \<and> (lminex rng \<or> lmaxex rng)"
  then have "lmin rng = lmax rng" "lminex rng \<or> lmaxex rng" using clash by (auto simp: lex_clash_def sdscmp_with_iff [OF mc])
  then show ?thesis by (auto simp: in_lex_range_def lex_lo_def lex_hi_def split: lexstr.splits if_splits)
qed

text \<open>Bounds that clash make the range empty for the code, whatever the skip list holds.\<close>

lemma lex_clash_empty:
  assumes "memcmp_sign mc" "lex_clash rng"
  shows "zslIsInLexRange mc h zsl rng = Some False"
  using assms by (auto simp: zslIsInLexRange_def lex_clash_def sdscmp_with_iff)

lemma zslIsInLexRange_correct:
  assumes mc: "memcmp_sign mc" and shape: "zsl_shape h zsl ps hs ks" and sorted: "sorted_wrt (<) (map snd ks)" and clash: "\<not> lex_clash rng"
  obtains b where "zslIsInLexRange mc h zsl rng = Some b"
    "b \<longrightarrow> ps \<noteq> [] \<and> lex_lo rng (snd (ks ! (length ps - 1))) \<and> lex_hi rng (snd (ks ! 0))"
    "\<not> b \<longrightarrow> (\<forall>k \<in> set ks. \<not> in_lex_range rng k)"
proof -
  have len: "length ks = length ps" and tail: "zsl_tail zsl = pred_addr ps (length ps)"
    using shape by (simp_all add: zsl_shape_def links_ok_def)
  let ?e = "sdscmplex mc (lmin rng) (lmax rng) > 1 \<or>
    (sdscmp_with mc (lex_content (lmin rng)) (lex_content (lmax rng)) = 0 \<and> (lminex rng \<or> lmaxex rng))"
  consider "?e" | "\<not> ?e" "ps = []" | "\<not> ?e" "ps \<noteq> []" by blast
  then show ?thesis
  proof cases
    case 1
    then show ?thesis using that [of False] unfolding zslIsInLexRange_def if_P [OF 1] by (simp add: empty_lex_range [OF mc clash 1])
  next
    case 2
    then have "zslIsInLexRange mc h zsl rng = Some False"
      unfolding zslIsInLexRange_def if_not_P [OF 2(1)] by (simp add: tail pred_addr_def)
    then show ?thesis using that [of False] 2(2) len by simp
  next
    case 3
    let ?b = "lex_lo rng (snd (ks ! (length ps - 1))) \<and> lex_hi rng (snd (ks ! 0))"
    obtain n1 n2 w where "zsl_tail zsl = Some (ps ! (length ps - 1))" "h (ps ! (length ps - 1)) = Some n1"
      "ele n1 = Some (snd (ks ! (length ps - 1)))"
      "get_level h (zsl_header zsl) 0 = Some (Some (ps ! 0), w)" "h (ps ! 0) = Some n2" "ele n2 = Some (snd (ks ! 0))"
      by (rule shape_ends [OF shape 3(2)])
    then have "zslIsInLexRange mc h zsl rng = Some ?b" unfolding zslIsInLexRange_def if_not_P [OF 3(1)] by (simp add: lex_value [OF mc])
    moreover have "?b" if "in_lex_range rng (ks ! j)" "j < length ks" for j
      using that sorted_lex_lo [OF sorted, of j "length ps - 1" rng] sorted_lex_hi [OF sorted, of 0 j rng] len
      by (simp add: in_lex_range_def)
    then have "\<not> ?b \<longrightarrow> (\<forall>k \<in> set ks. \<not> in_lex_range rng k)" unfolding all_set_conv_all_nth by blast
    ultimately show ?thesis using that 3(2) by blast
  qed
qed

lemma zslFirstInLexRange_correct:
  assumes mc: "memcmp_sign mc" and shape: "zsl_shape h zsl ps hs ks" and sorted: "sorted_wrt (<) (map snd ks)" and n: "length ps < 2 ^ 32"
    and clash: "\<not> lex_clash rng"
  obtains r where "zslFirstInLexRange mc h zsl rng = Some r" "first_in (in_lex_range rng) ps ks r"
proof -
  have ok: "links_ok h (zsl_header zsl) (zsl_level zsl) ps hs ks" using shape by (simp add: zsl_shape_def)
  obtain b where b: "zslIsInLexRange mc h zsl rng = Some b"
    "b \<longrightarrow> ps \<noteq> [] \<and> lex_lo rng (snd (ks ! (length ps - 1))) \<and> lex_hi rng (snd (ks ! 0))"
    "\<not> b \<longrightarrow> (\<forall>k \<in> set ks. \<not> in_lex_range rng k)"
    by (rule zslIsInLexRange_correct [OF mc shape sorted clash])
  show ?thesis
  proof (cases b)
    case True
    obtain k us w nd where "walk_down h (\<lambda>r span n. \<not> zslLexValueGteMin mc (the (ele n)) rng) (zsl_level zsl) (zsl_header zsl) 0 =
        Some (pos (zsl_header zsl) ps k, k, us)"
      "get_level h (pos (zsl_header zsl) ps k) 0 = Some (Some (ps ! k), w)" "h (ps ! k) = Some nd" "ele nd = Some (snd (ks ! k))"
      "first_in (in_lex_range rng) ps ks (if lex_hi rng (snd (ks ! k)) then Some (ps ! k) else None)"
      unfolding in_lex_range_def
      by (rule first_scan [where adv = "\<lambda>r span n. \<not> zslLexValueGteMin mc (the (ele n)) rng"
          and Lo = "\<lambda>k. lex_lo rng (snd k)" and Hi = "\<lambda>k. lex_hi rng (snd k)",
          OF ok n _ sorted_lex_lo [OF sorted] sorted_lex_hi [OF sorted]])
        (use b(2) True in \<open>auto simp: lex_value [OF mc]\<close>)
    then show ?thesis using that b(1) True by (simp add: zslFirstInLexRange_def lex_value [OF mc])
  qed (use that b in \<open>simp add: zslFirstInLexRange_def first_in_def\<close>)
qed

lemma zslLastInLexRange_correct:
  assumes mc: "memcmp_sign mc" and shape: "zsl_shape h zsl ps hs ks" and sorted: "sorted_wrt (<) (map snd ks)" and n: "length ps < 2 ^ 32"
    and clash: "\<not> lex_clash rng"
  obtains r where "zslLastInLexRange mc h zsl rng = Some r" "last_in (in_lex_range rng) ps ks r"
proof -
  have ok: "links_ok h (zsl_header zsl) (zsl_level zsl) ps hs ks" using shape by (simp add: zsl_shape_def)
  obtain b where b: "zslIsInLexRange mc h zsl rng = Some b"
    "b \<longrightarrow> ps \<noteq> [] \<and> lex_lo rng (snd (ks ! (length ps - 1))) \<and> lex_hi rng (snd (ks ! 0))"
    "\<not> b \<longrightarrow> (\<forall>k \<in> set ks. \<not> in_lex_range rng k)"
    by (rule zslIsInLexRange_correct [OF mc shape sorted clash])
  show ?thesis
  proof (cases b)
    case True
    obtain k us nd where "walk_down h (\<lambda>r span n. zslLexValueLteMax mc (the (ele n)) rng) (zsl_level zsl) (zsl_header zsl) 0 =
        Some (ps ! k, Suc k, us)" "h (ps ! k) = Some nd" "ele nd = Some (snd (ks ! k))"
      "last_in (in_lex_range rng) ps ks (if lex_lo rng (snd (ks ! k)) then Some (ps ! k) else None)"
      unfolding in_lex_range_def
      by (rule last_scan [where adv = "\<lambda>r span n. zslLexValueLteMax mc (the (ele n)) rng"
          and Lo = "\<lambda>k. lex_lo rng (snd k)" and Hi = "\<lambda>k. lex_hi rng (snd k)",
          OF ok n _ sorted_lex_lo [OF sorted] sorted_lex_hi [OF sorted]])
        (use b(2) True in \<open>auto simp: lex_value [OF mc]\<close>)
    then show ?thesis using that b(1) True by (simp add: zslLastInLexRange_def lex_value [OF mc])
  qed (use that b in \<open>simp add: zslLastInLexRange_def last_in_def\<close>)
qed

end
