(* ===== verification/Skiplist_Props.thy ===== *)
theory Skiplist_Props
  imports Skiplist_Delete
begin

text \<open>
  The contract of the skip list of \<open>t_zset.c\<close>: a skip list represents a sorted list of pairs of
  score and element, and the functions are those of a sorted list.
\<close>

definition zsl_inv :: "'s::linorder zheap \<Rightarrow> zskiplist \<Rightarrow> ('s \<times> bytes) list \<Rightarrow> bool" where
  "zsl_inv h zsl ks \<longleftrightarrow> sorted_wrt (<) ks \<and> length ks < 2 ^ 32 \<and> (\<exists>ps hs. zsl_shape h zsl ps hs ks)"

definition zsl_node :: "'s zheap \<Rightarrow> nat \<Rightarrow> 's \<times> bytes \<Rightarrow> bool" where
  "zsl_node h p key = (case h p of Some n \<Rightarrow> score n = fst key \<and> ele n = Some (snd key) | None \<Rightarrow> False)"

lemma zsl_invE:
  assumes "zsl_inv h zsl ks"
  obtains ps hs where "zsl_shape h zsl ps hs ks" "sorted_wrt (<) ks" "length ps < 2 ^ 32" "length ks = length ps"
  using assms by (auto simp: zsl_inv_def zsl_shape_def links_ok_def)

lemma ins_at_insort: "ins_at (key_rank ks key) key ks = insort key ks"
proof (induction ks)
  case (Cons k ks)
  have "\<not> key \<le> k \<longleftrightarrow> k < key" by auto
  then show ?case using Cons by (auto simp: ins_at_def key_rank_def)
qed (simp add: ins_at_def key_rank_def)

lemma sorted_wrt_remove1: "sorted_wrt P xs \<Longrightarrow> sorted_wrt P (remove1 x xs)"
  by (induction xs) (auto dest: notin_set_remove1 [THEN contrapos_nn])

lemma del_at_remove1:
  fixes ks :: "'k::linorder list"
  assumes "sorted_wrt (<) ks" "k < length ks"
  shows "del_at k ks = remove1 (ks ! k) ks"
proof -
  have "ks ! i \<noteq> ks ! k" if "i < k" for i using sorted_wrt_nth_less [OF assms(1) that assms(2)] by auto
  then have "ks ! k \<notin> set (take k ks)" using assms(2) by (auto simp: in_set_conv_nth)
  then show ?thesis
    using assms(2) by (subst (2) id_take_nth_drop [of k ks]) (simp_all add: del_at_def remove1_append)
qed

lemma clear_levels:
  assumes "length (level n) = N"
  shows "for_levels (\<lambda>j h. set_level h a j (None, 0)) [0..<N] (h(a \<mapsto> n)) =
    Some (h(a \<mapsto> n\<lparr>level := replicate N (None, 0)\<rparr>))"
proof -
  let ?h = "h(a \<mapsto> n)"
  let ?g = "\<lambda>i p j e. if p = a \<and> j = i then (None, 0) else e :: nat option \<times> u32"
  let ?h1 = "upd_entries ?h (\<lambda>p j e. if j \<in> set [0..<N] then ?g j p j e else e)"
  have "for_levels (\<lambda>j h. set_level h a j (None, 0)) [0..<N] ?h = Some ?h1"
  proof (rule for_levels_upd [where g = ?g])
    fix i h'
    assume i: "i \<in> set [0..<N]" and eq: "\<And>p. get_level h' p i = get_level ?h p i"
    have "get_level ?h a i = Some (level n ! i)" using i assms by (simp add: get_level_def peek_def)
    then have "get_level h' a i = Some (level n ! i)" by (simp only: eq)
    then show "set_level h' a i (None, 0) = Some (upd_entries h' (?g i))" by (rule set_level_upd)
  qed auto
  moreover have "?h1 p = (h(a \<mapsto> n\<lparr>level := replicate N (None, 0)\<rparr>)) p" for p
  proof (cases "p = a")
    case True
    have "map (\<lambda>i. if i \<in> set [0..<N] then (None, 0) else level n ! i) [0..<N] = replicate N (None, 0)"
      by (simp add: list_eq_iff_nth_eq)
    then show ?thesis using True assms by (simp add: upd_entries_def cong: if_cong)
  next
    case False
    then show ?thesis by (simp add: upd_entries_def map_nth option.map_ident if_distrib cong: if_cong)
  qed
  then have "?h1 = h(a \<mapsto> n\<lparr>level := replicate N (None, 0)\<rparr>)" by (rule ext)
  ultimately show ?thesis by simp
qed

lemma zslCreate_shape:
  obtains h' zsl where "zslCreate junk h a = Some (h', zsl)" "zsl_shape h' zsl [] [] []" "zsl_header zsl = a"
    "\<And>p. p \<noteq> a \<Longrightarrow> h' p = h p"
proof -
  define N :: nat where "N = ZSKIPLIST_MAXLEVEL"
  let ?n = "\<lparr>ele = None, score = 0, backward = fst (junk N), level = map junk [0..<N]\<rparr> :: 'a zskiplistNode"
  let ?h2 = "h(a \<mapsto> ?n\<lparr>level := replicate N (None, 0), backward := None\<rparr>)"
  let ?zsl = "\<lparr>zsl_header = a, zsl_tail = None, zsl_length = 0, zsl_level = 1\<rparr>"
  have "zslCreate junk h a = Some (?h2, ?zsl)"
    unfolding zslCreate_def Let_def zslCreateNode_def N_def [symmetric]
    by (subst clear_levels) (simp_all add: set_backward_def)
  moreover have "zsl_shape ?h2 ?zsl [] [] []"
    unfolding zsl_shape_def links_ok_def header_shape_def N_def [symmetric]
    by (simp add: lnk_def dist_def pred_addr_def) (simp add: N_def)
  ultimately show ?thesis using that by simp
qed

text \<open>
  The states that are reached from a new skip list by insertions of keys that are not in it and by
  deletions; the list of keys is that of the specification.
\<close>

inductive zsl_reach :: "'s::{linorder,zero} zheap \<Rightarrow> zskiplist \<Rightarrow> ('s \<times> bytes) list \<Rightarrow> bool" where
  create: "zslCreate junk h0 a = Some (h, zsl) \<Longrightarrow> zsl_reach h zsl []"
| insert: "zsl_reach h zsl ks \<Longrightarrow> (sc, e) \<notin> set ks \<Longrightarrow> Suc (length ks) < 2 ^ 32 \<Longrightarrow> h a = None \<Longrightarrow>
    zslInsert rnd junk a h zsl sc e = Some (h', zsl') \<Longrightarrow> zsl_reach h' zsl' (insort (sc, e) ks)"
| delete: "zsl_reach h zsl ks \<Longrightarrow> zslDelete h zsl sc e keep = Some (h', zsl', r) \<Longrightarrow>
    zsl_reach h' zsl' (remove1 (sc, e) ks)"

lemma inv_insert:
  assumes "zsl_inv h zsl ks" "(sc, e) \<notin> set ks" "Suc (length ks) < 2 ^ 32" "h a = None" "zslRandomLevel rnd = Some lvl"
  obtains h' zsl' where "zslInsert rnd junk a h zsl sc e = Some (h', zsl')" "zsl_inv h' zsl' (insort (sc, e) ks)"
proof -
  obtain ps hs where i: "zsl_shape h zsl ps hs ks" "sorted_wrt (<) ks" "length ps < 2 ^ 32"
    using assms(1) by (rule zsl_invE)
  obtain h' zsl' where o: "zslInsert rnd junk a h zsl sc e = Some (h', zsl')"
    "zsl_shape h' zsl' (ins_at (key_rank ks (sc, e)) a ps) (ins_at (key_rank ks (sc, e)) lvl hs) (insort (sc, e) ks)"
    by (rule zslInsert_shape [OF i assms(4,5) refl, of junk]) (simp add: ins_at_insort)
  moreover have "sorted_wrt (<) (insort (sc, e) ks)" using sorted_ins_at [OF i(2) assms(2)] by (simp add: ins_at_insort)
  ultimately show ?thesis using that assms(3) by (auto simp: zsl_inv_def)
qed

lemma inv_delete:
  assumes "zsl_inv h zsl ks"
  obtains h' zsl' r where "zslDelete h zsl sc e keep = Some (h', zsl', r)" "zsl_inv h' zsl' (remove1 (sc, e) ks)"
    "if (sc, e) \<in> set ks
     then \<exists>p. r = Some p \<and> zsl_node h p (sc, e) \<and> (if keep then zsl_node h' p (sc, e) else h' p = None)
     else r = None \<and> h' = h \<and> zsl' = zsl"
proof -
  obtain ps hs where i: "zsl_shape h zsl ps hs ks" "sorted_wrt (<) ks" "length ps < 2 ^ 32" "length ks = length ps"
    using assms by (rule zsl_invE)
  let ?k = "key_rank ks (sc, e)"
  show ?thesis
  proof (cases "(sc, e) \<in> set ks")
    case True
    obtain h' zsl' where o: "zslDelete h zsl sc e keep = Some (h', zsl', Some (ps ! ?k))"
      "zsl_shape h' zsl' (del_at ?k ps) (del_at ?k hs) (del_at ?k ks)" "?k < length ps" "ks ! ?k = (sc, e)"
      "\<And>p. node_data h' p = (if \<not> keep \<and> p = ps ! ?k then None else node_data h p)"
      by (rule zslDelete_shape [OF i(1-3) refl True, of keep]) blast
    have r: "del_at ?k ks = remove1 (sc, e) ks" using del_at_remove1 [OF i(2), of ?k] o(3,4) i(4) by simp
    have "sorted_wrt (<) (remove1 (sc, e) ks)" using i(2) by (rule sorted_wrt_remove1)
    then have "zsl_inv h' zsl' (remove1 (sc, e) ks)"
      using o(2) i(3,4) unfolding zsl_inv_def r by (auto simp: length_remove1)
    moreover have ok: "links_ok h (zsl_header zsl) (zsl_level zsl) ps hs ks" using i(1) by (simp add: zsl_shape_def)
    obtain n where "h (ps ! ?k) = Some n" "ele n = Some (snd (ks ! ?k))" "score n = fst (ks ! ?k)"
      by (rule links_node [OF ok o(3)])
    then have "node_data h (ps ! ?k) = Some (Some e, sc)" by (simp add: node_data_def o(4))
    then have "zsl_node h (ps ! ?k) (sc, e)" "if keep then zsl_node h' (ps ! ?k) (sc, e) else h' (ps ! ?k) = None"
      using o(5) [of "ps ! ?k"] by (auto simp: node_data_def zsl_node_def)
    ultimately show ?thesis using that [OF o(1)] True by simp
  next
    case False
    then show ?thesis using that zslDelete_absent [OF i(1-3) False] assms by (simp add: remove1_idem)
  qed
qed

text \<open>A skip list with two nodes, the second of height 2.\<close>

definition sample_heap :: "int zheap" where
  "sample_heap =
    [0 \<mapsto> \<lparr>ele = None, score = 0, backward = None, level = (Some 1, 1) # (Some 2, 2) # replicate 30 (None, 0)\<rparr>,
     1 \<mapsto> \<lparr>ele = Some [97], score = 1, backward = None, level = [(Some 2, 1)]\<rparr>,
     2 \<mapsto> \<lparr>ele = Some [98], score = 1, backward = Some 1, level = [(None, 0), (None, 0)]\<rparr>]"

definition sample_zsl :: zskiplist where
  "sample_zsl = \<lparr>zsl_header = 0, zsl_tail = Some 2, zsl_length = 2, zsl_level = 2\<rparr>"

lemma less_two_cases: "(\<forall>i < Suc (Suc 0). P i) \<longleftrightarrow> P 0 \<and> P (Suc 0)"
  by (auto simp: less_Suc_eq)

lemma sample_shape: "zsl_shape sample_heap sample_zsl [1, 2] [1, 2] [(1, [97]), (1, [98])]"
proof -
  have "header_shape sample_heap 0 2 [1, 2] [1, 2]"
  proof -
    let ?n = "\<lparr>ele = None, score = 0, backward = None, level = (Some 1, 1) # (Some 2, 2) # replicate 30 (None, 0)\<rparr> :: int zskiplistNode"
    have "(\<forall>i < 2. level ?n ! i = lnk i [1, 2] [1, 2])"
      by (simp add: numeral_2_eq_2 less_two_cases lnk_def dist_def)
    moreover have "fst (level ?n ! i) = None" if "i < 32" "2 \<le> i" for i
      using that by (cases i; cases "i - 1") simp_all
    ultimately show ?thesis unfolding header_shape_def sample_heap_def by simp
  qed
  moreover have "node_shape sample_heap 1 (1, [97]) 1 [2] [2]" "node_shape sample_heap 2 (1, [98]) 2 [] []"
    by (simp_all add: node_shape_def sample_heap_def lnk_def dist_def numeral_2_eq_2 less_two_cases)
  ultimately show ?thesis
    unfolding zsl_shape_def links_ok_def sample_zsl_def
    by (simp add: numeral_2_eq_2 less_two_cases pred_addr_def) (simp add: sample_heap_def numeral_2_eq_2)
qed

lemma sample_inv: "zsl_inv sample_heap sample_zsl [(1, [97]), (1, [98])]"
  unfolding zsl_inv_def by (intro conjI exI, simp, simp, rule sample_shape)

subsection \<open>The levels of new nodes\<close>

lemma random_level_first:
  "(\<And>j. j < m \<Longrightarrow> rnd (n + j) mod 0x10000 \<le> 16383) \<Longrightarrow> rnd (n + m) mod 0x10000 > 16383 \<Longrightarrow>
    random_level rnd n lvl = Some (lvl + m)"
proof (induction m arbitrary: n lvl)
  case 0
  then show ?case by (subst random_level.simps) simp
next
  case (Suc m)
  have "rnd (n + 1 + j) mod 0x10000 \<le> 16383" if "j < m" for j using Suc.prems(1) [of "Suc j"] that by simp
  then have "random_level rnd (n + 1) (lvl + 1) = Some (lvl + 1 + m)"
    using Suc.prems(2) by (intro Suc.IH) simp_all
  then show ?case using Suc.prems(1) [of 0] by (subst random_level.simps) simp
qed

subsection \<open>Freeing\<close>

lemma free_loop_all:
  assumes ok: "links_ok h hdr L ps hs ks"
  shows "k \<le> length ps \<Longrightarrow> free_loop h (if k < length ps then Some (ps ! k) else None) = Some (drop k ps)"
proof (induction "length ps - k" arbitrary: k)
  case 0
  then show ?case by (subst free_loop.simps) simp
next
  case (Suc m)
  then have k: "k < length ps" by simp
  have len: "length hs = length ps" "\<forall>y \<in> set hs. 1 \<le> y" using ok by (auto simp: links_ok_def)
  have "get_level h (pos hdr ps (Suc k)) 0 = Some (lnk 0 (drop (Suc k) ps) (drop (Suc k) hs))"
    using k len by (intro links_get [OF ok]) (simp_all add: Suc_le_eq)
  moreover obtain w where "lnk 0 (drop (Suc k) ps) (drop (Suc k) hs) = (if Suc k < length ps then Some (ps ! Suc k) else None, w)"
    using lnk_0 [OF len(2,1), of "Suc k"] by (metis prod.collapse)
  ultimately have "get_level h (ps ! k) 0 = Some (if Suc k < length ps then Some (ps ! Suc k) else None, w)" by simp
  moreover have "free_loop h (if Suc k < length ps then Some (ps ! Suc k) else None) = Some (drop (Suc k) ps)"
    using Suc.hyps(1) [of "Suc k"] Suc.hyps(2) k by simp
  ultimately show ?case using k by (subst free_loop.simps) (simp add: Cons_nth_drop_Suc)
qed

lemma zslFree_all:
  assumes "zsl_shape h zsl ps hs ks"
  shows "zslFree h zsl = Some (zsl_header zsl # ps)"
proof -
  have ok: "links_ok h (zsl_header zsl) (zsl_level zsl) ps hs ks" using assms by (simp add: zsl_shape_def)
  then have len: "length hs = length ps" "\<forall>y \<in> set hs. 1 \<le> y" "0 < zsl_level zsl" by (auto simp: links_ok_def)
  obtain w where "lnk 0 ps hs = (if 0 < length ps then Some (ps ! 0) else None, w)"
    using lnk_0 [OF len(2,1), of 0] by (metis drop_0 prod.collapse)
  then have "get_level h (zsl_header zsl) 0 = Some (if 0 < length ps then Some (ps ! 0) else None, w)"
    using links_get [OF ok, of 0 0] len(3) by simp
  then show ?thesis using free_loop_all [OF ok, of 0] by (simp add: zslFree_def)
qed

subsection \<open>Properties\<close>

text \<open>
  C32: the random level of a new node is between 1 and \<open>ZSKIPLIST_MAXLEVEL\<close>: the loop ends as soon as a
  random number is not below the threshold, after \<open>m\<close> successes the level is \<open>1 + m\<close> capped at the maximum.
\<close>

theorem zslRandomLevel_bound:
  assumes "\<forall>j < m. rnd j mod 0x10000 \<le> 16383" "rnd m mod 0x10000 > 16383"
  shows "zslRandomLevel rnd = Some (min (Suc m) 32) \<and> 1 \<le> min (Suc m) 32 \<and> min (Suc m) 32 \<le> ZSKIPLIST_MAXLEVEL"
  using random_level_first [of m rnd 0 1] assms by (simp add: zslRandomLevel_def min_def)

theorem zslRandomLevel_bound_witness:
  "zslRandomLevel (\<lambda>n. if n < 40 then 7 else 65535) = Some 32"
  using zslRandomLevel_bound [of 40 "\<lambda>n. if n < 40 then 7 else 65535"] by simp

text \<open>
  C31: every skip list reached from \<open>zslCreate\<close> by \<open>zslInsert\<close> and \<open>zslDelete\<close> satisfies the invariant for the
  list of keys that the corresponding operations on sorted lists give, and \<open>zslFree\<close> then
  terminates and releases the header and every node exactly once.
\<close>

theorem zsl_reach_invariant:
  assumes "zsl_reach h zsl ks"
  shows "zsl_inv h zsl ks \<and> (\<exists>xs. zslFree h zsl = Some xs \<and> distinct xs \<and> length xs = Suc (length ks))"
proof -
  have "zsl_inv h zsl ks" using assms
  proof induction
    case (create junk h0 a h zsl)
    then show ?case using zslCreate_shape [of junk h0 a] by (auto simp: zsl_inv_def)
  next
    case (insert h zsl ks sc e a rnd junk h' zsl')
    then obtain lvl where "zslRandomLevel rnd = Some lvl" by (auto simp: zslInsert_def split: bind_splits)
    then show ?case using insert inv_insert [of h zsl ks sc e a rnd lvl junk] by fastforce
  next
    case (delete h zsl ks sc e keep h' zsl' r)
    then show ?case using inv_delete [of h zsl ks sc e keep] by fastforce
  qed
  then obtain ps hs where "zsl_shape h zsl ps hs ks" by (rule zsl_invE)
  then show ?thesis
    using \<open>zsl_inv h zsl ks\<close> zslFree_all [of h zsl ps hs ks] by (auto simp: zsl_shape_def links_ok_def)
qed

lemma sample_random: "zslRandomLevel (\<lambda>n. 65535) = Some 1"
  using random_level_first [of 0 "\<lambda>n. 65535" 0 1] by (simp add: zslRandomLevel_def)

lemma sample_reach: "\<exists>h zsl. zsl_reach h zsl [(1 :: int, [97])]"
proof -
  obtain h zsl where c: "zslCreate (\<lambda>i. (None, 0)) (\<lambda>p. None) 0 = Some (h :: int zheap, zsl)" "zsl_shape h zsl [] [] []"
    "\<And>p. p \<noteq> 0 \<Longrightarrow> h p = None"
    by (rule zslCreate_shape [of "\<lambda>i. (None, 0)" "\<lambda>p. None" 0]) auto
  then have "zsl_inv h zsl []" by (auto simp: zsl_inv_def)
  then obtain h' zsl' where "zslInsert (\<lambda>n. 65535) (\<lambda>i. (None, 0)) 1 h zsl (1 :: int) [97] = Some (h', zsl')"
    by (rule inv_insert [of h zsl "[]" 1 "[97]" 1 "\<lambda>n. 65535" 1 "\<lambda>i. (None, 0)"]) (use c(3) [of 1] sample_random in auto)
  then have "zsl_reach h' zsl' (insort (1, [97]) [])"
    using c(3) [of 1] by (intro zsl_reach.insert [OF zsl_reach.create [OF c(1)]]) auto
  then show ?thesis by auto
qed

theorem zsl_reach_invariant_witness:
  "\<exists>h zsl. zsl_reach h zsl [(1 :: int, [97])] \<and> zsl_inv h zsl [(1, [97])] \<and> (\<exists>xs. zslFree h zsl = Some xs \<and> length xs = Suc (Suc 0))"
proof -
  obtain h zsl where r: "zsl_reach h zsl [(1 :: int, [97])]" using sample_reach by blast
  show ?thesis using r zsl_reach_invariant [OF r] by auto
qed

text \<open>
  C26: \<open>zslInsert\<close> of a new pair of score and element into a skip list that represents the sorted list
  \<open>ks\<close> succeeds and gives a skip list that represents \<open>ks\<close> with the pair inserted in order: all forward
  pointers, spans and backward pointers, the tail, the level and the length are correct again.
\<close>

theorem zslInsert_refines:
  assumes "zsl_inv h zsl ks" "(sc, e) \<notin> set ks" "Suc (length ks) < 2 ^ 32" "h a = None" "zslRandomLevel rnd = Some lvl"
  shows "\<exists>h' zsl'. zslInsert rnd junk a h zsl sc e = Some (h', zsl') \<and> zsl_inv h' zsl' (insort (sc, e) ks)"
  using assms inv_insert [of h zsl ks sc e a rnd lvl junk] by blast

theorem zslInsert_refines_witness:
  "\<exists>h' zsl'. zslInsert (\<lambda>n. 65535) (\<lambda>i. (None, 0)) 3 sample_heap sample_zsl 0 [99] = Some (h', zsl') \<and>
    zsl_inv h' zsl' [(0, [99]), (1, [97]), (1, [98])]"
  using zslInsert_refines [OF sample_inv, of 0 "[99]" 3 "\<lambda>n. 65535" 1 "\<lambda>i. (None, 0)"] sample_random
  by (simp add: sample_heap_def)

text \<open>
  C27: \<open>zslDelete\<close> unlinks exactly the node with the given score and element and returns it. The node is
  freed unless the caller wants it; in that case it survives with its score and element, so that \<open>ZADD\<close>
  can reuse its string. If there is no such node the skip list is not changed and \<open>NULL\<close> is returned.
\<close>

theorem zslDelete_refines:
  assumes "zsl_inv h zsl ks"
  shows "\<exists>h' zsl' r. zslDelete h zsl sc e keep = Some (h', zsl', r) \<and> zsl_inv h' zsl' (remove1 (sc, e) ks) \<and>
    (if (sc, e) \<in> set ks
     then \<exists>p. r = Some p \<and> zsl_node h p (sc, e) \<and> (if keep then zsl_node h' p (sc, e) else h' p = None)
     else r = None \<and> h' = h \<and> zsl' = zsl)"
  by (rule inv_delete [OF assms, of sc e keep]) blast

theorem zslDelete_refines_witness:
  "(\<exists>h' zsl' r. zslDelete sample_heap sample_zsl 1 [98] False = Some (h', zsl', r) \<and> zsl_inv h' zsl' [(1, [97])]) \<and>
   (\<exists>h' zsl' p. zslDelete sample_heap sample_zsl 1 [98] True = Some (h', zsl', Some p) \<and> zsl_node h' p (1, [98]))"
  using zslDelete_refines [OF sample_inv, of 1 "[98]" False] zslDelete_refines [OF sample_inv, of 1 "[98]" True] by auto

text \<open>
  C28: ranks, for a skip list in which all elements differ, as they do in a sorted set. \<open>zslGetRank\<close> of the
  \<open>j\<close>-th pair (from 0) is \<open>j + 1\<close>, \<open>zslGetElementByRank\<close> of that rank is the node with this pair, and every
  rank behind the last gives \<open>NULL\<close>.
\<close>

theorem zslGetRank_roundtrip:
  assumes inv: "zsl_inv h zsl ks" and d: "distinct (map snd ks)" and j: "j < length ks"
  shows "zslGetRank h zsl (fst (ks ! j)) (snd (ks ! j)) = Some (Suc j) \<and>
    (\<exists>p. zslGetElementByRank h zsl (Suc j) = Some (Some p) \<and> zsl_node h p (ks ! j)) \<and>
    (\<forall>r. length ks < r \<longrightarrow> zslGetElementByRank h zsl r = Some None)"
proof -
  obtain ps hs where i: "zsl_shape h zsl ps hs ks" "sorted_wrt (<) ks" "length ps < 2 ^ 32" "length ks = length ps"
    using inv by (rule zsl_invE)
  have ok: "links_ok h (zsl_header zsl) (zsl_level zsl) ps hs ks" using i(1) by (simp add: zsl_shape_def)
  then have L: "0 < zsl_level zsl" by (simp add: links_ok_def)
  have "get_rank_loop h (fst (ks ! j)) (snd (ks ! j)) (zsl_level zsl) (pos (zsl_header zsl) ps 0) 0 = Some (Suc j)"
    by (rule get_rank_loop_correct [OF ok i(2,3) d]) (use j i(4) L in auto)
  moreover have "by_rank_loop h r (zsl_level zsl) (pos (zsl_header zsl) ps 0) 0 =
      Some (if r \<le> length ps then Some (pos (zsl_header zsl) ps r) else None)" for r
    by (rule by_rank_loop_correct [OF ok i(3)]) (use L in auto)
  moreover have "zsl_node h (ps ! j) (ks ! j)"
    by (rule links_node [OF ok, of j]) (use j i(4) in \<open>auto simp: zsl_node_def\<close>)
  ultimately show ?thesis using j i(4) by (simp add: zslGetRank_def zslGetElementByRank_def)
qed

theorem zslGetRank_roundtrip_witness:
  "zslGetRank sample_heap sample_zsl 1 [98] = Some 2 \<and> zslGetElementByRank sample_heap sample_zsl 7 = Some None"
  using zslGetRank_roundtrip [OF sample_inv, of 1] by (simp add: numeral_2_eq_2)

text \<open>
  C29: \<open>zslFirstInRange\<close> and \<open>zslLastInRange\<close> return the first and the last node whose score is in the
  range, with both kinds of bounds, and \<open>NULL\<close> exactly when there is none; no assertion fails.
\<close>

theorem zslInRange_correct:
  assumes "zsl_shape h zsl ps hs ks" "sorted_wrt (<) ks" "length ps < 2 ^ 32"
  shows "\<exists>r1 r2. zslFirstInRange h zsl rng = Some r1 \<and> first_in (in_score_range rng) ps ks r1 \<and>
    zslLastInRange h zsl rng = Some r2 \<and> last_in (in_score_range rng) ps ks r2"
  by (rule zslFirstInRange_correct [OF assms, of rng], rule zslLastInRange_correct [OF assms, of rng]) blast

theorem zslInRange_correct_witness:
  "\<exists>r1 r2. zslFirstInRange sample_heap sample_zsl \<lparr>rmin = 1, rmax = 2, minex = False, maxex = True\<rparr> = Some r1 \<and>
    zslLastInRange sample_heap sample_zsl \<lparr>rmin = 1, rmax = 2, minex = False, maxex = True\<rparr> = Some r2 \<and> r1 \<noteq> None \<and> r2 \<noteq> None"
proof -
  let ?rng = "\<lparr>rmin = 1, rmax = 2, minex = False, maxex = True\<rparr> :: int zrangespec"
  have "in_score_range ?rng (1, [97])" by (simp add: in_score_range_def)
  then show ?thesis
    using zslInRange_correct [OF sample_shape, of ?rng] by (fastforce simp: first_in_def last_in_def split: option.splits)
qed

text \<open>
  C30: for a set whose elements are sorted as strings, and for every \<open>memcmp\<close> that has the sign the C library
  promises, \<open>zslFirstInLexRange\<close> and \<open>zslLastInLexRange\<close> return the first and the last node whose element is in
  the lexicographic range, \<open>NULL\<close> exactly when there is none. The exception are the ranges with an exclusive bound
  in which one bound is \<open>-\<close> and the other the string \<open>minstring\<close>, or \<open>+\<close> and \<open>maxstring\<close>: the code takes them for
  empty and returns \<open>NULL\<close> whatever the set holds.
\<close>

theorem zslInLexRange_correct:
  assumes "memcmp_sign mc" "zsl_shape h zsl ps hs ks" "sorted_wrt (<) (map snd ks)" "length ps < 2 ^ 32"
  shows "\<exists>r1 r2. zslFirstInLexRange mc h zsl rng = Some r1 \<and> zslLastInLexRange mc h zsl rng = Some r2 \<and>
    (if lex_clash rng then r1 = None \<and> r2 = None
     else first_in (in_lex_range rng) ps ks r1 \<and> last_in (in_lex_range rng) ps ks r2)"
proof (cases "lex_clash rng")
  case True
  then show ?thesis using lex_clash_empty [OF assms(1) True, of h zsl] by (simp add: zslFirstInLexRange_def zslLastInLexRange_def)
next
  case False
  obtain r1 where "zslFirstInLexRange mc h zsl rng = Some r1" "first_in (in_lex_range rng) ps ks r1"
    by (rule zslFirstInLexRange_correct [OF assms False])
  moreover obtain r2 where "zslLastInLexRange mc h zsl rng = Some r2" "last_in (in_lex_range rng) ps ks r2"
    by (rule zslLastInLexRange_correct [OF assms False])
  ultimately show ?thesis using False by simp
qed

theorem zslInLexRange_correct_witness:
  "\<exists>r1 r2. zslFirstInLexRange (\<lambda>a b. 7 * memcmp a b) sample_heap sample_zsl
      \<lparr>lmin = MinString, lmax = LexStr [97], lminex = False, lmaxex = False\<rparr> = Some r1 \<and>
    zslLastInLexRange (\<lambda>a b. 7 * memcmp a b) sample_heap sample_zsl
      \<lparr>lmin = MinString, lmax = LexStr [97], lminex = False, lmaxex = False\<rparr> = Some r2 \<and> r1 \<noteq> None \<and> r2 \<noteq> None"
proof -
  let ?rng = "\<lparr>lmin = MinString, lmax = LexStr [97], lminex = False, lmaxex = False\<rparr>"
  have "in_lex_range ?rng (1 :: int, [97])" by (simp add: in_lex_range_def lex_lo_def lex_hi_def)
  moreover have "\<not> lex_clash ?rng" by (simp add: lex_clash_def)
  moreover have "sgn (7 * memcmp a b) = memcmp a b" for a b by (induction a b rule: memcmp.induct) simp_all
  then have "memcmp_sign (\<lambda>a b. 7 * memcmp a b)" by (simp add: memcmp_sign_def)
  ultimately show ?thesis
    using zslInLexRange_correct [OF _ sample_shape, of "\<lambda>a b. 7 * memcmp a b" ?rng]
    by (fastforce simp: first_in_def last_in_def split: option.splits)
qed

end
