(* ===== verification/Adlist.thy ===== *)
theory Adlist
  imports Redis_Prelude
begin

text \<open>
  The doubly linked lists of \<open>adlist.c\<close>. Nodes live in a heap, a partial map from addresses to nodes; a
  pointer is an address or \<open>NULL\<close> (\<^term>\<open>None\<close>). An operation gives \<^term>\<open>None\<close> when it follows
  a \<open>NULL\<close> or dangling pointer. What \<open>zmalloc\<close> returns is an argument, \<^term>\<open>None\<close> for \<open>NULL\<close>. The methods
  of a list are functions on values; the values passed to the method \<open>free\<close> are part of the result.
\<close>

subsection \<open>Data\<close>

record 'v listNode =
  n_prev :: "nat option"
  n_next :: "nat option"
  n_val :: 'v

record ('v, 'k) list_t =
  l_head :: "nat option"
  l_tail :: "nat option"
  l_dup :: "('v \<Rightarrow> 'v option) option"
  l_free :: bool
  l_match :: "('v \<Rightarrow> 'k \<Rightarrow> bool) option"
  l_len :: nat

record listIter =
  it_next :: "nat option"
  it_from_head :: bool

type_synonym 'v lheap = "nat \<Rightarrow> 'v listNode option"

definition set_next :: "'v lheap \<Rightarrow> nat \<Rightarrow> nat option \<Rightarrow> 'v lheap option" where
  "set_next h p q = do { n \<leftarrow> h p; Some (h(p \<mapsto> n\<lparr>n_next := q\<rparr>)) }"

definition set_prev :: "'v lheap \<Rightarrow> nat \<Rightarrow> nat option \<Rightarrow> 'v lheap option" where
  "set_prev h p q = do { n \<leftarrow> h p; Some (h(p \<mapsto> n\<lparr>n_prev := q\<rparr>)) }"

text \<open>Assignments that are made only if the pointer is not \<open>NULL\<close>.\<close>

definition set_next_if :: "'v lheap \<Rightarrow> nat option \<Rightarrow> nat option \<Rightarrow> 'v lheap option" where
  "set_next_if h p q = (case p of Some p \<Rightarrow> set_next h p q | None \<Rightarrow> Some h)"

definition set_prev_if :: "'v lheap \<Rightarrow> nat option \<Rightarrow> nat option \<Rightarrow> 'v lheap option" where
  "set_prev_if h p q = (case p of Some p \<Rightarrow> set_prev h p q | None \<Rightarrow> Some h)"

subsection \<open>Operations\<close>

definition listCreate :: "('v, 'k) list_t" where
  "listCreate = \<lparr>l_head = None, l_tail = None, l_dup = None, l_free = False, l_match = None, l_len = 0\<rparr>"

text \<open>The values that are freed are returned if the list has a method for it.\<close>

fun empty_loop :: "bool \<Rightarrow> nat \<Rightarrow> 'v lheap \<Rightarrow> nat option \<Rightarrow> ('v lheap \<times> 'v list) option" where
  "empty_loop fr 0 h current = Some (h, [])"
| "empty_loop fr (Suc n) h current = do {
     p \<leftarrow> current;
     nd \<leftarrow> h p;
     (h, vs) \<leftarrow> empty_loop fr n (h(p := None)) (n_next nd);
     Some (h, if fr then n_val nd # vs else vs) }"

definition listEmpty :: "'v lheap \<Rightarrow> ('v, 'k) list_t \<Rightarrow> ('v lheap \<times> ('v, 'k) list_t \<times> 'v list) option" where
  "listEmpty h l = do {
     (h, vs) \<leftarrow> empty_loop (l_free l) (l_len l) h (l_head l);
     Some (h, l\<lparr>l_head := None, l_tail := None, l_len := 0\<rparr>, vs) }"

definition listRelease :: "'v lheap \<Rightarrow> ('v, 'k) list_t \<Rightarrow> ('v lheap \<times> 'v list) option" where
  "listRelease h l = do { (h, _, vs) \<leftarrow> listEmpty h l; Some (h, vs) }"


definition listAddNodeTail ::
  "nat option \<Rightarrow> 'v lheap \<Rightarrow> ('v, 'k) list_t \<Rightarrow> 'v \<Rightarrow> ('v lheap \<times> ('v, 'k) list_t) option option" where
  "listAddNodeTail alloc h l v = (case alloc of
     None \<Rightarrow> Some None
   | Some a \<Rightarrow>
       if l_len l = 0 then
         Some (Some (h(a \<mapsto> \<lparr>n_prev = None, n_next = None, n_val = v\<rparr>),
           l\<lparr>l_head := Some a, l_tail := Some a, l_len := l_len l + 1\<rparr>))
       else do {
         let h = h(a \<mapsto> \<lparr>n_prev = l_tail l, n_next = None, n_val = v\<rparr>);
         p \<leftarrow> l_tail l;
         h \<leftarrow> set_next h p (Some a);
         Some (Some (h, l\<lparr>l_tail := Some a, l_len := l_len l + 1\<rparr>)) })"



subsection \<open>Iterators\<close>

definition listGetIterator :: "('v, 'k) list_t \<Rightarrow> bool \<Rightarrow> listIter" where
  "listGetIterator l from_head = \<lparr>it_next = (if from_head then l_head l else l_tail l), it_from_head = from_head\<rparr>"

definition listRewind :: "('v, 'k) list_t \<Rightarrow> listIter" where
  "listRewind l = \<lparr>it_next = l_head l, it_from_head = True\<rparr>"

definition listRewindTail :: "('v, 'k) list_t \<Rightarrow> listIter" where
  "listRewindTail l = \<lparr>it_next = l_tail l, it_from_head = False\<rparr>"

definition listNext :: "'v lheap \<Rightarrow> listIter \<Rightarrow> (listIter \<times> nat option) option" where
  "listNext h iter = (case it_next iter of
     None \<Rightarrow> Some (iter, None)
   | Some p \<Rightarrow> do {
       n \<leftarrow> h p;
       Some (iter\<lparr>it_next := (if it_from_head iter then n_next n else n_prev n)\<rparr>, Some p) })"

text \<open>
  \<open>listDup\<close>: \<open>allocs\<close> are the successive results of \<open>zmalloc\<close> for the nodes. When the copy of a value or an
  allocation fails the copy is released and \<open>NULL\<close> returned.
\<close>

partial_function (option) dup_loop ::
  "(nat \<Rightarrow> nat option) \<Rightarrow> nat \<Rightarrow> 'v lheap \<Rightarrow> ('v, 'k) list_t \<Rightarrow> listIter \<Rightarrow> ('v lheap \<times> ('v, 'k) list_t option) option" where
  "dup_loop allocs i h copy iter = do {
     (iter, node) \<leftarrow> listNext h iter;
     case node of
       None \<Rightarrow> Some (h, Some copy)
     | Some p \<Rightarrow> do {
         n \<leftarrow> h p;
         case (case l_dup copy of Some f \<Rightarrow> f (n_val n) | None \<Rightarrow> Some (n_val n)) of
           None \<Rightarrow> do { (h, _) \<leftarrow> listRelease h copy; Some (h, None) }
         | Some v \<Rightarrow> do {
             r \<leftarrow> listAddNodeTail (allocs i) h copy v;
             case r of
               None \<Rightarrow> do { (h, _) \<leftarrow> listRelease h copy; Some (h, None) }
             | Some (h, copy) \<Rightarrow> dup_loop allocs (i + 1) h copy iter } } }"

definition listDup ::
  "(nat \<Rightarrow> nat option) \<Rightarrow> 'v lheap \<Rightarrow> ('v, 'k) list_t \<Rightarrow> ('v lheap \<times> ('v, 'k) list_t option) option" where
  "listDup allocs h orig =
     dup_loop allocs 0 h (listCreate\<lparr>l_dup := l_dup orig, l_free := l_free orig, l_match := l_match orig\<rparr>) (listRewind orig)"

partial_function (option) search_loop ::
  "'v lheap \<Rightarrow> ('v \<Rightarrow> bool) \<Rightarrow> listIter \<Rightarrow> nat option option" where
  "search_loop h eq iter = do {
     (iter, node) \<leftarrow> listNext h iter;
     case node of
       None \<Rightarrow> Some None
     | Some p \<Rightarrow> do {
         n \<leftarrow> h p;
         if eq (n_val n) then Some (Some p) else search_loop h eq iter } }"

text \<open>Without the method \<open>match\<close> the pointers themselves are compared, which is given by \<open>same\<close>.\<close>

definition listSearchKey :: "('v \<Rightarrow> 'k \<Rightarrow> bool) \<Rightarrow> 'v lheap \<Rightarrow> ('v, 'k) list_t \<Rightarrow> 'k \<Rightarrow> nat option option" where
  "listSearchKey same h l key =
     search_loop h (\<lambda>v. case l_match l of Some m \<Rightarrow> m v key | None \<Rightarrow> same v key) (listRewind l)"

fun index_loop :: "('v listNode \<Rightarrow> nat option) \<Rightarrow> 'v lheap \<Rightarrow> nat \<Rightarrow> nat option \<Rightarrow> nat option option" where
  "index_loop step h 0 n = Some n"
| "index_loop step h (Suc i) None = Some None"
| "index_loop step h (Suc i) (Some p) = do { nd \<leftarrow> h p; index_loop step h i (step nd) }"

text \<open>The index is a \<open>long\<close>; the negation of the least one overflows.\<close>

definition listIndex :: "'v lheap \<Rightarrow> ('v, 'k) list_t \<Rightarrow> int \<Rightarrow> nat option option" where
  "listIndex h l index =
     (if index = - (2 ^ 63) then None
      else if index < 0 then index_loop n_prev h (nat (- index - 1)) (l_tail l)
      else index_loop n_next h (nat index) (l_head l))"

definition listRotate :: "'v lheap \<Rightarrow> ('v, 'k) list_t \<Rightarrow> ('v lheap \<times> ('v, 'k) list_t) option" where
  "listRotate h l =
     (if l_len l \<le> 1 then Some (h, l)
      else do {
        t \<leftarrow> l_tail l;
        tn \<leftarrow> h t;
        let l = l\<lparr>l_tail := n_prev tn\<rparr>;
        nt \<leftarrow> l_tail l;
        h \<leftarrow> set_next h nt None;
        hd \<leftarrow> l_head l;
        h \<leftarrow> set_prev h hd (Some t);
        h \<leftarrow> set_prev h t None;
        h \<leftarrow> set_next h t (l_head l);
        Some (h, l\<lparr>l_head := Some t\<rparr>) })"

definition listJoin ::
  "'v lheap \<Rightarrow> ('v, 'k) list_t \<Rightarrow> ('v, 'k) list_t \<Rightarrow> ('v lheap \<times> ('v, 'k) list_t \<times> ('v, 'k) list_t) option" where
  "listJoin h l other = do {
     h \<leftarrow> set_prev_if h (l_head other) (l_tail l);
     h \<leftarrow> set_next_if h (l_tail l) (l_head other);
     let l = (if l_tail l = None then l\<lparr>l_head := l_head other\<rparr> else l);
     let l = (if l_tail other \<noteq> None then l\<lparr>l_tail := l_tail other\<rparr> else l);
     let l = l\<lparr>l_len := l_len l + l_len other\<rparr>;
     Some (h, l, other\<lparr>l_head := None, l_tail := None, l_len := 0\<rparr>) }"

subsection \<open>List segments\<close>

text \<open>
  A segment of linked nodes with the addresses \<open>ps\<close> and the values \<open>vs\<close>: \<open>pr\<close> is the previous pointer of
  its first node, \<open>nx\<close> the next pointer of its last node.
\<close>

definition first_of :: "nat list \<Rightarrow> nat option \<Rightarrow> nat option" where
  "first_of ps nx = (case ps of [] \<Rightarrow> nx | p # _ \<Rightarrow> Some p)"

definition last_of :: "nat option \<Rightarrow> nat list \<Rightarrow> nat option" where
  "last_of pr ps = (if ps = [] then pr else Some (last ps))"

lemma first_of_simps [simp]: "first_of [] nx = nx" "first_of (p # ps) nx = Some p"
  by (simp_all add: first_of_def)

lemma last_of_simps [simp]: "last_of pr [] = pr" "last_of pr (ps @ [p]) = Some p" "last_of pr (p # ps) = last_of (Some p) ps"
  by (simp_all add: last_of_def)

lemma first_of_append [simp]: "first_of (ps @ qs) nx = first_of ps (first_of qs nx)"
  by (cases ps) simp_all

lemma last_of_append [simp]: "last_of pr (ps @ qs) = last_of (last_of pr ps) qs"
  by (induction ps arbitrary: pr) simp_all

lemma first_of_Some [simp]: "first_of ps (Some p) \<noteq> None" "last_of (Some p) ps \<noteq> None"
  by (cases ps; simp add: last_of_def)+

lemma first_last_None: "first_of ps None = None \<longleftrightarrow> ps = []" "last_of None ps = None \<longleftrightarrow> ps = []"
  by (cases ps; simp add: last_of_def)+

fun dseg :: "'v lheap \<Rightarrow> nat option \<Rightarrow> nat list \<Rightarrow> 'v list \<Rightarrow> nat option \<Rightarrow> bool" where
  "dseg h pr [] [] nx \<longleftrightarrow> True"
| "dseg h pr (p # ps) (v # vs) nx \<longleftrightarrow>
     h p = Some \<lparr>n_prev = pr, n_next = first_of ps nx, n_val = v\<rparr> \<and> dseg h (Some p) ps vs nx"
| "dseg h pr _ _ nx \<longleftrightarrow> False"

lemma dseg_length: "dseg h pr ps vs nx \<Longrightarrow> length vs = length ps"
  by (induction h pr ps vs nx rule: dseg.induct) simp_all

lemma dseg_append:
  "length ps = length vs \<Longrightarrow> dseg h pr (ps @ qs) (vs @ ws) nx \<longleftrightarrow>
    dseg h pr ps vs (first_of qs nx) \<and> dseg h (last_of pr ps) qs ws nx"
  by (induction ps vs arbitrary: pr rule: list_induct2) simp_all

lemma dseg_frame [simp]: "p \<notin> set ps \<Longrightarrow> dseg (h(p := x)) pr ps vs nx = dseg h pr ps vs nx"
  by (induction h pr ps vs nx rule: dseg.induct) auto

lemma dseg_None [simp]: "dseg h pr [] vs nx \<longleftrightarrow> vs = []"
  by (cases vs) simp_all

lemma dseg_split:
  assumes "dseg h pr (ps @ p # qs) vs nx"
  obtains us v ws where "vs = us @ v # ws" "length us = length ps" "length ws = length qs"
    "dseg h pr ps us (Some p)" "h p = Some \<lparr>n_prev = last_of pr ps, n_next = first_of qs nx, n_val = v\<rparr>"
    "dseg h (Some p) qs ws nx"
proof -
  have l: "length vs = length ps + Suc (length qs)" using dseg_length [OF assms] by simp
  let ?us = "take (length ps) vs" and ?v = "vs ! length ps" and ?ws = "drop (Suc (length ps)) vs"
  have v: "vs = ?us @ ?v # ?ws" using l by (intro id_take_nth_drop) simp
  have "dseg h pr (ps @ p # qs) (?us @ ?v # ?ws) nx" using assms v by simp
  then show ?thesis using that [OF v] l by (simp add: dseg_append)
qed

text \<open>Assigning the next pointer of the last node and the previous pointer of the first node.\<close>

lemma dseg_set_next:
  assumes "dseg h pr ps vs nx" "distinct ps"
  obtains h' where "set_next_if h (last_of None ps) q = Some h'" "dseg h' pr ps vs (if ps = [] then nx else q)"
    "\<And>p. p \<notin> set ps \<Longrightarrow> h' p = h p"
proof (cases ps rule: rev_cases)
  case Nil
  then show ?thesis using that [of h] assms by (simp add: set_next_if_def)
next
  case (snoc as p)
  obtain us v where v: "vs = us @ [v]" "dseg h pr as us (Some p)" "length us = length as"
    "h p = Some \<lparr>n_prev = last_of pr as, n_next = nx, n_val = v\<rparr>"
    by (rule dseg_split [of h pr as p "[]" vs nx]) (use assms snoc in auto)
  let ?h = "h(p \<mapsto> \<lparr>n_prev = last_of pr as, n_next = q, n_val = v\<rparr>)"
  have "set_next_if h (last_of None ps) q = Some ?h" using v snoc by (simp add: set_next_if_def set_next_def)
  moreover have "dseg ?h pr ps vs q" using v snoc assms(2) by (simp add: dseg_append)
  ultimately show ?thesis using that snoc by simp
qed

lemma dseg_set_prev:
  assumes "dseg h pr ps vs nx" "distinct ps"
  obtains h' where "set_prev_if h (first_of ps None) q = Some h'" "dseg h' (if ps = [] then pr else q) ps vs nx"
    "\<And>p. p \<notin> set ps \<Longrightarrow> h' p = h p"
proof (cases ps)
  case Nil
  then show ?thesis using that [of h] assms by (simp add: set_prev_if_def)
next
  case (Cons p bs)
  then obtain v ws where v: "vs = v # ws" "dseg h (Some p) bs ws nx" "h p = Some \<lparr>n_prev = pr, n_next = first_of bs nx, n_val = v\<rparr>"
    using assms(1) by (cases vs) auto
  let ?h = "h(p \<mapsto> \<lparr>n_prev = q, n_next = first_of bs nx, n_val = v\<rparr>)"
  have "set_prev_if h (first_of ps None) q = Some ?h" using v Cons by (simp add: set_prev_if_def set_prev_def)
  moreover have "dseg ?h q ps vs nx" using v Cons assms(2) by simp
  ultimately show ?thesis using that Cons by simp
qed

lemma dseg_cong: "(\<And>p. p \<in> set ps \<Longrightarrow> h' p = h p) \<Longrightarrow> dseg h' pr ps vs nx = dseg h pr ps vs nx"
  by (induction h pr ps vs nx rule: dseg.induct) simp_all

text \<open>A list with the addresses \<open>ps\<close> that holds the values \<open>vs\<close>.\<close>

definition list_rep :: "'v lheap \<Rightarrow> ('v, 'k) list_t \<Rightarrow> nat list \<Rightarrow> 'v list \<Rightarrow> bool" where
  "list_rep h l ps vs \<longleftrightarrow> dseg h None ps vs None \<and> distinct ps \<and>
     l_head l = first_of ps None \<and> l_tail l = last_of None ps \<and> l_len l = length ps"

definition same_off :: "nat list \<Rightarrow> 'v lheap \<Rightarrow> 'v lheap \<Rightarrow> bool" where
  "same_off ps h h' \<longleftrightarrow> (\<forall>p. p \<notin> set ps \<longrightarrow> h' p = h p)"

definition same_methods :: "('v, 'k) list_t \<Rightarrow> ('v, 'k) list_t \<Rightarrow> bool" where
  "same_methods l l' \<longleftrightarrow> l_dup l' = l_dup l \<and> l_free l' = l_free l \<and> l_match l' = l_match l"

text \<open>Both ends of a gap between two segments are assigned, in either order.\<close>

lemma dseg_bridge:
  assumes x: "dseg h None xs us nx" and y: "dseg h pr ys ws None" and d: "distinct (xs @ ys)"
  obtains h2 h3 where "set_next_if h (last_of None xs) q = Some h2" "set_prev_if h2 (first_of ys None) r = Some h3"
    "dseg h3 None xs us q" "dseg h3 r ys ws None" "same_off (xs @ ys) h h3"
proof -
  obtain h2 where h2: "set_next_if h (last_of None xs) q = Some h2" "dseg h2 None xs us (if xs = [] then nx else q)"
    "\<And>p. p \<notin> set xs \<Longrightarrow> h2 p = h p" using d by (auto intro: dseg_set_next [OF x])
  have "dseg h2 pr ys ws None = dseg h pr ys ws None" using d h2(3) by (intro dseg_cong) auto
  then have "dseg h2 pr ys ws None" using y by simp
  then obtain h3 where h3: "set_prev_if h2 (first_of ys None) r = Some h3" "dseg h3 (if ys = [] then pr else r) ys ws None"
    "\<And>p. p \<notin> set ys \<Longrightarrow> h3 p = h2 p" using d by (auto intro: dseg_set_prev)
  have "dseg h3 None xs us (if xs = [] then nx else q) = dseg h2 None xs us (if xs = [] then nx else q)"
    using d h3(3) by (intro dseg_cong) auto
  then have "dseg h3 None xs us q" "dseg h3 r ys ws None" using h2(2) h3(2) by (auto split: if_splits)
  then show ?thesis using that h2 h3 by (simp add: same_off_def)
qed

lemma dseg_bridge_rev:
  assumes x: "dseg h None xs us nx" and y: "dseg h pr ys ws None" and d: "distinct (xs @ ys)"
  obtains h2 h3 where "set_prev_if h (first_of ys None) r = Some h2" "set_next_if h2 (last_of None xs) q = Some h3"
    "dseg h3 None xs us q" "dseg h3 r ys ws None" "same_off (xs @ ys) h h3"
proof -
  obtain h2 where h2: "set_prev_if h (first_of ys None) r = Some h2" "dseg h2 (if ys = [] then pr else r) ys ws None"
    "\<And>p. p \<notin> set ys \<Longrightarrow> h2 p = h p" using d by (auto intro: dseg_set_prev [OF y])
  have "dseg h2 None xs us nx = dseg h None xs us nx" using d h2(3) by (intro dseg_cong) auto
  then have "dseg h2 None xs us nx" using x by simp
  then obtain h3 where h3: "set_next_if h2 (last_of None xs) q = Some h3" "dseg h3 None xs us (if xs = [] then nx else q)"
    "\<And>p. p \<notin> set xs \<Longrightarrow> h3 p = h2 p" using d by (auto intro: dseg_set_next)
  have "dseg h3 (if ys = [] then pr else r) ys ws None = dseg h2 (if ys = [] then pr else r) ys ws None"
    using d h3(3) by (intro dseg_cong) auto
  then have "dseg h3 None xs us q" "dseg h3 r ys ws None" using h2(2) h3(2) by (auto split: if_splits)
  then show ?thesis using that h2 h3 by (simp add: same_off_def)
qed

text \<open>A new node between two segments.\<close>

lemma dseg_link:
  assumes x: "dseg h None xs us nx" and y: "dseg h pr ys ws None" and d: "distinct (xs @ a # ys)"
    and h1: "h1 = h(a \<mapsto> \<lparr>n_prev = last_of None xs, n_next = first_of ys None, n_val = v\<rparr>)"
  obtains h2 h3 where "set_next_if h1 (last_of None xs) (Some a) = Some h2" "set_prev_if h2 (first_of ys None) (Some a) = Some h3"
    "dseg h3 None (xs @ a # ys) (us @ v # ws) None" "same_off (xs @ a # ys) h h3"
proof -
  have "dseg h1 None xs us nx" "dseg h1 pr ys ws None" using x y d h1 by simp_all
  then obtain h2 h3 where h: "set_next_if h1 (last_of None xs) (Some a) = Some h2"
    "set_prev_if h2 (first_of ys None) (Some a) = Some h3"
    "dseg h3 None xs us (Some a)" "dseg h3 (Some a) ys ws None" "same_off (xs @ ys) h1 h3"
    by (rule dseg_bridge [of h1 xs us nx pr ys ws "Some a" "Some a"]) (use d in auto)
  have "h3 a = h1 a" using h(5) d by (simp add: same_off_def)
  then show ?thesis using that [OF h(1,2)] h(3-5) dseg_length [OF h(3)] by (simp add: dseg_append h1 same_off_def)
qed

subsection \<open>The operations on lists\<close>


lemma listAddNodeTail_rep:
  assumes "list_rep h l ps vs" "a \<notin> set ps"
  obtains h' l' where "listAddNodeTail (Some a) h l v = Some (Some (h', l'))" "list_rep h' l' (ps @ [a]) (vs @ [v])"
    "same_off (ps @ [a]) h h'" "same_methods l l'"
proof -
  have d: "dseg h None ps vs None" "distinct ps" and l: "l_head l = first_of ps None" "l_tail l = last_of None ps" "l_len l = length ps"
    using assms by (simp_all add: list_rep_def)
  obtain h2 h3 where h: "set_next_if (h(a \<mapsto> \<lparr>n_prev = last_of None ps, n_next = None, n_val = v\<rparr>)) (last_of None ps) (Some a) = Some h2"
    "set_prev_if h2 None (Some a) = Some h3" "dseg h3 None (ps @ [a]) (vs @ [v]) None" "same_off (ps @ [a]) h h3"
    by (rule dseg_link [of h ps vs None None "[]" "[]" a _ v]) (use d assms(2) in auto)
  have eq: "listAddNodeTail (Some a) h l v = Some (Some (h3, l\<lparr>l_head := first_of (ps @ [a]) None, l_tail := Some a, l_len := Suc (length ps)\<rparr>))"
    using h(1,2) l by (cases ps; cases l) (auto simp: listAddNodeTail_def set_prev_if_def set_next_if_def last_of_def)
  show ?thesis by (rule that [OF eq]) (use h(3,4) d assms(2) in \<open>simp_all add: list_rep_def same_methods_def\<close>)
qed



text \<open>The values of a list around a node.\<close>

lemma list_rep_split:
  assumes "list_rep h l (xs @ p # ys) vs"
  obtains us v ws where "vs = us @ v # ws" "length us = length xs" "length ws = length ys"
    "dseg h None xs us (Some p)" "h p = Some \<lparr>n_prev = last_of None xs, n_next = first_of ys None, n_val = v\<rparr>"
    "dseg h (Some p) ys ws None"
  using assms dseg_split [of h None xs p ys vs None] unfolding list_rep_def by blast




lemma empty_loop_correct:
  assumes "dseg h pr ps vs nx" "distinct ps"
  shows "empty_loop fr (length ps) h (first_of ps nx) = Some (\<lambda>p. if p \<in> set ps then None else h p, if fr then vs else [])"
  using assms
proof (induction ps arbitrary: h pr vs)
  case (Cons p ps)
  then obtain v ws where v: "vs = v # ws" "h p = Some \<lparr>n_prev = pr, n_next = first_of ps nx, n_val = v\<rparr>" "dseg h (Some p) ps ws nx"
    by (cases vs) auto
  then have "dseg (h(p := None)) (Some p) ps ws nx" using Cons.prems by simp
  moreover have "(\<lambda>q. if q \<in> set ps then None else (h(p := None)) q) = (\<lambda>q. if q = p \<or> q \<in> set ps then None else h q)" by auto
  ultimately show ?case using Cons v by simp
qed simp

lemma listEmpty_rep:
  assumes "list_rep h l ps vs"
  shows "listEmpty h l = Some (\<lambda>p. if p \<in> set ps then None else h p, l\<lparr>l_head := None, l_tail := None, l_len := 0\<rparr>,
    if l_free l then vs else [])"
  using assms empty_loop_correct [of h None ps vs None "l_free l"] by (simp add: list_rep_def listEmpty_def)

subsection \<open>Iteration, search and index\<close>

text \<open>The results of \<open>n\<close> calls of \<open>listNext\<close>.\<close>

fun visits :: "nat \<Rightarrow> 'v lheap \<Rightarrow> listIter \<Rightarrow> nat option list option" where
  "visits 0 h it = Some []"
| "visits (Suc n) h it = do { (it, r) \<leftarrow> listNext h it; rs \<leftarrow> visits n h it; Some (r # rs) }"

lemma visits_forward:
  "dseg h pr ps vs None \<Longrightarrow>
    visits (Suc (length ps)) h \<lparr>it_next = first_of ps None, it_from_head = True\<rparr> = Some (map Some ps @ [None])"
proof (induction ps arbitrary: pr vs)
  case (Cons p ps)
  then obtain v ws where v: "vs = v # ws" "dseg h (Some p) ps ws None" by (cases vs) auto
  have "listNext h \<lparr>it_next = Some p, it_from_head = True\<rparr> = Some (\<lparr>it_next = first_of ps None, it_from_head = True\<rparr>, Some p)"
    using Cons.prems v(1) by (simp add: listNext_def)
  then show ?case using Cons.IH [OF v(2)] by (simp del: visits.simps add: visits.simps(2) [of "Suc (length ps)"])
qed (simp add: listNext_def)

lemma dseg_snoc:
  assumes "dseg h pr (ps @ [p]) vs nx"
  obtains us v where "vs = us @ [v]" "dseg h pr ps us (Some p)" "h p = Some \<lparr>n_prev = last_of pr ps, n_next = nx, n_val = v\<rparr>"
  by (rule dseg_split [of h pr ps p "[]" vs nx]) (use assms that in auto)

lemma visits_backward:
  "dseg h None ps vs nx \<Longrightarrow>
    visits (Suc (length ps)) h \<lparr>it_next = last_of None ps, it_from_head = False\<rparr> = Some (map Some (rev ps) @ [None])"
proof (induction ps arbitrary: vs nx rule: rev_induct)
  case (snoc p ps)
  obtain us v where "dseg h None ps us (Some p)" "h p = Some \<lparr>n_prev = last_of None ps, n_next = nx, n_val = v\<rparr>"
    using snoc.prems by (rule dseg_snoc)
  moreover from this have "listNext h \<lparr>it_next = Some p, it_from_head = False\<rparr> =
      Some (\<lparr>it_next = last_of None ps, it_from_head = False\<rparr>, Some p)" by (simp add: listNext_def)
  ultimately show ?case using snoc.IH [of us "Some p"]
    by (simp del: visits.simps add: visits.simps(2) [of "Suc (length ps)"])
qed (simp add: listNext_def)

lemma index_forward:
  "dseg h pr ps vs None \<Longrightarrow> index_loop n_next h i (first_of ps None) = Some (if i < length ps then Some (ps ! i) else None)"
proof (induction ps arbitrary: pr vs i)
  case Nil
  then show ?case by (cases i) simp_all
next
  case (Cons p ps)
  then obtain v ws where v: "vs = v # ws" "dseg h (Some p) ps ws None" by (cases vs) auto
  then show ?case using Cons.prems Cons.IH [OF v(2)] by (cases i) simp_all
qed

lemma index_backward:
  "dseg h None ps vs nx \<Longrightarrow> index_loop n_prev h i (last_of None ps) = Some (if i < length ps then Some (rev ps ! i) else None)"
proof (induction ps arbitrary: vs nx i rule: rev_induct)
  case Nil
  then show ?case by (cases i) simp_all
next
  case (snoc p ps)
  obtain us v where "dseg h None ps us (Some p)" "h p = Some \<lparr>n_prev = last_of None ps, n_next = nx, n_val = v\<rparr>"
    using snoc.prems by (rule dseg_snoc)
  then show ?case using snoc.IH by (cases i) simp_all
qed

lemma search_loop_correct:
  "dseg h pr ps vs None \<Longrightarrow>
    search_loop h eq \<lparr>it_next = first_of ps None, it_from_head = True\<rparr> =
      Some (map_option fst (find (\<lambda>(p, v). eq v) (zip ps vs)))"
proof (induction ps arbitrary: pr vs)
  case Nil
  then show ?case by (subst search_loop.simps) (simp add: listNext_def)
next
  case (Cons p ps)
  then obtain v ws where v: "vs = v # ws" "dseg h (Some p) ps ws None" by (cases vs) auto
  then show ?case using Cons.prems Cons.IH [OF v(2)] by (subst search_loop.simps) (simp add: listNext_def)
qed

lemma listRotate_rep:
  assumes rep: "list_rep h l (xs @ [t]) (us @ [u])" "length us = length xs" "xs \<noteq> []"
  obtains h' l' where "listRotate h l = Some (h', l')" "list_rep h' l' (t # xs) (u # us)"
    "same_off (t # xs) h h'" "same_methods l l'"
proof -
  have d: "distinct xs" "t \<notin> set xs" and l: "l_head l = first_of xs (Some t)" "l_tail l = Some t" "l_len l = Suc (length xs)"
    and seg: "dseg h None xs us (Some t)" and ht: "h t = Some \<lparr>n_prev = last_of None xs, n_next = None, n_val = u\<rparr>"
    using rep by (auto simp: list_rep_def dseg_append)
  obtain x xs' where x: "xs = x # xs'" using rep(3) by (cases xs) auto
  obtain h1 where h1: "set_next_if h (last_of None xs) None = Some h1" "dseg h1 None xs us (if xs = [] then Some t else None)"
    "\<And>p. p \<notin> set xs \<Longrightarrow> h1 p = h p"
    using d by (auto intro: dseg_set_next [OF seg])
  then have "dseg h1 None xs us None" using rep(3) by simp
  then obtain h2 where h2: "set_prev_if h1 (first_of xs None) (Some t) = Some h2" "dseg h2 (if xs = [] then None else Some t) xs us None"
    "\<And>p. p \<notin> set xs \<Longrightarrow> h2 p = h1 p"
    using d by (auto intro: dseg_set_prev)
  have ht2: "h2 t = Some \<lparr>n_prev = last_of None xs, n_next = None, n_val = u\<rparr>" using h1(3) h2(3) d ht by simp
  let ?h = "h2(t \<mapsto> \<lparr>n_prev = None, n_next = Some x, n_val = u\<rparr>)"
  have eq: "listRotate h l = Some (?h, l\<lparr>l_tail := last_of None xs, l_head := Some t\<rparr>)"
  proof -
    have "set_next h (last xs) None = Some h1" "set_prev h1 x (Some t) = Some h2"
      using h1(1) h2(1) x by (simp_all add: set_next_if_def set_prev_if_def last_of_def)
    moreover obtain h3 where "set_prev h2 t None = Some h3" "set_next h3 t (Some x) = Some ?h"
      using ht2 by (simp add: set_prev_def set_next_def)
    moreover have "last_of None xs = Some (last xs)" using rep(3) by (simp add: last_of_def)
    ultimately show ?thesis using l ht x by (simp add: listRotate_def)
  qed
  have "dseg ?h (Some t) xs us None" using h2(2) rep(3) d by simp
  then show ?thesis
    by (intro that [OF eq]) (use d h1(3) h2(3) l x in \<open>auto simp: list_rep_def same_methods_def same_off_def\<close>)
qed

lemma listJoin_rep:
  assumes rep: "list_rep h l xs us" "list_rep h other ys ws" and d: "set xs \<inter> set ys = {}"
  obtains h' l' other' where "listJoin h l other = Some (h', l', other')" "list_rep h' l' (xs @ ys) (us @ ws)"
    "list_rep h' other' [] []" "same_off (xs @ ys) h h'" "same_methods l l'" "same_methods other other'"
proof -
  have seg: "dseg h None xs us None" "dseg h None ys ws None" and dd: "distinct (xs @ ys)"
    using rep d by (simp_all add: list_rep_def)
  obtain h2 h3 where h: "set_prev_if h (first_of ys None) (last_of None xs) = Some h2"
    "set_next_if h2 (last_of None xs) (first_of ys None) = Some h3"
    "dseg h3 None xs us (first_of ys None)" "dseg h3 (last_of None xs) ys ws None" "same_off (xs @ ys) h h3"
    by (rule dseg_bridge_rev [OF seg dd])
  let ?l = "l\<lparr>l_head := first_of (xs @ ys) None, l_tail := last_of None (xs @ ys), l_len := length xs + length ys\<rparr>"
  have eq: "listJoin h l other = Some (h3, ?l, other\<lparr>l_head := None, l_tail := None, l_len := 0\<rparr>)"
    using h(1,2) rep by (cases l; cases xs; cases ys rule: rev_cases) (auto simp: listJoin_def list_rep_def Let_def first_last_None)
  show ?thesis
    by (rule that [OF eq]) (use h dd dseg_length [OF h(3)] in \<open>auto simp: list_rep_def same_methods_def dseg_append\<close>)
qed

subsection \<open>Duplication\<close>

definition dup_method :: "('v, 'k) list_t \<Rightarrow> 'v \<Rightarrow> 'v option" where
  "dup_method l v = (case l_dup l of Some f \<Rightarrow> f v | None \<Rightarrow> Some v)"

text \<open>What the rest of the loop does when the nodes \<open>rs\<close> are still to be copied.\<close>

definition dup_result ::
  "('v, 'k) list_t \<Rightarrow> 'v lheap \<Rightarrow> nat list \<Rightarrow> 'v list \<Rightarrow> nat list \<Rightarrow> 'v list \<Rightarrow> ('v lheap \<times> ('v, 'k) list_t option) \<Rightarrow> bool" where
  "dup_result l h qs us as ws r \<longleftrightarrow>
     (if \<forall>w \<in> set ws. dup_method l w \<noteq> None
      then \<exists>l'. snd r = Some l' \<and> list_rep (fst r) l' (qs @ as) (us @ map (\<lambda>w. the (dup_method l w)) ws) \<and>
        same_off (qs @ as) h (fst r) \<and> same_methods l l'
      else snd r = None \<and> fst r = (\<lambda>p. if p \<in> set qs then None else h p))"

lemma dup_loop_correct:
  assumes "list_rep h copy qs us" "dseg h pr rs ws None" "set qs \<inter> set rs = {}"
    "\<And>j. i \<le> j \<Longrightarrow> h (al j) = None \<and> al j \<notin> set qs \<and> al j \<notin> set rs" "inj al"
  shows "\<exists>r. dup_loop (\<lambda>j. Some (al j)) i h copy \<lparr>it_next = first_of rs None, it_from_head = True\<rparr> = Some r \<and>
    dup_result copy h qs us (map al [i..<i + length rs]) ws r"
  using assms
proof (induction rs arbitrary: h copy qs us pr ws i)
  case Nil
  then show ?case by (subst dup_loop.simps) (simp add: listNext_def dup_result_def same_off_def same_methods_def)
next
  case (Cons p rs)
  then obtain w ws' where ws: "ws = w # ws'" and hp: "h p = Some \<lparr>n_prev = pr, n_next = first_of rs None, n_val = w\<rparr>"
    and seg: "dseg h (Some p) rs ws' None" by (cases ws) auto
  have nx: "listNext h \<lparr>it_next = first_of (p # rs) None, it_from_head = True\<rparr> =
      Some (\<lparr>it_next = first_of rs None, it_from_head = True\<rparr>, Some p)"
    using hp by (simp add: listNext_def)
  show ?case
  proof (cases "dup_method copy w")
    case None
    let ?h = "\<lambda>p. if p \<in> set qs then None else h p"
    have "dup_loop (\<lambda>j. Some (al j)) i h copy \<lparr>it_next = first_of (p # rs) None, it_from_head = True\<rparr> = Some (?h, None)"
      using nx hp None listEmpty_rep [OF Cons.prems(1)]
      by (subst dup_loop.simps) (simp add: dup_method_def [symmetric] listRelease_def)
    then show ?thesis using ws None by (auto simp: dup_result_def)
  next
    case (Some v)
    have ai: "h (al i) = None" "al i \<notin> set qs" "al i \<notin> set (p # rs)" using Cons.prems(4) [of i] by simp_all
    obtain h1 c1 where h1: "listAddNodeTail (Some (al i)) h copy v = Some (Some (h1, c1))"
      "list_rep h1 c1 (qs @ [al i]) (us @ [v])" "same_off (qs @ [al i]) h h1" "same_methods copy c1"
      by (rule listAddNodeTail_rep [OF Cons.prems(1) ai(2)])
    have m: "dup_method c1 = dup_method copy" using h1(4) by (simp add: same_methods_def dup_method_def fun_eq_iff)
    have "q \<notin> set (qs @ [al i])" if "q \<in> set rs" for q using that ai Cons.prems(3) by auto
    then have "dseg h1 (Some p) rs ws' None = dseg h (Some p) rs ws' None"
      using h1(3) by (intro dseg_cong) (simp add: same_off_def)
    then have seg1: "dseg h1 (Some p) rs ws' None" using seg by simp
    have disj: "set (qs @ [al i]) \<inter> set rs = {}" using ai Cons.prems(3) by auto
    have fresh: "h1 (al j) = None \<and> al j \<notin> set (qs @ [al i]) \<and> al j \<notin> set rs" if "i + 1 \<le> j" for j
    proof -
      have "al j \<noteq> al i" using that inj_eq [OF Cons.prems(5), of j i] by simp
      then show ?thesis using Cons.prems(4) [of j] that h1(3) by (simp add: same_off_def)
    qed
    obtain r where r: "dup_loop (\<lambda>j. Some (al j)) (i + 1) h1 c1 \<lparr>it_next = first_of rs None, it_from_head = True\<rparr> = Some r"
      "dup_result c1 h1 (qs @ [al i]) (us @ [v]) (map al [i + 1..<i + 1 + length rs]) ws' r"
      using Cons.IH [OF h1(2) seg1 disj fresh Cons.prems(5)] by blast
    have "dup_loop (\<lambda>j. Some (al j)) i h copy \<lparr>it_next = first_of (p # rs) None, it_from_head = True\<rparr> = Some r"
      using nx hp Some h1(1) r(1) by (subst dup_loop.simps) (simp add: dup_method_def [symmetric])
    moreover have "map al [i..<i + length (p # rs)] = al i # map al [i + 1..<i + 1 + length rs]"
      by (subst upt_conv_Cons) simp_all
    moreover have "dup_result copy h qs us (al i # map al [i + 1..<i + 1 + length rs]) ws r"
    proof (cases "\<forall>w \<in> set ws'. dup_method copy w \<noteq> None")
      case True
      then obtain l' where l': "snd r = Some l'" "same_methods c1 l'"
        "list_rep (fst r) l' (qs @ al i # map al [i + 1..<i + 1 + length rs]) (us @ v # map (\<lambda>w. the (dup_method copy w)) ws')"
        "same_off (qs @ al i # map al [i + 1..<i + 1 + length rs]) h1 (fst r)"
        using r(2) unfolding dup_result_def m if_P [OF True] append_assoc append_Cons append_Nil by blast
      have "same_off (qs @ al i # map al [i + 1..<i + 1 + length rs]) h (fst r)"
        using l'(4) h1(3) by (simp add: same_off_def)
      moreover have "same_methods copy l'" using l'(2) h1(4) by (simp add: same_methods_def)
      moreover have "\<forall>w \<in> set ws. dup_method copy w \<noteq> None" using True Some ws by simp
      ultimately show ?thesis using l'(1,3) Some ws unfolding dup_result_def by simp
    next
      case False
      have "(if q \<in> set (qs @ [al i]) then None else h1 q) = (if q \<in> set qs then None else h q)" for q
        using h1(3) ai(1) by (auto simp: same_off_def)
      then have "snd r = None \<and> fst r = (\<lambda>q. if q \<in> set qs then None else h q)"
        using r(2) unfolding dup_result_def m if_not_P [OF False] by simp
      moreover have "\<not> (\<forall>w \<in> set ws. dup_method copy w \<noteq> None)" using False ws by simp
      ultimately show ?thesis unfolding dup_result_def by simp
    qed
    ultimately show ?thesis by simp
  qed
qed

lemma dseg_dom: "dseg h pr ps vs nx \<Longrightarrow> p \<in> set ps \<Longrightarrow> h p \<noteq> None"
  by (induction h pr ps vs nx rule: dseg.induct) auto

lemma listDup_rep:
  assumes rep: "list_rep h l ps vs" and al: "inj al" "\<And>j. h (al j) = None"
  shows "\<exists>h' r. listDup (\<lambda>j. Some (al j)) h l = Some (h', r) \<and> list_rep h' l ps vs \<and>
    (if \<forall>v \<in> set vs. dup_method l v \<noteq> None
     then \<exists>c. r = Some c \<and> list_rep h' c (map al [0..<length ps]) (map (\<lambda>v. the (dup_method l v)) vs)
     else r = None \<and> h' = h)"
proof -
  let ?c = "listCreate\<lparr>l_dup := l_dup l, l_free := l_free l, l_match := l_match l\<rparr>"
  have seg: "dseg h None ps vs None" using rep by (simp add: list_rep_def)
  have nd: "al j \<notin> set ps" for j using dseg_dom [OF seg, of "al j"] al(2) by auto
  have "list_rep h ?c [] []" by (simp add: list_rep_def listCreate_def)
  from dup_loop_correct [OF this seg _ _ al(1), of 0] nd al(2)
  obtain r where r: "listDup (\<lambda>j. Some (al j)) h l = Some r" "dup_result ?c h [] [] (map al [0..<length ps]) vs r"
    using rep by (auto simp: listDup_def listRewind_def list_rep_def)
  have m: "dup_method ?c = dup_method l" by (simp add: dup_method_def fun_eq_iff)
  show ?thesis
  proof (cases "\<forall>v \<in> set vs. dup_method l v \<noteq> None")
    case True
    then have c: "\<exists>c. snd r = Some c \<and> list_rep (fst r) c (map al [0..<length ps]) (map (\<lambda>v. the (dup_method l v)) vs)"
      "same_off (map al [0..<length ps]) h (fst r)"
      using r(2) unfolding dup_result_def m by auto
    have "p \<notin> set (map al [0..<length ps])" if "p \<in> set ps" for p using that nd by auto
    then have "dseg (fst r) None ps vs None = dseg h None ps vs None"
      using c(2) by (intro dseg_cong) (simp add: same_off_def)
    then have "list_rep (fst r) l ps vs" using rep by (simp add: list_rep_def)
    then show ?thesis using True r(1) c(1) by (intro exI [of _ "fst r"] exI [of _ "snd r"]) simp
  next
    case False
    then have "r = (h, None)" using r(2) unfolding dup_result_def m if_not_P [OF False] by (simp add: prod_eq_iff)
    then show ?thesis using r(1) rep unfolding if_not_P [OF False] by simp
  qed
qed

subsection \<open>Properties\<close>




definition sample_lheap :: "int lheap" where
  "sample_lheap = [1 \<mapsto> \<lparr>n_prev = None, n_next = Some 2, n_val = 10\<rparr>, 2 \<mapsto> \<lparr>n_prev = Some 1, n_next = None, n_val = 20\<rparr>]"

definition sample_list :: "(int, int) list_t" where
  "sample_list = \<lparr>l_head = Some 1, l_tail = Some 2, l_dup = None, l_free = True, l_match = None, l_len = 2\<rparr>"

lemma sample_list_rep: "list_rep sample_lheap sample_list [1, 2] [10, 20]"
  by (simp add: list_rep_def sample_lheap_def sample_list_def last_of_def)


text \<open>
  C38: on a well-formed list the iterators visit every node once, from the head or from the tail, and
  then return \<open>NULL\<close>; \<open>listSearchKey\<close> returns the first node whose value matches; \<open>listIndex\<close> returns the node at an
  index counted from the head or, if negative, from the tail, and \<open>NULL\<close> out of range; \<open>listRotate\<close> moves the last
  node to the front and \<open>listJoin\<close> appends another list, which becomes empty; \<open>listDup\<close> makes a copy with
  fresh nodes, or undoes everything and returns \<open>NULL\<close> when a value cannot be copied, and keeps the original.
\<close>

theorem adlist_traversal:
  assumes rep: "list_rep h l ps vs" and other: "list_rep h other qs ws" "set ps \<inter> set qs = {}" and i: "- (2 ^ 63) < i"
    and al: "inj al" "\<forall>j. h (al j) = None"
  shows "visits (Suc (length ps)) h (listGetIterator l True) = Some (map Some ps @ [None]) \<and>
    visits (Suc (length ps)) h (listGetIterator l False) = Some (map Some (rev ps) @ [None]) \<and>
    listRewind l = listGetIterator l True \<and> listRewindTail l = listGetIterator l False \<and>
    listSearchKey same h l key =
      Some (map_option fst (find (\<lambda>(p, v). case l_match l of Some m \<Rightarrow> m v key | None \<Rightarrow> same v key) (zip ps vs))) \<and>
    listIndex h l i = Some (if 0 \<le> i \<and> nat i < length ps then Some (ps ! nat i)
      else if i < 0 \<and> nat (- i) \<le> length ps then Some (ps ! (length ps - nat (- i))) else None) \<and>
    (\<exists>h' l'. listRotate h l = Some (h', l') \<and> (if ps = [] then list_rep h' l' [] [] else list_rep h' l' (last ps # butlast ps) (last vs # butlast vs))) \<and>
    (\<exists>h' l' other'. listJoin h l other = Some (h', l', other') \<and> list_rep h' l' (ps @ qs) (vs @ ws) \<and> list_rep h' other' [] []) \<and>
    (\<exists>h' r. listDup (\<lambda>j. Some (al j)) h l = Some (h', r) \<and> list_rep h' l ps vs \<and>
      (if \<forall>v \<in> set vs. dup_method l v \<noteq> None
       then \<exists>c. r = Some c \<and> list_rep h' c (map al [0..<length ps]) (map (\<lambda>v. the (dup_method l v)) vs)
       else r = None \<and> h' = h))"
proof (intro conjI)
  have seg: "dseg h None ps vs None" and l: "l_head l = first_of ps None" "l_tail l = last_of None ps" "l_len l = length ps"
    using rep by (simp_all add: list_rep_def)
  show "visits (Suc (length ps)) h (listGetIterator l True) = Some (map Some ps @ [None])"
    "visits (Suc (length ps)) h (listGetIterator l False) = Some (map Some (rev ps) @ [None])"
    using visits_forward [OF seg] visits_backward [OF seg] l by (simp_all only: listGetIterator_def if_True if_False)
  show "listRewind l = listGetIterator l True" "listRewindTail l = listGetIterator l False"
    by (simp_all add: listRewind_def listRewindTail_def listGetIterator_def)
  show "listSearchKey same h l key =
      Some (map_option fst (find (\<lambda>(p, v). case l_match l of Some m \<Rightarrow> m v key | None \<Rightarrow> same v key) (zip ps vs)))"
    unfolding listSearchKey_def listRewind_def l(1) by (rule search_loop_correct [OF seg])
  show "listIndex h l i = Some (if 0 \<le> i \<and> nat i < length ps then Some (ps ! nat i)
      else if i < 0 \<and> nat (- i) \<le> length ps then Some (ps ! (length ps - nat (- i))) else None)"
    using i index_forward [OF seg, of "nat i"] index_backward [OF seg, of "nat (- i - 1)"] l
    by (auto simp: listIndex_def rev_nth nat_diff_distrib)
  show "\<exists>h' l'. listRotate h l = Some (h', l') \<and> (if ps = [] then list_rep h' l' [] [] else list_rep h' l' (last ps # butlast ps) (last vs # butlast vs))"
  proof (cases "length ps \<le> 1")
    case True
    then show ?thesis using rep dseg_length [OF seg] l(3)
      by (cases ps; cases vs) (auto simp: listRotate_def)
  next
    case False
    then have ne: "ps \<noteq> []" "vs \<noteq> []" "butlast ps \<noteq> []" using dseg_length [OF seg] by (auto simp: butlast_conv_take)
    then have r: "list_rep h l (butlast ps @ [last ps]) (butlast vs @ [last vs])" "length (butlast vs) = length (butlast ps)"
      using rep dseg_length [OF seg] by simp_all
    show ?thesis by (rule listRotate_rep [OF r ne(3)]) (use ne(1) in auto)
  qed
  show "\<exists>h' l' other'. listJoin h l other = Some (h', l', other') \<and> list_rep h' l' (ps @ qs) (vs @ ws) \<and> list_rep h' other' [] []"
    by (rule listJoin_rep [OF rep other]) blast
qed (rule listDup_rep [OF rep al(1)], use al(2) in simp)

theorem adlist_traversal_witness:
  "listIndex sample_lheap sample_list (-1) = Some (Some 2) \<and> listIndex sample_lheap sample_list 2 = Some None"
  using adlist_traversal [OF sample_list_rep, of listCreate "[]" "[]" "-1" "\<lambda>j. j + 5"]
    adlist_traversal [OF sample_list_rep, of listCreate "[]" "[]" 2 "\<lambda>j. j + 5"]
  by (simp add: list_rep_def listCreate_def sample_lheap_def inj_on_def)

end
