(* ===== verification/Dict_Types.thy ===== *)
theory Dict_Types
  imports Dict_Refine Siphash Sds Util
begin

text \<open>
  The hash table types of \<open>server.c\<close> and the hash functions of \<open>dict.c\<close>. Keys are the contents of
  \<open>sds\<close> strings, or string objects; \<open>seed\<close> is \<open>dict_hash_function_seed\<close>. The types whose keys are compared
  byte by byte satisfy the contract \<open>hash_type\<close> that the dictionary relies on. Those with
  \<open>strcasecmp\<close> satisfy it for keys without zero bytes only.
\<close>

text \<open>A length that is converted to \<open>int\<close>.\<close>

definition c_int :: "nat \<Rightarrow> int" where
  "c_int n = sint (of_nat n :: u32)"

text \<open>
  The functions read \<open>len\<close> bytes. A length between 2 and 4 GB is negative as an \<open>int\<close>; converted to \<open>size_t\<close> it is larger than
  every buffer, and the access out of bounds is \<^term>\<open>None\<close>.
\<close>

definition dictGenHashFunction :: "bytes \<Rightarrow> bytes \<Rightarrow> int \<Rightarrow> u64 option" where
  "dictGenHashFunction seed key len =
     (if len < 0 then None else do { bs \<leftarrow> peeks key 0 (nat len); Some (siphash bs seed) })"

definition dictGenCaseHashFunction :: "bytes \<Rightarrow> bytes \<Rightarrow> int \<Rightarrow> u64 option" where
  "dictGenCaseHashFunction seed buf len =
     (if len < 0 then None else do { bs \<leftarrow> peeks buf 0 (nat len); Some (siphash_nocase bs seed) })"

definition dictSdsKeyCompare :: "bytes \<Rightarrow> bytes \<Rightarrow> bool option" where
  "dictSdsKeyCompare key1 key2 =
     (let l1 = c_int (length key1); l2 = c_int (length key2) in
      if l1 \<noteq> l2 then Some False
      else if l1 < 0 then None
      else do {
        a \<leftarrow> peeks key1 0 (nat l1);
        b \<leftarrow> peeks key2 0 (nat l1);
        Some (memcmp a b = 0) })"

text \<open>\<open>strcasecmp\<close> of two strings that end with the first zero byte or with the terminator.\<close>

definition first_char :: "bytes \<Rightarrow> u8" where
  "first_char s = (case s of [] \<Rightarrow> 0 | c # _ \<Rightarrow> c)"

function strcasecmp :: "bytes \<Rightarrow> bytes \<Rightarrow> int" where
  "strcasecmp s1 s2 =
     (let c1 = tolower (first_char s1); c2 = tolower (first_char s2) in
      if c1 \<noteq> c2 then uint c1 - uint c2
      else if c1 = 0 then 0
      else strcasecmp (tl s1) (tl s2))"
  by pat_completeness auto
termination
  by (relation "measure (\<lambda>(s1, s2). length s1)") (auto simp: first_char_def tolower_def split: list.splits)

declare strcasecmp.simps [simp del]

definition dictSdsKeyCaseCompare :: "bytes \<Rightarrow> bytes \<Rightarrow> bool" where
  "dictSdsKeyCaseCompare key1 key2 \<longleftrightarrow> strcasecmp key1 key2 = 0"

definition dictSdsHash :: "bytes \<Rightarrow> bytes \<Rightarrow> u64 option" where
  "dictSdsHash seed key = dictGenHashFunction seed key (c_int (length key))"

definition dictSdsCaseHash :: "bytes \<Rightarrow> bytes \<Rightarrow> u64 option" where
  "dictSdsCaseHash seed key = dictGenCaseHashFunction seed key (c_int (length key))"

text \<open>Unencoded string objects are given by the contents of the string they point to.\<close>

definition dictObjKeyCompare :: "bytes \<Rightarrow> bytes \<Rightarrow> bool option" where
  "dictObjKeyCompare ptr1 ptr2 = dictSdsKeyCompare ptr1 ptr2"

definition dictObjHash :: "bytes \<Rightarrow> bytes \<Rightarrow> u64 option" where
  "dictObjHash seed ptr = dictGenHashFunction seed ptr (c_int (length ptr))"

text \<open>
  The string of an object that may be encoded as an integer; \<open>junk\<close> gives the local array of 32 bytes. \<open>getDecodedObject\<close>
  takes the string up to the terminator that \<open>ll2string\<close> writes, \<open>dictEncObjHash\<close> its length.
\<close>

definition getDecodedObject :: "(nat \<Rightarrow> u8) \<Rightarrow> string_robj \<Rightarrow> bytes option" where
  "getDecodedObject junk ob = (case ob of
     StrEnc s \<Rightarrow> Some s
   | IntEnc v \<Rightarrow> do {
       (len, buf) \<leftarrow> ll2string (map junk [0..<32]) 32 v;
       Some (takeWhile (\<lambda>c. c \<noteq> 0) buf) })"

definition dictEncObjKeyCompare :: "(nat \<Rightarrow> u8) \<Rightarrow> string_robj \<Rightarrow> string_robj \<Rightarrow> bool option" where
  "dictEncObjKeyCompare junk o1 o2 = (case (o1, o2) of
     (IntEnc v1, IntEnc v2) \<Rightarrow> Some (v1 = v2)
   | _ \<Rightarrow> do {
       s1 \<leftarrow> getDecodedObject junk o1;
       s2 \<leftarrow> getDecodedObject junk o2;
       dictSdsKeyCompare s1 s2 })"

definition dictEncObjHash :: "bytes \<Rightarrow> (nat \<Rightarrow> u8) \<Rightarrow> string_robj \<Rightarrow> u64 option" where
  "dictEncObjHash seed junk ob = (case ob of
     StrEnc s \<Rightarrow> dictGenHashFunction seed s (c_int (length s))
   | IntEnc v \<Rightarrow> do {
       (len, buf) \<leftarrow> ll2string (map junk [0..<32]) 32 v;
       dictGenHashFunction seed buf (c_int len) })"

text \<open>
  The model of the dictionary calls total functions. On keys on which a function of the server reads out of bounds
  (strings of 2 GB or more) it goes on with a value that stands for no behaviour of the code; what the theorems say of
  these tables is about shorter keys, on which the functions are shown to return.
\<close>

definition hash_of :: "('k \<Rightarrow> u64 option) \<Rightarrow> 'k \<Rightarrow> u64" where
  "hash_of f key = (case f key of Some h \<Rightarrow> h | None \<Rightarrow> 0)"

definition cmp_of :: "('k \<Rightarrow> 'k \<Rightarrow> bool option) \<Rightarrow> 'k \<Rightarrow> 'k \<Rightarrow> bool" where
  "cmp_of f key1 key2 = (case f key1 key2 of Some r \<Rightarrow> r | None \<Rightarrow> key1 = key2)"

definition objectKeyPointerValueDictType :: "bytes \<Rightarrow> (nat \<Rightarrow> u8) \<Rightarrow> (string_robj, 'v) dictType" where
  "objectKeyPointerValueDictType seed junk =
     \<lparr>hashFunction = hash_of (dictEncObjHash seed junk), keyDup = None, valDup = None, keyCompare = Some (cmp_of (dictEncObjKeyCompare junk))\<rparr>"

definition setDictType :: "bytes \<Rightarrow> (bytes, unit) dictType" where
  "setDictType seed = \<lparr>hashFunction = hash_of (dictSdsHash seed), keyDup = None, valDup = None, keyCompare = Some (cmp_of dictSdsKeyCompare)\<rparr>"

definition zsetDictType :: "bytes \<Rightarrow> (bytes, 'v) dictType" where
  "zsetDictType seed = \<lparr>hashFunction = hash_of (dictSdsHash seed), keyDup = None, valDup = None, keyCompare = Some (cmp_of dictSdsKeyCompare)\<rparr>"

definition dbDictType :: "bytes \<Rightarrow> (bytes, 'v) dictType" where
  "dbDictType seed = \<lparr>hashFunction = hash_of (dictSdsHash seed), keyDup = None, valDup = None, keyCompare = Some (cmp_of dictSdsKeyCompare)\<rparr>"

definition shaScriptObjectDictType :: "bytes \<Rightarrow> (bytes, 'v) dictType" where
  "shaScriptObjectDictType seed = \<lparr>hashFunction = hash_of (dictSdsCaseHash seed), keyDup = None, valDup = None, keyCompare = Some dictSdsKeyCaseCompare\<rparr>"

definition keyptrDictType :: "bytes \<Rightarrow> (bytes, 'v) dictType" where
  "keyptrDictType seed = \<lparr>hashFunction = hash_of (dictSdsHash seed), keyDup = None, valDup = None, keyCompare = Some (cmp_of dictSdsKeyCompare)\<rparr>"

definition commandTableDictType :: "bytes \<Rightarrow> (bytes, 'v) dictType" where
  "commandTableDictType seed = \<lparr>hashFunction = hash_of (dictSdsCaseHash seed), keyDup = None, valDup = None, keyCompare = Some dictSdsKeyCaseCompare\<rparr>"

definition hashDictType :: "bytes \<Rightarrow> (bytes, bytes) dictType" where
  "hashDictType seed = \<lparr>hashFunction = hash_of (dictSdsHash seed), keyDup = None, valDup = None, keyCompare = Some (cmp_of dictSdsKeyCompare)\<rparr>"

definition keylistDictType :: "bytes \<Rightarrow> (bytes, 'v) dictType" where
  "keylistDictType seed = \<lparr>hashFunction = hash_of (dictObjHash seed), keyDup = None, valDup = None, keyCompare = Some (cmp_of dictObjKeyCompare)\<rparr>"

definition clusterNodesDictType :: "bytes \<Rightarrow> (bytes, 'v) dictType" where
  "clusterNodesDictType seed = \<lparr>hashFunction = hash_of (dictSdsHash seed), keyDup = None, valDup = None, keyCompare = Some (cmp_of dictSdsKeyCompare)\<rparr>"

definition clusterNodesBlackListDictType :: "bytes \<Rightarrow> (bytes, 'v) dictType" where
  "clusterNodesBlackListDictType seed = \<lparr>hashFunction = hash_of (dictSdsCaseHash seed), keyDup = None, valDup = None, keyCompare = Some dictSdsKeyCaseCompare\<rparr>"

definition modulesDictType :: "bytes \<Rightarrow> (bytes, 'v) dictType" where
  "modulesDictType seed = \<lparr>hashFunction = hash_of (dictSdsCaseHash seed), keyDup = None, valDup = None, keyCompare = Some dictSdsKeyCaseCompare\<rparr>"

definition migrateCacheDictType :: "bytes \<Rightarrow> (bytes, 'v) dictType" where
  "migrateCacheDictType seed = \<lparr>hashFunction = hash_of (dictSdsHash seed), keyDup = None, valDup = None, keyCompare = Some (cmp_of dictSdsKeyCompare)\<rparr>"

definition replScriptCacheDictType :: "bytes \<Rightarrow> (bytes, 'v) dictType" where
  "replScriptCacheDictType seed = \<lparr>hashFunction = hash_of (dictSdsCaseHash seed), keyDup = None, valDup = None, keyCompare = Some dictSdsKeyCaseCompare\<rparr>"

definition htNeedsResize :: "('k, 'v) dict \<Rightarrow> bool" where
  "htNeedsResize d \<longleftrightarrow> dictSlots d > DICT_HT_INITIAL_SIZE \<and> dictSize d * 100 div dictSlots d < 10"

subsection \<open>The contract of the types\<close>

text \<open>The bytes of a key that comparison and hashing look at, if they return.\<close>

definition key_bytes :: "bytes \<Rightarrow> bytes" where
  "key_bytes key = (if c_int (length key) < 0 then key else take (nat (c_int (length key))) key)"

definition key_hash :: "bytes \<Rightarrow> bytes \<Rightarrow> u64" where
  "key_hash seed key = (if c_int (length key) < 0 then 0 else siphash (key_bytes key) seed)"

lemma memcmp_eq_0: "length xs = length ys \<Longrightarrow> memcmp xs ys = 0 \<longleftrightarrow> xs = ys"
  by (induction xs ys rule: list_induct2) auto

lemma c_int_small [simp]: "n < 2 ^ 31 \<Longrightarrow> c_int n = int n"
  unfolding c_int_def signed_of_nat by (simp add: signed_take_bit_int_eq_self)

lemma key_bytes_short: "length key < 2 ^ 31 \<Longrightarrow> key_bytes key = key"
  by (simp add: key_bytes_def)

lemma c_int_le: "c_int n \<le> int n"
  unfolding c_int_def signed_of_nat by (simp add: signed_take_bit_int_less_eq_self_iff)

lemma peeks_c_int: "\<not> c_int (length key) < 0 \<Longrightarrow> peeks key 0 (nat (c_int (length key))) = Some (key_bytes key)"
  using c_int_le [of "length key"] by (simp add: peeks_def key_bytes_def)

lemma cmp_sds_iff:
  "cmp_of dictSdsKeyCompare a b \<longleftrightarrow> c_int (length a) = c_int (length b) \<and> key_bytes a = key_bytes b"
proof (cases "c_int (length a) = c_int (length b) \<and> \<not> c_int (length a) < 0")
  case True
  then have "peeks b 0 (nat (c_int (length a))) = Some (key_bytes b)" using peeks_c_int [of b] by simp
  moreover have "length (key_bytes a) = length (key_bytes b)"
    using True c_int_le [of "length a"] c_int_le [of "length b"] by (simp add: key_bytes_def)
  ultimately show ?thesis using True peeks_c_int [of a] memcmp_eq_0 [of "key_bytes a" "key_bytes b"]
    by (simp add: cmp_of_def dictSdsKeyCompare_def Let_def)
next
  case False
  then show ?thesis by (auto simp: cmp_of_def dictSdsKeyCompare_def Let_def key_bytes_def)
qed

lemma hash_sds: "hash_of (dictSdsHash seed) key = key_hash seed key"
  using peeks_c_int [of key] by (simp add: hash_of_def dictSdsHash_def dictGenHashFunction_def key_hash_def)

lemma sds_hash_type:
  assumes "hashFunction ty = hash_of (dictSdsHash seed)" "keyDup ty = None" "keyCompare ty = Some (cmp_of dictSdsKeyCompare)"
  shows "hash_type ty" "length a < 2 ^ 31 \<Longrightarrow> length b < 2 ^ 31 \<Longrightarrow> keq ty a b \<longleftrightarrow> a = b"
proof -
  have keq: "keq ty a b \<longleftrightarrow> c_int (length a) = c_int (length b) \<and> key_bytes a = key_bytes b" for a b
    using assms(3) by (auto simp: keq_def dictCompareKeys_def cmp_sds_iff)
  then show "keq ty a b \<longleftrightarrow> a = b" if "length a < 2 ^ 31" "length b < 2 ^ 31" using that by (auto simp: key_bytes_short)
  show "hash_type ty" using assms(1,2) by unfold_locales (auto simp: keq dictSetKey_def hash_sds key_hash_def)
qed

lemmas sds_types = setDictType_def zsetDictType_def dbDictType_def keyptrDictType_def hashDictType_def
  clusterNodesDictType_def migrateCacheDictType_def

interpretation set_type: hash_type "setDictType seed"
  by (rule sds_hash_type(1) [of _ seed]) (simp_all add: sds_types)

interpretation zset_type: hash_type "zsetDictType seed"
  by (rule sds_hash_type(1) [of _ seed]) (simp_all add: sds_types)

interpretation db_type: hash_type "dbDictType seed"
  by (rule sds_hash_type(1) [of _ seed]) (simp_all add: sds_types)

interpretation keyptr_type: hash_type "keyptrDictType seed"
  by (rule sds_hash_type(1) [of _ seed]) (simp_all add: sds_types)

interpretation hashes_type: hash_type "hashDictType seed"
  by (rule sds_hash_type(1) [of _ seed]) (simp_all add: sds_types)

interpretation cluster_nodes_type: hash_type "clusterNodesDictType seed"
  by (rule sds_hash_type(1) [of _ seed]) (simp_all add: sds_types)

interpretation migrate_cache_type: hash_type "migrateCacheDictType seed"
  by (rule sds_hash_type(1) [of _ seed]) (simp_all add: sds_types)

lemma keylist_functions:
  "hashFunction (keylistDictType seed) = hash_of (dictSdsHash seed)" "keyDup (keylistDictType seed) = None"
  "keyCompare (keylistDictType seed) = Some (cmp_of dictSdsKeyCompare)"
  by (simp_all add: keylistDictType_def dictObjHash_def dictSdsHash_def dictObjKeyCompare_def hash_of_def cmp_of_def fun_eq_iff)

interpretation keylist_type: hash_type "keylistDictType seed"
  by (rule sds_hash_type(1) [OF keylist_functions])

subsubsection \<open>Encoded objects\<close>

lemma getDecodedObject_simps [simp]:
  "getDecodedObject junk (StrEnc s) = Some s" "getDecodedObject junk (IntEnc v) = Some (dec_int (sint v))"
proof -
  obtain t where "ll2string (map junk [0..<32]) 32 v = Some (length (dec_int (sint v)), dec_int (sint v) @ 0 # t)"
    by (rule ll2string_buf [of 32]) simp
  then have "getDecodedObject junk (IntEnc v) = Some (takeWhile (\<lambda>c. c \<noteq> 0) (dec_int (sint v) @ 0 # t))"
    by (simp only: getDecodedObject_def string_robj.case Option.bind.simps prod.case)
  also have "\<dots> = Some (dec_int (sint v))" by (simp only: takeWhile_dec_int)
  finally show "getDecodedObject junk (IntEnc v) = Some (dec_int (sint v))" .
qed (simp add: getDecodedObject_def)

lemma dec_int_inj: "dec_int (sint (v :: i64)) = dec_int (sint w) \<longleftrightarrow> v = w"
  by (metis option.inject string2ll_dec_int)

lemma dec_int_short: "length (dec_int (sint (v :: i64))) < 2 ^ 31"
  using length_dec_int_le [of v] by simp

fun obj_str :: "string_robj \<Rightarrow> bytes" where
  "obj_str (StrEnc s) = s"
| "obj_str (IntEnc v) = dec_int (sint v)"

lemma cmp_obj_iff:
  "cmp_of (dictEncObjKeyCompare junk) x y \<longleftrightarrow> x = y \<or>
    c_int (length (obj_str x)) = c_int (length (obj_str y)) \<and> key_bytes (obj_str x) = key_bytes (obj_str y)"
proof -
  have f: "cmp_of dictSdsKeyCompare a b \<longleftrightarrow> (case dictSdsKeyCompare a b of Some r \<Rightarrow> r | None \<Rightarrow> a = b)" for a b
    by (simp add: cmp_of_def)
  have n: "dictSdsKeyCompare a b \<noteq> None" if "length a < 2 ^ 31 \<or> length b < 2 ^ 31" for a b
    using that peeks_c_int [of a] peeks_c_int [of b] by (auto simp: dictSdsKeyCompare_def Let_def)
  show ?thesis
    using cmp_sds_iff [of "obj_str x" "obj_str y"] n [of "obj_str x" "obj_str y"] dec_int_short
    by (cases x; cases y) (auto simp: cmp_of_def dictEncObjKeyCompare_def key_bytes_short dec_int_inj split: option.splits)
qed

lemma hash_obj: "hash_of (dictEncObjHash seed junk) x = key_hash seed (obj_str x)"
proof (cases x)
  case (IntEnc v)
  let ?D = "dec_int (sint v)"
  obtain t where t: "ll2string (map junk [0..<32]) 32 v = Some (length ?D, ?D @ 0 # t)"
    by (rule ll2string_buf [of 32]) simp
  have "dictEncObjHash seed junk x = dictGenHashFunction seed (?D @ 0 # t) (c_int (length ?D))"
    unfolding IntEnc using t by (simp only: dictEncObjHash_def string_robj.case Option.bind.simps prod.case)
  also have "\<dots> = Some (siphash ?D seed)" using dec_int_short [of v] by (simp add: dictGenHashFunction_def peeks_def)
  finally show ?thesis using IntEnc dec_int_short [of v] by (simp add: hash_of_def key_hash_def key_bytes_short)
qed (use hash_sds [of seed] in \<open>simp add: hash_of_def dictEncObjHash_def dictSdsHash_def\<close>)

lemma object_key_hash_type: "hash_type (objectKeyPointerValueDictType seed junk :: (string_robj, 'v) dictType)"
  (is "hash_type ?ty")
proof -
  have keq: "keq ?ty x y \<longleftrightarrow> x = y \<or>
      c_int (length (obj_str x)) = c_int (length (obj_str y)) \<and> key_bytes (obj_str x) = key_bytes (obj_str y)" for x y
    by (auto simp: keq_def dictCompareKeys_def objectKeyPointerValueDictType_def cmp_obj_iff)
  have "hashFunction ?ty x = key_hash seed (obj_str x)" "dictSetKey ?ty x = x" for x
    by (simp_all add: dictSetKey_def objectKeyPointerValueDictType_def hash_obj)
  then show ?thesis by unfold_locales (auto simp: keq key_hash_def)
qed

interpretation object_key_type: hash_type "objectKeyPointerValueDictType seed junk"
  by (rule object_key_hash_type)

subsubsection \<open>Case-insensitive keys\<close>

lemma tolower_0 [simp]: "tolower c = 0 \<longleftrightarrow> c = 0"
proof
  assume l: "tolower c = 0"
  show "c = 0"
  proof (cases "c \<ge> 65 \<and> c \<le> 90")
    case True
    then have "unat (c + 32) = unat c + 32"
      by (simp add: unat_word_ariths word_le_nat_alt)
    then show ?thesis using l True by (simp add: tolower_def)
  next
    case False
    show ?thesis using l unfolding tolower_def if_not_P [OF False] .
  qed
qed (simp add: tolower_def)

lemma tolower_zero [simp]: "tolower 0 = 0"
  by simp

lemma strcasecmp_0:
  assumes "0 \<notin> set a" "0 \<notin> set b"
  shows "strcasecmp a b = 0 \<longleftrightarrow> map tolower a = map tolower b"
  using assms
proof (induction a b rule: strcasecmp.induct)
  case (1 s1 s2)
  show ?case
  proof (cases "tolower (first_char s1) = tolower (first_char s2) \<and> first_char s1 \<noteq> 0")
    case True
    then have t: "tolower (first_char s2) \<noteq> 0" using tolower_0 [of "first_char s1"] by metis
    then obtain c1 r1 c2 r2 where s: "s1 = c1 # r1" "s2 = c2 # r2"
      using True by (cases s1; cases s2) (auto simp: first_char_def)
    have "strcasecmp s1 s2 = strcasecmp r1 r2" using True t s by (subst strcasecmp.simps) (simp add: first_char_def)
    then show ?thesis using 1 True s t by (simp add: first_char_def)
  next
    case False
    then show ?thesis using "1.prems"
      by (subst strcasecmp.simps; cases s1; cases s2) (auto simp: first_char_def Let_def word_uint_eq_iff [symmetric] uint_0_iff)
  qed
qed

lemmas case_types = shaScriptObjectDictType_def commandTableDictType_def clusterNodesBlackListDictType_def modulesDictType_def
  replScriptCacheDictType_def

lemma sds_returns:
  assumes "length a < 2 ^ 31" "length b < 2 ^ 31"
  shows "dictSdsHash seed a = Some (siphash a seed)" "dictObjHash seed a = Some (siphash a seed)"
    "dictSdsCaseHash seed a = Some (siphash_nocase a seed)"
    "dictSdsKeyCompare a b = Some (a = b)" "dictObjKeyCompare a b = Some (a = b)"
  using assms by (auto simp: dictSdsHash_def dictObjHash_def dictSdsCaseHash_def dictGenHashFunction_def dictGenCaseHashFunction_def
      dictObjKeyCompare_def dictSdsKeyCompare_def peeks_def memcmp_eq_0 Let_def)

lemma enc_obj_returns:
  assumes "length (obj_str x) < 2 ^ 31" "length (obj_str y) < 2 ^ 31"
  shows "dictEncObjHash seed junk x \<noteq> None" "dictEncObjKeyCompare junk x y \<noteq> None"
proof -
  show "dictEncObjKeyCompare junk x y \<noteq> None"
    using assms sds_returns(4) [of "obj_str x" "obj_str y"] by (cases x; cases y) (auto simp: dictEncObjKeyCompare_def)
  show "dictEncObjHash seed junk x \<noteq> None"
  proof (cases x)
    case (IntEnc v)
    obtain t where t: "ll2string (map junk [0..<32]) 32 v = Some (length (dec_int (sint v)), dec_int (sint v) @ 0 # t)"
      by (rule ll2string_buf [of 32]) simp
    have "dictEncObjHash seed junk x = dictGenHashFunction seed (dec_int (sint v) @ 0 # t) (c_int (length (dec_int (sint v))))"
      unfolding IntEnc using t by (simp only: dictEncObjHash_def string_robj.case Option.bind.simps prod.case)
    then show ?thesis using dec_int_short [of v] by (simp add: dictGenHashFunction_def peeks_def)
  qed (use assms in \<open>simp add: dictEncObjHash_def dictGenHashFunction_def peeks_def\<close>)
qed

lemma case_hash_type:
  assumes "hashFunction ty = hash_of (dictSdsCaseHash seed)" "keyCompare ty = Some dictSdsKeyCaseCompare"
    "0 \<notin> set a" "0 \<notin> set b" "length a < 2 ^ 31" "length b < 2 ^ 31"
  shows "keq ty a b \<longleftrightarrow> map tolower a = map tolower b" "keq ty a b \<Longrightarrow> hashFunction ty a = hashFunction ty b"
proof -
  have low: "siptlw = tolower" by (simp add: siptlw_def tolower_def fun_eq_iff)
  show k: "keq ty a b \<longleftrightarrow> map tolower a = map tolower b"
    using strcasecmp_0 [OF assms(3,4)] assms(2) by (auto simp: keq_def dictCompareKeys_def dictSdsKeyCaseCompare_def)
  show "keq ty a b \<Longrightarrow> hashFunction ty a = hashFunction ty b"
    using k assms(1,5,6) by (simp add: hash_of_def sds_returns siphash_nocase_eq low)
qed

text \<open>
  C36: the fourteen hash table types of the server, on strings below 2 GB. The eight types with byte-wise comparison of strings and the one with string
  objects satisfy what the dictionary relies on: the comparison is an equivalence and equal keys have equal hashes. It is
  equality of the contents, where an integer-encoded object has its decimal digits as contents. The five
  case-insensitive types compare up to case and hash accordingly, for keys without zero bytes. No function reads out of bounds.
\<close>

theorem server_dict_types:
  assumes len: "length a < 2 ^ 31" "length b < 2 ^ 31"
  shows "(\<forall>ty \<in> {zsetDictType seed, dbDictType seed, keyptrDictType seed, keylistDictType seed, clusterNodesDictType seed,
        migrateCacheDictType seed} :: (bytes, 'v) dictType set. hash_type ty \<and> (keq ty a b \<longleftrightarrow> a = b)) \<and>
    hash_type (setDictType seed) \<and> (keq (setDictType seed) a b \<longleftrightarrow> a = b) \<and>
    hash_type (hashDictType seed) \<and> (keq (hashDictType seed) a b \<longleftrightarrow> a = b) \<and>
    hash_type (objectKeyPointerValueDictType seed junk :: (string_robj, 'v) dictType) \<and>
    (\<forall>x \<in> {StrEnc a, IntEnc v}. \<forall>y \<in> {StrEnc b, IntEnc w}.
      keq (objectKeyPointerValueDictType seed junk :: (string_robj, 'v) dictType) x y \<longleftrightarrow> obj_str x = obj_str y) \<and>
    (\<forall>ty \<in> {shaScriptObjectDictType seed, commandTableDictType seed, clusterNodesBlackListDictType seed, modulesDictType seed,
        replScriptCacheDictType seed} :: (bytes, 'v) dictType set. 0 \<notin> set a \<and> 0 \<notin> set b \<longrightarrow>
      (keq ty a b \<longleftrightarrow> map tolower a = map tolower b) \<and> (keq ty a b \<longrightarrow> hashFunction ty a = hashFunction ty b)) \<and>
    dictSdsHash seed a \<noteq> None \<and> dictSdsCaseHash seed a \<noteq> None \<and> dictObjHash seed a \<noteq> None \<and>
    dictSdsKeyCompare a b \<noteq> None \<and> dictObjKeyCompare a b \<noteq> None \<and>
    (\<forall>x \<in> {StrEnc a, IntEnc v}. \<forall>y \<in> {StrEnc b, IntEnc w}.
      dictEncObjHash seed junk x \<noteq> None \<and> dictEncObjKeyCompare junk x y \<noteq> None)"
proof (intro conjI)
  show "\<forall>ty \<in> {zsetDictType seed, dbDictType seed, keyptrDictType seed, keylistDictType seed, clusterNodesDictType seed,
      migrateCacheDictType seed} :: (bytes, 'v) dictType set. hash_type ty \<and> (keq ty a b \<longleftrightarrow> a = b)"
  proof
    fix ty :: "(bytes, 'v) dictType"
    assume "ty \<in> {zsetDictType seed, dbDictType seed, keyptrDictType seed, keylistDictType seed, clusterNodesDictType seed,
      migrateCacheDictType seed}"
    then have "hashFunction ty = hash_of (dictSdsHash seed)" "keyDup ty = None" "keyCompare ty = Some (cmp_of dictSdsKeyCompare)"
      by (auto simp: sds_types keylist_functions)
    from sds_hash_type [OF this] len show "hash_type ty \<and> (keq ty a b \<longleftrightarrow> a = b)" by blast
  qed
  show "keq (setDictType seed) a b \<longleftrightarrow> a = b" "keq (hashDictType seed) a b \<longleftrightarrow> a = b"
    using len by (auto simp: keq_def dictCompareKeys_def sds_types cmp_sds_iff key_bytes_short)
  show "\<forall>x \<in> {StrEnc a, IntEnc v}. \<forall>y \<in> {StrEnc b, IntEnc w}.
      keq (objectKeyPointerValueDictType seed junk :: (string_robj, 'v) dictType) x y \<longleftrightarrow> obj_str x = obj_str y"
    using len dec_int_short by (auto simp: keq_def dictCompareKeys_def objectKeyPointerValueDictType_def cmp_obj_iff key_bytes_short)
  show "\<forall>ty \<in> {shaScriptObjectDictType seed, commandTableDictType seed, clusterNodesBlackListDictType seed, modulesDictType seed,
        replScriptCacheDictType seed} :: (bytes, 'v) dictType set. 0 \<notin> set a \<and> 0 \<notin> set b \<longrightarrow>
      (keq ty a b \<longleftrightarrow> map tolower a = map tolower b) \<and> (keq ty a b \<longrightarrow> hashFunction ty a = hashFunction ty b)"
  proof (intro ballI impI)
    fix ty :: "(bytes, 'v) dictType"
    assume "ty \<in> {shaScriptObjectDictType seed, commandTableDictType seed, clusterNodesBlackListDictType seed, modulesDictType seed,
      replScriptCacheDictType seed}" and nul: "0 \<notin> set a \<and> 0 \<notin> set b"
    then have "hashFunction ty = hash_of (dictSdsCaseHash seed)" "keyCompare ty = Some dictSdsKeyCaseCompare"
      by (auto simp: case_types)
    from case_hash_type [OF this] nul len
    show "(keq ty a b \<longleftrightarrow> map tolower a = map tolower b) \<and> (keq ty a b \<longrightarrow> hashFunction ty a = hashFunction ty b)" by blast
  qed
  show "\<forall>x \<in> {StrEnc a, IntEnc v}. \<forall>y \<in> {StrEnc b, IntEnc w}.
      dictEncObjHash seed junk x \<noteq> None \<and> dictEncObjKeyCompare junk x y \<noteq> None"
  proof (intro ballI)
    fix x y assume "x \<in> {StrEnc a, IntEnc v}" "y \<in> {StrEnc b, IntEnc w}"
    then have "length (obj_str x) < 2 ^ 31" "length (obj_str y) < 2 ^ 31"
      using len dec_int_short [of v] dec_int_short [of w] by auto
    from enc_obj_returns [OF this] show "dictEncObjHash seed junk x \<noteq> None \<and> dictEncObjKeyCompare junk x y \<noteq> None" by blast
  qed
qed (use len in \<open>simp_all add: set_type.hash_type_axioms hashes_type.hash_type_axioms object_key_hash_type sds_returns\<close>)

theorem server_dict_types_witness:
  "\<not> keq (setDictType [1, 2]) [71, 69, 84] [103, 101, 116] \<and>
   keq (commandTableDictType [1, 2] :: (bytes, nat) dictType) [71, 69, 84] [103, 101, 116]"
  using server_dict_types [of "[71, 69, 84]" "[103, 101, 116]" "[1, 2]" undefined 0 0, where 'v = nat]
  by (simp add: tolower_def)

end
