(* ===== verification/Sds_Num.thy ===== *)
theory Sds_Num
  imports Util
begin

text \<open>
  The number conversions of \<open>sds.c\<close>: \<open>sdsll2str\<close>, \<open>sdsull2str\<close> and \<open>sdsfromlonglong\<close>. The digits are
  written in reverse order into a buffer, which is then reversed in place. An access outside the
  buffer is \<^term>\<open>None\<close>. The result is the decimal representation of \<open>Util\<close>.
\<close>

function digits_loop :: "bytes \<Rightarrow> nat \<Rightarrow> u64 \<Rightarrow> (bytes \<times> nat) option" where
  "digits_loop s p v =
     (if p < length s then
        let s = s[p := 48 + ucast (v mod 10)]; v = v div 10 in
        if v \<noteq> 0 then digits_loop s (p + 1) v else Some (s, p + 1)
      else None)"
  by pat_completeness auto
termination
  by (relation "measure (\<lambda>(s, p, v). length s - p)") auto

text \<open>Swapping the bytes at \<open>i\<close> and \<open>j\<close> until the two positions meet.\<close>

function reverse_loop :: "bytes \<Rightarrow> nat \<Rightarrow> nat \<Rightarrow> bytes option" where
  "reverse_loop s i j =
     (if i < j then
        if j < length s then reverse_loop (s[i := s ! j, j := s ! i]) (i + 1) (j - 1) else None
      else Some s)"
  by pat_completeness auto
termination by (relation "measure (\<lambda>(s, i, j). j - i)") auto

definition put_char :: "bytes \<Rightarrow> nat \<Rightarrow> u8 \<Rightarrow> bytes option" where
  "put_char s p c = (if p < length s then Some (s[p := c]) else None)"

definition sdsull2str :: "bytes \<Rightarrow> u64 \<Rightarrow> (bytes \<times> nat) option" where
  "sdsull2str s v = do {
     (s, p) \<leftarrow> digits_loop s 0 v;
     s \<leftarrow> put_char s p 0;
     s \<leftarrow> reverse_loop s 0 (p - 1);
     Some (s, p) }"

text \<open>The absolute value is taken modulo \<open>2 ^ 64\<close>, as the negation of \<open>LLONG_MIN\<close> gives it.\<close>

definition sdsll2str :: "bytes \<Rightarrow> i64 \<Rightarrow> (bytes \<times> nat) option" where
  "sdsll2str s value = do {
     let v = (if sint value < 0 then - value else value);
     (s, p) \<leftarrow> digits_loop s 0 v;
     (s, p) \<leftarrow> (if sint value < 0 then do { s \<leftarrow> put_char s p 45; Some (s, p + 1) } else Some (s, p));
     s \<leftarrow> put_char s p 0;
     s \<leftarrow> reverse_loop s 0 (p - 1);
     Some (s, p) }"

text \<open>The contents of the new string; \<open>buf\<close> is the uninitialised local array of \<open>SDS_LLSTR_SIZE\<close> bytes.\<close>

definition sdsfromlonglong :: "bytes \<Rightarrow> i64 \<Rightarrow> bytes option" where
  "sdsfromlonglong buf value = do { (s, len) \<leftarrow> sdsll2str buf value; Some (take len s) }"

declare digits_loop.simps [simp del] reverse_loop.simps [simp del]

lemma digit_char: "48 + ucast ((v::u64) mod 10) = (48 + of_nat (unat v mod 10) :: u8)"
proof -
  have "ucast x = (of_nat (unat x) :: u8)" for x :: u64
    by (simp add: word_unat_eq_iff unat_of_nat unsigned_ucast_eq take_bit_eq_mod)
  moreover have "unat (v mod 10) = unat v mod 10" by (simp add: unat_mod)
  ultimately show ?thesis by (metis add_left_cancel)
qed

lemma digits_loop_correct:
  "length gap = length (dec (unat v)) \<Longrightarrow>
    digits_loop (a @ gap @ t) (length a) v = Some (a @ rev (dec (unat v)) @ t, length a + length gap)"
proof (induction "unat v" arbitrary: v a gap rule: less_induct)
  case less
  let ?c = "48 + of_nat (unat v mod 10) :: u8"
  obtain g gap' where g: "gap = g # gap'" using less.prems length_dec_pos [of "unat v"] by (cases gap) auto
  have s: "(a @ gap @ t)[length a := ?c] = a @ ?c # gap' @ t" using g by simp
  have q: "unat (v div 10) = unat v div 10" by (simp add: unat_div)
  show ?case
  proof (cases "unat v < 10")
    case True
    then have "v div 10 = 0" using q by (simp add: unat_eq_zero [symmetric])
    moreover have "gap' = []" using less.prems g True by (simp add: dec_small)
    ultimately show ?thesis using True s g by (subst digits_loop.simps) (simp add: digit_char dec_small)
  next
    case False
    then have d: "dec (unat v) = dec (unat (v div 10)) @ [?c]" using q by (simp add: dec_step)
    have nz: "v div 10 \<noteq> 0" using False q by (auto simp: unat_eq_zero [symmetric])
    have "unat (v div 10) < unat v" using q False by simp
    then have "digits_loop ((a @ [?c]) @ gap' @ t) (length (a @ [?c])) (v div 10) =
        Some ((a @ [?c]) @ rev (dec (unat (v div 10))) @ t, length (a @ [?c]) + length gap')"
      using less.prems d g by (intro less.hyps) simp_all
    then show ?thesis using s g d nz by (subst digits_loop.simps) (simp add: digit_char)
  qed
qed

lemma reverse_loop_correct:
  "reverse_loop (a @ m @ t) (length a) (length a + length m - 1) = Some (a @ rev m @ t)"
proof (induction "length m" arbitrary: a m t rule: less_induct)
  case less
  consider "m = []" | x where "m = [x]" | x m' y where "m = x # m' @ [y]"
    by (cases m; cases "tl m" rule: rev_cases) auto
  then show ?case
  proof cases
    case 3
    have "length a + length m - 1 = Suc (length a + length m')" using 3 by simp
    moreover have "(a @ m @ t)[length a := (a @ m @ t) ! Suc (length a + length m'), Suc (length a + length m') := (a @ m @ t) ! length a] =
        (a @ [y]) @ m' @ (x # t)"
      using 3 by (simp add: nth_append list_update_append)
    moreover have "reverse_loop ((a @ [y]) @ m' @ (x # t)) (length (a @ [y])) (length (a @ [y]) + length m' - 1) =
        Some ((a @ [y]) @ rev m' @ (x # t))" by (rule less.hyps) (simp add: 3)
    ultimately show ?thesis using 3 by (subst reverse_loop.simps) simp
  next
    case 1
    then have "\<not> length a < length a + length m - 1" by simp
    then show ?thesis using 1 by (subst reverse_loop.simps) simp
  next
    case 2
    then show ?thesis by (subst reverse_loop.simps) simp
  qed
qed

lemma sdsll2str_correct:
  assumes "length s = Suc (length (dec_int (sint v))) + k"
  shows "sdsll2str s v = Some (dec_int (sint v) @ 0 # drop (Suc (length (dec_int (sint v)))) s, length (dec_int (sint v)))"
proof -
  let ?n = "nat \<bar>sint v\<bar>" and ?w = "if sint v < 0 then - v else v"
  have w: "unat ?w = ?n" using unat_magnitude [of v] by (cases "sint v < 0") (simp_all add: ll_abs_neg)
  let ?D = "dec ?n" and ?neg = "if sint v < 0 then [45 :: u8] else []"
  have D: "dec_int (sint v) = ?neg @ ?D" by (simp add: dec_int_def)
  obtain gap z t where s: "s = gap @ (if sint v < 0 then [z] else []) @ t" "length gap = length ?D"
  proof (cases "sint v < 0")
    case True
    then have "s = take (length ?D) s @ [s ! length ?D] @ drop (Suc (length ?D)) s"
      using assms D by (simp add: id_take_nth_drop)
    then show ?thesis using that [of "take (length ?D) s" "s ! length ?D" "drop (Suc (length ?D)) s"] assms D True by simp
  next
    case False
    then show ?thesis using that [of "take (length ?D) s" _ "drop (length ?D) s"] assms D by simp
  qed
  obtain z' t' where t: "t = z' # t'" using assms s D by (cases t) (auto split: if_splits)
  have L: "digits_loop s 0 ?w = Some (rev ?D @ (if sint v < 0 then [z] else []) @ t, length ?D)"
    using digits_loop_correct [of gap ?w "[]" "(if sint v < 0 then [z] else []) @ t"] s w by simp
  have R: "reverse_loop (rev (dec_int (sint v)) @ 0 # t') 0 (length (dec_int (sint v)) - 1) = Some (dec_int (sint v) @ 0 # t')"
    using reverse_loop_correct [of "[]" "rev (dec_int (sint v))" "0 # t'"] by simp
  have "drop (Suc (length (dec_int (sint v)))) s = t'" using s t D by simp
  then show ?thesis
    using L R t D length_dec_pos [of ?n]
    by (cases "sint v < 0") (simp_all add: sdsll2str_def put_char_def list_update_append)
qed

lemma sdsfromlonglong_dec:
  assumes "length buf = 21"
  shows "sdsfromlonglong buf v = Some (dec_int (sint v))"
  using sdsll2str_correct [of buf v "20 - length (dec_int (sint v))"] length_dec_int_le [of v] assms
  by (simp add: sdsfromlonglong_def)

end
