(* ===== verification/Set_Type.thy ===== *)
theory Set_Type
  imports Dict_Types Dict_Iter Intset Sds_Num
begin

text \<open>
  Sets of strings (\<open>t_set.c\<close>): an object holds a set of integers as an \<open>intset\<close> as long as all elements are
  decimal integers and there are few of them, and a dictionary otherwise. Elements are the
  contents of \<open>sds\<close> strings. The abstract set of strings that an object represents does not depend on the
  encoding; the operations are those of sets of strings, and the conversion does not change the set.
\<close>

subsection \<open>Definitions\<close>

datatype set_robj = INTSET intset | HT "(bytes, unit) dict"

text \<open>
  What the operations take from the server and from memory: the hash seed, \<open>dict_can_resize\<close>,
  \<open>server.set_max_intset_entries\<close>, the indeterminate bytes of \<open>zrealloc\<close> and of a local array,
  the addresses of the tables of a dictionary (they enter its fingerprint) and the indeterminate field of a new iterator.
\<close>

record set_env =
  hash_seed :: bytes
  can_resize :: bool
  set_max_intset_entries :: nat
  realloc_junk :: "nat \<Rightarrow> u8"
  llstr_junk :: "nat \<Rightarrow> u8"
  table_addr :: "u64 \<times> u64"
  iter_junk :: u64

abbreviation set_ty :: "set_env \<Rightarrow> (bytes, unit) dictType" where
  "set_ty env \<equiv> setDictType (hash_seed env)"

definition isSdsRepresentableAsLongLong :: "bytes \<Rightarrow> i64 option" where
  "isSdsRepresentableAsLongLong s = string2ll s"

definition createSetObject :: set_robj where
  "createSetObject = HT dictCreate"

definition createIntsetObject :: set_robj where
  "createIntsetObject = INTSET intsetNew"

definition setTypeCreate :: "bytes \<Rightarrow> set_robj" where
  "setTypeCreate value =
     (if isSdsRepresentableAsLongLong value \<noteq> None then createIntsetObject else createSetObject)"

text \<open>
  Iterators. The dictionary iterator is not a safe one. The element is an integer or a string according to
  the encoding; \<^term>\<open>None\<close> for the result \<open>-1\<close>. The position in an
  integer set is a C \<open>int\<close>; it stays below the bound on the size. An iterator over an integer set has the field of the dictionary iterator too, and does not use it.
\<close>

record setTypeIterator =
  si_ii :: nat
  si_di :: "(bytes, unit) dictIterator"

datatype set_elem = LLEle int | SdsEle bytes

definition setTypeInitIterator :: "set_env \<Rightarrow> set_robj \<Rightarrow> setTypeIterator" where
  "setTypeInitIterator env subject = \<lparr>si_ii = 0, si_di = dictGetIterator (iter_junk env)\<rparr>"

definition setTypeReleaseIterator :: "set_env \<Rightarrow> set_robj \<Rightarrow> setTypeIterator \<Rightarrow> set_robj option" where
  "setTypeReleaseIterator env subject si = (case subject of
     HT d \<Rightarrow> map_option HT (dictReleaseIterator (table_addr env) d (si_di si))
   | INTSET is \<Rightarrow> Some subject)"

definition setTypeNext ::
  "set_env \<Rightarrow> set_robj \<Rightarrow> setTypeIterator \<Rightarrow> (set_robj \<times> setTypeIterator \<times> set_elem option) option" where
  "setTypeNext env subject si = (case subject of
     HT d \<Rightarrow> do {
       (d, di, de) \<leftarrow> dictNext (table_addr env) d (si_di si);
       Some (HT d, si\<lparr>si_di := di\<rparr>, map_option (\<lambda>e. SdsEle (ekey e)) de) }
   | INTSET is \<Rightarrow> do {
       r \<leftarrow> intsetGet is (si_ii si);
       Some (subject, si\<lparr>si_ii := si_ii si + 1\<rparr>, map_option LLEle r) })"

text \<open>The value left in \<open>*llele\<close>: a string element leaves the trap value.\<close>

fun llele :: "set_elem \<Rightarrow> int" where
  "llele (LLEle v) = v"
| "llele (SdsEle s) = -123456789"

definition setTypeNextObject ::
  "set_env \<Rightarrow> set_robj \<Rightarrow> setTypeIterator \<Rightarrow> (set_robj \<times> setTypeIterator \<times> bytes option) option" where
  "setTypeNextObject env subject si = do {
     (subject, si, ele) \<leftarrow> setTypeNext env subject si;
     case ele of
       None \<Rightarrow> Some (subject, si, None)
     | Some (LLEle v) \<Rightarrow> do {
         s \<leftarrow> sdsfromlonglong (map (llstr_junk env) [0..<21]) (word_of_int v);
         Some (subject, si, Some s) }
     | Some (SdsEle s) \<Rightarrow> Some (subject, si, Some s) }"

definition setTypeRandomElement :: "set_env \<Rightarrow> (nat \<Rightarrow> nat) \<Rightarrow> set_robj \<Rightarrow> (set_robj \<times> set_elem) option" where
  "setTypeRandomElement env rnd setobj = (case setobj of
     HT d \<Rightarrow> do {
       (d, de) \<leftarrow> dictGetRandomKey (set_ty env) rnd d;
       e \<leftarrow> de;
       Some (HT d, SdsEle (ekey e)) }
   | INTSET is \<Rightarrow> do {
       v \<leftarrow> intsetRandom (rnd 0) is;
       Some (setobj, LLEle v) })"

definition setTypeSize :: "set_robj \<Rightarrow> nat" where
  "setTypeSize subject = (case subject of HT d \<Rightarrow> dictSize d | INTSET is \<Rightarrow> intsetLen is)"

text \<open>The conversion of an integer set; a failed assertion is \<^term>\<open>None\<close>.\<close>

partial_function (option) convert_loop ::
  "set_env \<Rightarrow> set_robj \<Rightarrow> setTypeIterator \<Rightarrow> (bytes, unit) dict \<Rightarrow>
   (set_robj \<times> setTypeIterator \<times> (bytes, unit) dict) option" where
  "convert_loop env setobj si d = do {
     (setobj, si, ele) \<leftarrow> setTypeNext env setobj si;
     case ele of
       Some e \<Rightarrow> do {
         element \<leftarrow> sdsfromlonglong (map (llstr_junk env) [0..<21]) (word_of_int (llele e));
         (d, added) \<leftarrow> dictAdd (set_ty env) (can_resize env) () d element ();
         if added then convert_loop env setobj si d else None }
     | None \<Rightarrow> Some (setobj, si, d) }"

definition setTypeConvert :: "set_env \<Rightarrow> set_robj \<Rightarrow> set_robj option" where
  "setTypeConvert env setobj = (case setobj of
     HT d \<Rightarrow> None
   | INTSET is \<Rightarrow> do {
       let (d, ok) = dictExpand dictCreate (intsetLen is);
       (setobj, si, d) \<leftarrow> convert_loop env setobj (setTypeInitIterator env setobj) d;
       setobj \<leftarrow> setTypeReleaseIterator env setobj si;
       Some (HT d) })"

definition setTypeAdd :: "set_env \<Rightarrow> set_robj \<Rightarrow> bytes \<Rightarrow> (set_robj \<times> bool) option" where
  "setTypeAdd env subject value = (case subject of
     HT ht \<Rightarrow> do {
       (ht, de, existing) \<leftarrow> dictAddRaw (set_ty env) (can_resize env) () ht value;
       case de of
         Some r \<Rightarrow> do {
           e \<leftarrow> deref ht r;
           ht \<leftarrow> write_entry ht r (e\<lparr>ekey := dictSetKey (set_ty env) value\<rparr>);
           ht \<leftarrow> dictSetVal (set_ty env) ht r ();
           Some (HT ht, True) }
       | None \<Rightarrow> Some (HT ht, False) }
   | INTSET is \<Rightarrow>
       (case isSdsRepresentableAsLongLong value of
          Some llval \<Rightarrow> do {
            (is, success) \<leftarrow> intsetAdd (realloc_junk env) is llval;
            if success then do {
              s \<leftarrow> (if intsetLen is > set_max_intset_entries env then setTypeConvert env (INTSET is) else Some (INTSET is));
              Some (s, True) }
            else Some (INTSET is, False) }
        | None \<Rightarrow> do {
            s \<leftarrow> setTypeConvert env subject;
            case s of
              HT d \<Rightarrow> do {
                (d, added) \<leftarrow> dictAdd (set_ty env) (can_resize env) () d value ();
                if added then Some (HT d, True) else None }
            | INTSET is \<Rightarrow> None }))"

definition setTypeRemove :: "set_env \<Rightarrow> set_robj \<Rightarrow> bytes \<Rightarrow> (set_robj \<times> bool) option" where
  "setTypeRemove env setobj value = (case setobj of
     HT d \<Rightarrow> do {
       (d, deleted) \<leftarrow> dictDelete (set_ty env) d value;
       if deleted then Some (HT (if htNeedsResize d then fst (dictResize (can_resize env) d) else d), True)
       else Some (HT d, False) }
   | INTSET is \<Rightarrow>
       (case isSdsRepresentableAsLongLong value of
          Some llval \<Rightarrow> do {
            (is, success) \<leftarrow> intsetRemove (realloc_junk env) is llval;
            Some (INTSET is, success) }
        | None \<Rightarrow> Some (setobj, False)))"

definition setTypeIsMember :: "set_env \<Rightarrow> set_robj \<Rightarrow> bytes \<Rightarrow> (set_robj \<times> bool) option" where
  "setTypeIsMember env subject value = (case subject of
     HT d \<Rightarrow> do {
       (d, de) \<leftarrow> dictFind (set_ty env) d value;
       Some (HT d, de \<noteq> None) }
   | INTSET is \<Rightarrow>
       (case isSdsRepresentableAsLongLong value of
          Some llval \<Rightarrow> do { found \<leftarrow> intsetFind is llval; Some (subject, found) }
        | None \<Rightarrow> Some (subject, False)))"

text \<open>
  The loops of \<open>saddCommand\<close> and \<open>sremCommand\<close> over the arguments of the command, with the operations on the
  set as arguments; the flag says that the set became empty and the key was removed.
\<close>

fun sadd_loop :: "('s \<Rightarrow> bytes \<Rightarrow> ('s \<times> bool) option) \<Rightarrow> bytes list \<Rightarrow> 's \<Rightarrow> nat \<Rightarrow> ('s \<times> nat) option" where
  "sadd_loop add [] s added = Some (s, added)"
| "sadd_loop add (v # vs) s added = do {
     (s, ok) \<leftarrow> add s v;
     sadd_loop add vs s (if ok then added + 1 else added) }"

fun srem_loop ::
  "('s \<Rightarrow> bytes \<Rightarrow> ('s \<times> bool) option) \<Rightarrow> ('s \<Rightarrow> nat) \<Rightarrow> bytes list \<Rightarrow> 's \<Rightarrow> nat \<Rightarrow> ('s \<times> nat \<times> bool) option" where
  "srem_loop remove sz [] s deleted = Some (s, deleted, False)"
| "srem_loop remove sz (v # vs) s deleted = do {
     (s, ok) \<leftarrow> remove s v;
     if ok \<and> sz s = 0 then Some (s, deleted + 1, True)
     else srem_loop remove sz vs s (if ok then deleted + 1 else deleted) }"

definition sadd_values :: "set_env \<Rightarrow> bytes list \<Rightarrow> set_robj \<Rightarrow> (set_robj \<times> nat) option" where
  "sadd_values env vs s = sadd_loop (setTypeAdd env) vs s 0"

definition srem_values :: "set_env \<Rightarrow> bytes list \<Rightarrow> set_robj \<Rightarrow> (set_robj \<times> nat \<times> bool) option" where
  "srem_values env vs s = srem_loop (setTypeRemove env) setTypeSize vs s 0"

subsection \<open>The set that an object represents\<close>

abbreviation dkeys :: "(bytes, unit) dict \<Rightarrow> bytes set" where
  "dkeys d \<equiv> ekey ` set (dict_entries d)"

definition sds_dict_wf :: "bytes \<Rightarrow> (bytes, unit) dict \<Rightarrow> bool" where
  "sds_dict_wf seed d \<longleftrightarrow> dict_wf (setDictType seed) d \<and> (\<forall>k \<in> dkeys d. length k < 2 ^ 31)"

fun set_elems :: "set_robj \<Rightarrow> bytes set" where
  "set_elems (INTSET is) = dec_int ` set (intset_vals is)"
| "set_elems (HT d) = dkeys d"

fun set_wf :: "set_env \<Rightarrow> set_robj \<Rightarrow> bool" where
  "set_wf env (INTSET is) = intset_inv is"
| "set_wf env (HT d) = sds_dict_wf (hash_seed env) d"

subsection \<open>Dictionaries of strings without values\<close>

lemma set_keq: "length a < 2 ^ 31 \<Longrightarrow> length b < 2 ^ 31 \<Longrightarrow> keq (setDictType seed) a b \<longleftrightarrow> a = b"
  by (auto simp: keq_def dictCompareKeys_def setDictType_def cmp_sds_iff key_bytes_short)

lemma dictSetKey_set [simp]: "dictSetKey (setDictType seed) k = k"
  by (simp add: dictSetKey_def setDictType_def)

lemma distinct_keys_distinct: "distinct_keys ty (mset xs) \<Longrightarrow> distinct (map ekey xs)"
proof (induction xs)
  case (Cons x xs)
  have "distinct_keys ty (mset xs)"
    using Cons.prems unfolding distinct_keys_def by auto
  moreover have "ekey x \<noteq> ekey e" if "e \<in> set xs" for e
    using Cons.prems that unfolding distinct_keys_def by (metis add_mset_remove_trivial keq_refl mset.simps(2) set_mset_mset union_single_eq_member)
  ultimately show ?case using Cons.IH by auto
qed simp

lemma dictSize_keys:
  assumes "sds_dict_wf seed d"
  shows "dictSize d = card (dkeys d)"
proof -
  have wf: "dict_wf (setDictType seed) d" using assms by (simp add: sds_dict_wf_def)
  then have "distinct (map ekey (dict_entries d))"
    by (intro distinct_keys_distinct [of "setDictType seed"]) (simp add: dict_wf_def)
  then show ?thesis using dictSize_entries [OF wf] distinct_card [of "map ekey (dict_entries d)"] by simp
qed

lemma write_entry_same: "deref d r = Some e \<Longrightarrow> write_entry d r e = Some d"
  by (cases r; cases d)
    (auto simp: deref_def write_entry_def get_ht_def set_ht_def chain_at_def set_chain_def peek_def
      split: option.splits if_splits bind_splits)

lemma dictSetVal_unit: "deref d r = Some e \<Longrightarrow> dictSetVal ty d r () = Some d"
  by (simp add: dictSetVal_def write_entry_same)

lemma sds_dict_wfI:
  assumes "dict_wf (setDictType seed) d'" "sds_dict_wf seed d" "dkeys d' \<subseteq> insert key (dkeys d)" "length key < 2 ^ 31"
  shows "sds_dict_wf seed d'"
  using assms unfolding sds_dict_wf_def by blast

lemma set_dictAddRaw:
  assumes wf: "sds_dict_wf seed d" and sz: "dictSize d < 2 ^ 59" and len: "length key < 2 ^ 31"
  obtains (added) d' r e where "dictAddRaw (setDictType seed) cr () d key = Some (d', Some r, None)"
      "key \<notin> dkeys d" "sds_dict_wf seed d'" "dkeys d' = insert key (dkeys d)" "deref d' r = Some e" "ekey e = key"
  | (exists) d' r where "dictAddRaw (setDictType seed) cr () d key = Some (d', None, Some r)"
      "key \<in> dkeys d" "sds_dict_wf seed d'" "dkeys d' = dkeys d"
proof -
  have short: "\<forall>k \<in> dkeys d. length k < 2 ^ 31" and w: "dict_wf (setDictType seed) d"
    using wf by (simp_all add: sds_dict_wf_def)
  from w sz show ?thesis
  proof (cases rule: set_type.dictAddRaw_correct [of seed d cr "()" key])
    case (added d' r)
    have "key \<notin> dkeys d" using added(6) by auto
    moreover have k: "dkeys d' = insert key (dkeys d)"
      using arg_cong [OF added(3), of set_mset] by simp
    moreover have "sds_dict_wf seed d'" by (rule sds_dict_wfI [OF added(2) wf _ len]) (simp add: k)
    ultimately show ?thesis using added(1,4) by (intro that(1) [of d' r "\<lparr>ekey = key, evalue = ()\<rparr>"]) simp_all
  next
    case (exists d' r e)
    have "length (ekey e) < 2 ^ 31" using short exists(6) by blast
    then have "key \<in> dkeys d" using exists(6,7) len by (auto simp: set_keq)
    moreover have k: "dkeys d' = dkeys d" using arg_cong [OF exists(3), of set_mset] by simp
    moreover have "sds_dict_wf seed d'" by (rule sds_dict_wfI [OF exists(2) wf _ len]) (auto simp: k)
    ultimately show ?thesis using exists(1) by (intro that(2))
  qed
qed

lemma set_dictAdd:
  assumes "sds_dict_wf seed d" "dictSize d < 2 ^ 59" "length key < 2 ^ 31"
  shows "\<exists>d'. dictAdd (setDictType seed) cr () d key () = Some (d', key \<notin> dkeys d) \<and>
    sds_dict_wf seed d' \<and> dkeys d' = insert key (dkeys d)"
  using assms
proof (cases rule: set_dictAddRaw [where cr = cr])
  case (added d' r e)
  then show ?thesis by (simp add: dictAdd_def dictSetVal_unit)
next
  case (exists d' r)
  then show ?thesis by (auto simp: dictAdd_def)
qed

lemma set_dictFind:
  assumes wf: "sds_dict_wf seed d" and len: "length key < 2 ^ 31"
  shows "\<exists>d' r. dictFind (setDictType seed) d key = Some (d', r) \<and> (r \<noteq> None \<longleftrightarrow> key \<in> dkeys d) \<and>
    sds_dict_wf seed d' \<and> dkeys d' = dkeys d"
proof -
  have short: "\<forall>k \<in> dkeys d. length k < 2 ^ 31" and w: "dict_wf (setDictType seed) d"
    using wf by (simp_all add: sds_dict_wf_def)
  from w show ?thesis
  proof (cases rule: set_type.dictFind_correct [of seed d key])
    case (found d' r e)
    have k: "dkeys d' = dkeys d" using arg_cong [OF found(3), of set_mset] by simp
    moreover have "key \<in> dkeys d" using found(6,7) short len by (auto simp: set_keq)
    moreover have "sds_dict_wf seed d'" by (rule sds_dict_wfI [OF found(2) wf _ len]) (auto simp: k)
    ultimately show ?thesis using found(1) by blast
  next
    case (absent d')
    have k: "dkeys d' = dkeys d" using arg_cong [OF absent(3), of set_mset] by simp
    moreover have "key \<notin> dkeys d" using absent(5) by auto
    moreover have "sds_dict_wf seed d'" by (rule sds_dict_wfI [OF absent(2) wf _ len]) (auto simp: k)
    ultimately show ?thesis using absent(1) by blast
  qed
qed

lemma set_dictDelete:
  assumes wf: "sds_dict_wf seed d" and len: "length key < 2 ^ 31"
  shows "\<exists>d'. dictDelete (setDictType seed) d key = Some (d', key \<in> dkeys d) \<and>
    sds_dict_wf seed d' \<and> dkeys d' = dkeys d - {key}"
proof -
  have short: "\<forall>k \<in> dkeys d. length k < 2 ^ 31" and w: "dict_wf (setDictType seed) d"
    using wf by (simp_all add: sds_dict_wf_def)
  have dist: "distinct (map ekey (dict_entries d))"
    using w by (intro distinct_keys_distinct [of "setDictType seed"]) (simp add: dict_wf_def)
  from w show ?thesis
  proof (cases rule: set_type.dictGenericDelete_correct [of seed d key])
    case (found d' e)
    have e: "e \<in> set (dict_entries d)" "ekey e = key" using found(4,5) short len by (auto simp: set_keq)
    have "mset (map ekey (dict_entries d')) = mset (map ekey (dict_entries d)) - {#key#}"
      using found(6) e unfolding mset_map by (simp add: image_mset_Diff)
    also have "\<dots> = mset (remove1 key (map ekey (dict_entries d)))" by simp
    finally have "set (map ekey (dict_entries d')) = set (remove1 key (map ekey (dict_entries d)))"
      by (rule mset_eq_setD)
    then have k: "dkeys d' = dkeys d - {key}" using dist by (simp add: set_remove1_eq)
    moreover have "sds_dict_wf seed d'" by (rule sds_dict_wfI [OF found(2) wf _ len]) (auto simp: k)
    moreover have "key \<in> dkeys d" using e by blast
    ultimately show ?thesis using found(1) by (simp add: dictDelete_def)
  next
    case (absent d')
    have k: "dkeys d' = dkeys d" using arg_cong [OF absent(4), of set_mset] by simp
    moreover have "key \<notin> dkeys d" using absent(5) by auto
    moreover have "sds_dict_wf seed d'" by (rule sds_dict_wfI [OF absent(2) wf _ len]) (auto simp: k)
    ultimately show ?thesis using absent(1) by (simp add: dictDelete_def)
  qed
qed

subsection \<open>Conversion\<close>

lemma intset_val_word:
  assumes "intset_inv is" "v \<in> set (intset_vals is)"
  shows "sint (word_of_int v :: i64) = v"
proof -
  have "encoding is \<in> {2, 4, 8}" "fits (encoding is) v"
    using intset_inv_rep [OF assms(1)] assms(2) by (auto simp: intset_rep_def)
  then have "- (2 ^ 63) \<le> v" "v < 2 ^ 63" by (auto simp: fits_def)
  then show ?thesis by (simp add: signed_of_int signed_take_bit_int_eq_self)
qed

lemma dec_int_inj_vals: "intset_inv is \<Longrightarrow> inj_on dec_int (set (intset_vals is))"
  by (rule inj_onI) (metis dec_int_inj intset_val_word)

lemma intset_distinct: "intset_inv is \<Longrightarrow> distinct (intset_vals is)"
  by (auto simp: intset_inv_def strict_sorted_iff)

lemma length_intset_vals: "length (intset_vals is) = ilength is"
  by (simp add: intset_vals_def)

lemma set_size_intset: "intset_inv is \<Longrightarrow> ilength is = card (dec_int ` set (intset_vals is))"
  by (simp add: card_image dec_int_inj_vals distinct_card intset_distinct length_intset_vals)

lemma sdsfromlonglong_val:
  assumes "intset_inv is" "v \<in> set (intset_vals is)"
  shows "sdsfromlonglong (map (llstr_junk env) [0..<21]) (word_of_int v) = Some (dec_int v)"
    and "length (dec_int v) < 2 ^ 31"
proof -
  have v: "dec_int (sint (word_of_int v :: i64)) = dec_int v" using intset_val_word [OF assms] by simp
  have "length (map (llstr_junk env) [0..<21]) = 21" by (simp only: length_map length_upt)
  from sdsfromlonglong_dec [OF this, of "word_of_int v"] v
  show "sdsfromlonglong (map (llstr_junk env) [0..<21]) (word_of_int v) = Some (dec_int v)" by simp
  show "length (dec_int v) < 2 ^ 31" using length_dec_int_le [of "word_of_int v"] v by simp
qed

lemma setTypeNext_intset:
  assumes "intset_inv is"
  shows "setTypeNext env (INTSET is) si = Some (INTSET is, si\<lparr>si_ii := si_ii si + 1\<rparr>,
    if si_ii si < ilength is then Some (LLEle (intset_vals is ! si_ii si)) else None)"
  using intset_rep_get [OF intset_inv_rep [OF assms], of "si_ii si"]
  by (simp add: setTypeNext_def intsetGet_def length_intset_vals)

lemma convert_loop_correct:
  assumes inv: "intset_inv is" and len: "ilength is < 2 ^ 59"
    and "sds_dict_wf (hash_seed env) d" "dkeys d = dec_int ` set (take (si_ii si) (intset_vals is))"
  shows "\<exists>si' d'. convert_loop env (INTSET is) si d = Some (INTSET is, si', d') \<and>
    sds_dict_wf (hash_seed env) d' \<and> dkeys d' = dec_int ` set (intset_vals is)"
  using assms(3,4)
proof (induction "ilength is - si_ii si" arbitrary: si d)
  case 0
  then show ?case
    by (subst convert_loop.simps) (simp add: setTypeNext_intset [OF inv] length_intset_vals)
next
  case (Suc n)
  let ?vs = "intset_vals is" and ?i = "si_ii si"
  have i: "?i < length ?vs" using Suc.hyps(2) by (simp add: length_intset_vals)
  then have v: "?vs ! ?i \<in> set ?vs" by simp
  have fresh: "?vs ! ?i \<notin> set (take ?i ?vs)"
    using intset_distinct [OF inv] i by (auto simp: in_set_conv_nth nth_eq_iff_index_eq)
  have new: "dec_int (?vs ! ?i) \<notin> dkeys d"
    using fresh v dec_int_inj_vals [OF inv] set_take_subset [of ?i ?vs]
    unfolding Suc.prems(2) inj_on_image_mem_iff [OF dec_int_inj_vals [OF inv] v set_take_subset] by simp
  have "card (dkeys d) \<le> length (take ?i ?vs)"
    unfolding Suc.prems(2) by (rule order_trans [OF card_image_le card_length]) simp
  then have sz: "dictSize d < 2 ^ 59"
    using len dictSize_keys [OF Suc.prems(1)] by (simp add: length_intset_vals)
  obtain d' where d': "dictAdd (set_ty env) (can_resize env) () d (dec_int (?vs ! ?i)) () = Some (d', True)"
      "sds_dict_wf (hash_seed env) d'" "dkeys d' = insert (dec_int (?vs ! ?i)) (dkeys d)"
    using set_dictAdd [OF Suc.prems(1) sz sdsfromlonglong_val(2) [OF inv v], of "can_resize env"] new by auto
  have "dkeys d' = dec_int ` set (take (si_ii (si\<lparr>si_ii := ?i + 1\<rparr>)) ?vs)"
    using d'(3) Suc.prems(2) i by (simp add: take_Suc_conv_app_nth)
  from Suc.hyps(1) [OF _ d'(2) this] Suc.hyps(2) show ?case
    using i d'(1) sdsfromlonglong_val(1) [OF inv v, of env]
    by (subst convert_loop.simps) (simp add: setTypeNext_intset [OF inv] length_intset_vals del: upt_rec_numeral)
qed

lemma setTypeConvert_correct:
  assumes inv: "intset_inv is" and len: "ilength is < 2 ^ 59"
  shows "\<exists>d. setTypeConvert env (INTSET is) = Some (HT d) \<and> sds_dict_wf (hash_seed env) d \<and>
    dkeys d = set_elems (INTSET is)"
proof -
  obtain d ok where d: "dictExpand dictCreate (intsetLen is) = (d, ok)" "dict_wf (set_ty env) d"
      "dict_entries d = dict_entries (dictCreate :: (bytes, unit) dict)"
    using dictExpand_keeps [OF dict_wf_create(1) [of "set_ty env"], of "intsetLen is"] len
    by (auto simp: intsetLen_def)
  then have "sds_dict_wf (hash_seed env) d" "dkeys d = {}"
    by (simp_all add: sds_dict_wf_def dict_wf_create(2))
  then show ?thesis
    using convert_loop_correct [OF inv len, of env d "setTypeInitIterator env (INTSET is)"] d(1)
    by (auto simp: setTypeConvert_def setTypeInitIterator_def setTypeReleaseIterator_def)
qed

subsection \<open>The operations\<close>

lemma string2ll_elem:
  assumes "intset_inv is"
  shows "string2ll v = None \<Longrightarrow> v \<notin> set_elems (INTSET is)"
    and "string2ll v = Some n \<Longrightarrow> v \<in> set_elems (INTSET is) \<longleftrightarrow> sint n \<in> set (intset_vals is)"
proof -
  show "v \<notin> set_elems (INTSET is)" if "string2ll v = None"
  proof
    assume "v \<in> set_elems (INTSET is)"
    then obtain x where "x \<in> set (intset_vals is)" "v = dec_int x" by auto
    with that string2ll_dec_int [of "word_of_int x"] intset_val_word [OF assms, of x] show False by simp
  qed
  show "v \<in> set_elems (INTSET is) \<longleftrightarrow> sint n \<in> set (intset_vals is)" if "string2ll v = Some n"
  proof -
    have "dec_int (sint n) = dec_int x \<longleftrightarrow> sint n = x" if "x \<in> set (intset_vals is)" for x
      using dec_int_inj [of n "word_of_int x"] intset_val_word [OF assms that] by auto
    then show ?thesis using dec_int_string2ll [OF that] by auto
  qed
qed

lemma setTypeSize_card: "set_wf env s \<Longrightarrow> setTypeSize s = card (set_elems s)"
  by (cases s) (simp_all add: setTypeSize_def intsetLen_def set_size_intset dictSize_keys)

lemma dictResize_keeps:
  assumes "sds_dict_wf seed d"
  shows "sds_dict_wf seed (fst (dictResize cr d)) \<and> dkeys (fst (dictResize cr d)) = dkeys d"
proof -
  have b: "sint (of_nat n :: 32 word) \<le> 2 ^ 60" for n using sint_less [of "of_nat n :: 32 word"] by simp
  have "\<exists>d' ok. dictExpand d (nat m) = (d', ok) \<and> sds_dict_wf seed d' \<and> dkeys d' = dkeys d" if "m \<le> 2 ^ 60" for m
  proof -
    have "nat m \<le> 2 ^ 60" using that by simp
    with assms dictExpand_keeps [of "setDictType seed" d "nat m"] show ?thesis by (fastforce simp: sds_dict_wf_def)
  qed
  from this [of "sint (of_nat (ht_used (ht0 d)) :: 32 word)"] this [of "int DICT_HT_INITIAL_SIZE"] b
  show ?thesis using assms by (auto simp: dictResize_def Let_def)
qed

lemma setTypeAdd_ht:
  assumes "sds_dict_wf (hash_seed env) d" "dictSize d < 2 ^ 59" "length v < 2 ^ 31"
  shows "\<exists>d'. setTypeAdd env (HT d) v = Some (HT d', v \<notin> dkeys d) \<and> sds_dict_wf (hash_seed env) d' \<and>
    dkeys d' = insert v (dkeys d)"
  using assms
proof (cases rule: set_dictAddRaw [where cr = "can_resize env"])
  case (added d' r e)
  then have "e\<lparr>ekey := v\<rparr> = e" by (cases e) simp
  with added show ?thesis by (simp add: setTypeAdd_def dictSetVal_unit write_entry_same)
next
  case (exists d' r)
  then show ?thesis by (auto simp: setTypeAdd_def)
qed

lemma setTypeAdd_string:
  assumes inv: "intset_inv is" and sz: "ilength is < 2 ^ 28" and len: "length v < 2 ^ 31" and v: "string2ll v = None"
  shows "\<exists>d'. setTypeAdd env (INTSET is) v = Some (HT d', True) \<and> sds_dict_wf (hash_seed env) d' \<and>
    dkeys d' = insert v (set_elems (INTSET is))"
proof -
  have "ilength is < 2 ^ 59" using sz by simp
  from setTypeConvert_correct [OF inv this, of env] obtain d where d: "setTypeConvert env (INTSET is) = Some (HT d)"
      "sds_dict_wf (hash_seed env) d" "dkeys d = set_elems (INTSET is)" by blast
  have "dictSize d < 2 ^ 59" using dictSize_keys [OF d(2)] set_size_intset [OF inv] d(3) sz by simp
  from set_dictAdd [OF d(2) this len, of "can_resize env"] string2ll_elem(1) [OF inv v] d v
  show ?thesis by (auto simp: setTypeAdd_def isSdsRepresentableAsLongLong_def simp del: set_elems.simps)
qed

lemma setTypeAdd_integer:
  assumes inv: "intset_inv is" and sz: "ilength is < 2 ^ 28" and v: "string2ll v = Some n"
  shows "\<exists>s'. setTypeAdd env (INTSET is) v = Some (s', v \<notin> set_elems (INTSET is)) \<and> set_wf env s' \<and>
    set_elems s' = insert v (set_elems (INTSET is))"
proof -
  have "(ilength is + 1) * 8 < 2 ^ 32" using sz by simp
  from intset_add [OF inv this, of "realloc_junk env" n]
  obtain is' where is': "intsetAdd (realloc_junk env) is n = Some (is', sint n \<notin> set (intset_vals is))"
      "intset_inv is'" "set (intset_vals is') = insert (sint n) (set (intset_vals is))" by blast
  have el: "set_elems (INTSET is') = insert v (set_elems (INTSET is))"
    using is'(3) dec_int_string2ll [OF v] by simp
  have "card (set_elems (INTSET is')) \<le> Suc (card (set_elems (INTSET is)))"
    unfolding el by (rule card_insert_le_m1) simp_all
  then have "ilength is' < 2 ^ 59"
    using set_size_intset [OF inv] set_size_intset [OF is'(2)] sz by simp
  from setTypeConvert_correct [OF is'(2) this, of env]
  obtain d where d: "setTypeConvert env (INTSET is') = Some (HT d)" "sds_dict_wf (hash_seed env) d"
      "dkeys d = insert v (set_elems (INTSET is))" unfolding el by blast
  show ?thesis
    using is'(1,2) el d string2ll_elem(2) [OF inv v] v
    by (auto simp: setTypeAdd_def isSdsRepresentableAsLongLong_def simp del: set_elems.simps(1))
qed

lemma setTypeAdd_set:
  assumes "set_wf env s" "card (set_elems s) < 2 ^ 28" "length v < 2 ^ 31"
  shows "\<exists>s'. setTypeAdd env s v = Some (s', v \<notin> set_elems s) \<and> set_wf env s' \<and>
    set_elems s' = insert v (set_elems s)"
proof (cases s)
  case (HT d)
  then show ?thesis using setTypeAdd_ht [of env d v] assms dictSize_keys [of "hash_seed env" d] by fastforce
next
  case (INTSET "is")
  with assms have i: "intset_inv is" "ilength is < 2 ^ 28" using set_size_intset [of "is"] by simp_all
  show ?thesis
  proof (cases "string2ll v")
    case None
    then show ?thesis
      using setTypeAdd_string [OF i assms(3) None, of env] string2ll_elem(1) [OF i(1) None] INTSET
      by (metis set_elems.simps(2) set_wf.simps(2))
  qed (use setTypeAdd_integer [OF i] INTSET in blast)
qed

lemma setTypeRemove_set:
  assumes "set_wf env s" "card (set_elems s) \<le> 2 ^ 28" "length v < 2 ^ 31"
  shows "\<exists>s'. setTypeRemove env s v = Some (s', v \<in> set_elems s) \<and> set_wf env s' \<and>
    set_elems s' = set_elems s - {v}"
proof (cases s)
  case (HT d)
  with assms obtain d' where d': "dictDelete (set_ty env) d v = Some (d', v \<in> dkeys d)"
      "sds_dict_wf (hash_seed env) d'" "dkeys d' = dkeys d - {v}"
    using set_dictDelete [of "hash_seed env" d v] by auto
  with dictResize_keeps [OF d'(2), of "can_resize env"] HT show ?thesis
    by (simp add: setTypeRemove_def)
next
  case (INTSET "is")
  with assms have i: "intset_inv is" "ilength is * 8 < 2 ^ 32" using set_size_intset [of "is"] by simp_all
  show ?thesis
  proof (cases "string2ll v")
    case None
    then show ?thesis using string2ll_elem(1) [OF i(1) None] INTSET i(1)
      by (simp add: setTypeRemove_def isSdsRepresentableAsLongLong_def)
  next
    case (Some n)
    from intset_remove [OF i, of "realloc_junk env" n] obtain is' where is':
        "intsetRemove (realloc_junk env) is n = Some (is', sint n \<in> set (intset_vals is))"
        "intset_inv is'" "set (intset_vals is') = set (intset_vals is) - {sint n}" by blast
    have "v = dec_int (sint n)" using Some by (rule dec_int_string2ll)
    moreover have "dec_int x \<noteq> dec_int (sint n)" if "x \<in> set (intset_vals is)" "x \<noteq> sint n" for x
      using dec_int_inj [of "word_of_int x" n] intset_val_word [OF i(1) that(1)] that(2) by auto
    ultimately have "set_elems (INTSET is') = set_elems (INTSET is) - {v}" using is'(3) by auto
    then show ?thesis using is'(1,2) string2ll_elem(2) [OF i(1) Some] Some INTSET
      by (simp add: setTypeRemove_def isSdsRepresentableAsLongLong_def del: set_elems.simps)
  qed
qed

lemma setTypeIsMember_set:
  assumes "set_wf env s" "length v < 2 ^ 31"
  shows "\<exists>s'. setTypeIsMember env s v = Some (s', v \<in> set_elems s) \<and> set_wf env s' \<and> set_elems s' = set_elems s"
proof (cases s)
  case (HT d)
  then show ?thesis using set_dictFind [of "hash_seed env" d v] assms by (fastforce simp: setTypeIsMember_def)
next
  case (INTSET "is")
  with assms have i: "intset_inv is" by simp
  show ?thesis
  proof (cases "string2ll v")
    case None
    then show ?thesis using string2ll_elem(1) [OF i None] INTSET i
      by (simp add: setTypeIsMember_def isSdsRepresentableAsLongLong_def)
  next
    case (Some n)
    then show ?thesis using string2ll_elem(2) [OF i Some] INTSET i intset_find [OF i, of n]
      by (simp add: setTypeIsMember_def isSdsRepresentableAsLongLong_def del: set_elems.simps)
  qed
qed

lemma setTypeCreate_set: "set_wf env (setTypeCreate v) \<and> set_elems (setTypeCreate v) = {}"
  by (simp add: setTypeCreate_def createIntsetObject_def createSetObject_def intsetNew_inv sds_dict_wf_def
      dict_wf_create)

lemma finite_set_elems [simp]: "finite (set_elems s)"
  by (cases s) simp_all

subsection \<open>The commands\<close>

text \<open>What the loops of the commands rely on; \<open>cap\<close> bounds the number of elements.\<close>

locale string_set =
  fixes add :: "'s \<Rightarrow> bytes \<Rightarrow> ('s \<times> bool) option" and remove :: "'s \<Rightarrow> bytes \<Rightarrow> ('s \<times> bool) option"
    and sz :: "'s \<Rightarrow> nat" and inv :: "'s \<Rightarrow> bool" and elems :: "'s \<Rightarrow> bytes set"
    and short :: "bytes \<Rightarrow> bool" and cap :: nat
  assumes add_law: "inv s \<Longrightarrow> card (elems s) < cap \<Longrightarrow> short v \<Longrightarrow>
      \<exists>s'. add s v = Some (s', v \<notin> elems s) \<and> inv s' \<and> elems s' = insert v (elems s)"
    and remove_law: "inv s \<Longrightarrow> card (elems s) \<le> cap \<Longrightarrow> short v \<Longrightarrow>
      \<exists>s'. remove s v = Some (s', v \<in> elems s) \<and> inv s' \<and> elems s' = elems s - {v}"
    and size_law: "inv s \<Longrightarrow> sz s = card (elems s)"
    and finite_law: "finite (elems s)"
begin

lemma sadd_loop_correct:
  assumes "inv s" "card (elems s) + length vs \<le> cap" "\<forall>v \<in> set vs. short v"
  shows "\<exists>s'. sadd_loop add vs s n = Some (s', n + card (set vs - elems s)) \<and> inv s' \<and>
    elems s' = elems s \<union> set vs"
  using assms
proof (induction vs arbitrary: s n)
  case (Cons v vs)
  obtain s' where s': "add s v = Some (s', v \<notin> elems s)" "inv s'" "elems s' = insert v (elems s)"
    using add_law [of s v] Cons.prems by auto
  have "card (elems s') + length vs \<le> cap"
    using Cons.prems(2) s'(3) card_insert_le_m1 [of "card (elems s) + 1" "elems s" v] by simp
  from Cons.IH [OF s'(2) this, of "if v \<notin> elems s then n + 1 else n"] Cons.prems(3)
  obtain t where t: "sadd_loop add vs s' (if v \<notin> elems s then n + 1 else n) =
      Some (t, (if v \<notin> elems s then n + 1 else n) + card (set vs - elems s'))"
      "inv t" "elems t = elems s' \<union> set vs" by auto
  have "card (set (v # vs) - elems s) = (if v \<notin> elems s then 1 else 0) + card (set vs - elems s')"
  proof (cases "v \<in> elems s")
    case False
    then have "set (v # vs) - elems s = insert v (set vs - elems s')" using s'(3) by auto
    then show ?thesis using False s'(3) by simp
  qed (use s'(3) in \<open>simp add: insert_absorb\<close>)
  then show ?case using s' t by (auto split: if_splits)
qed simp

lemma srem_loop_correct:
  assumes "inv s" "card (elems s) \<le> cap" "\<forall>v \<in> set vs. short v"
  shows "\<exists>s' gone. srem_loop remove sz vs s n = Some (s', n + card (set vs \<inter> elems s), gone) \<and> inv s' \<and>
    elems s' = elems s - set vs \<and> (gone \<longleftrightarrow> elems s \<noteq> {} \<and> elems s - set vs = {})"
  using assms
proof (induction vs arbitrary: s n)
  case (Cons v vs)
  obtain s' where s': "remove s v = Some (s', v \<in> elems s)" "inv s'" "elems s' = elems s - {v}"
    using remove_law [of s v] Cons.prems by auto
  have e: "set (v # vs) \<inter> elems s = (if v \<in> elems s then insert v (set vs \<inter> elems s') else set vs \<inter> elems s')"
    using s'(3) by auto
  have c: "card (set (v # vs) \<inter> elems s) = (if v \<in> elems s then 1 else 0) + card (set vs \<inter> elems s')"
    unfolding e using s'(3) by simp
  show ?case
  proof (cases "v \<in> elems s \<and> elems s' = {}")
    case True
    then have v: "elems s = {v}" "elems s' = {}" using s'(3) by auto
    then have "sz s' = 0" using size_law [OF s'(2)] by simp
    then have "srem_loop remove sz (v # vs) s n = Some (s', n + card (set (v # vs) \<inter> elems s), True)"
      using s'(1) c v by simp
    then show ?thesis using s'(2) v by (intro exI [of _ s'] exI [of _ True]) simp
  next
    case False
    have "card (elems s') \<le> cap"
      using Cons.prems(2) s'(3) card_mono [OF finite_law, of "elems s'" s] by auto
    from Cons.IH [OF s'(2) this, of "if v \<in> elems s then n + 1 else n"] Cons.prems(3)
    obtain t gone where t: "srem_loop remove sz vs s' (if v \<in> elems s then n + 1 else n) =
        Some (t, (if v \<in> elems s then n + 1 else n) + card (set vs \<inter> elems s'), gone)"
        "inv t" "elems t = elems s' - set vs" "gone \<longleftrightarrow> elems s' \<noteq> {} \<and> elems s' - set vs = {}" by auto
    have "\<not> (v \<in> elems s \<and> sz s' = 0)" using False size_law [OF s'(2)] finite_law by simp
    moreover have "gone \<longleftrightarrow> elems s \<noteq> {} \<and> elems s - set (v # vs) = {}" using t(4) s'(3) False by auto
    moreover have "elems t = elems s - set (v # vs)" using t(3) s'(3) by auto
    moreover have "srem_loop remove sz (v # vs) s n = Some (t, n + card (set (v # vs) \<inter> elems s), gone)"
      unfolding c using calculation(1) s'(1) t(1) by (cases "v \<in> elems s") simp_all
    ultimately show ?thesis using t(2) by blast
  qed
qed auto

end

interpretation string_sets: string_set "setTypeAdd env" "setTypeRemove env" setTypeSize "set_wf env" set_elems
  "\<lambda>v. length v < 2 ^ 31" "2 ^ 28"
  by unfold_locales (fact setTypeAdd_set setTypeRemove_set setTypeSize_card finite_set_elems)+

text \<open>An environment with the default of \<open>set-max-intset-entries\<close>.\<close>

definition zero_env :: set_env where
  "zero_env = \<lparr>hash_seed = replicate 16 0, can_resize = True, set_max_intset_entries = 512,
     realloc_junk = \<lambda>_. 0, llstr_junk = \<lambda>_. 0, table_addr = (0, 0), iter_junk = 0\<rparr>"

text \<open>
  C34: an object of type set behaves as a finite set of strings, in both encodings and through the conversion
  between them: adding, removing, looking up and counting are the operations on the represented set, they
  report whether it changed, and they never fail an assertion or leave the invariant. Bounds: elements below
  2 GB and fewer than \<open>2 ^ 28\<close> of them, where the byte size of an integer set fits in 32 bits.
\<close>

theorem setType_refines:
  assumes "set_wf env s" "setTypeSize s < 2 ^ 28" "length v < 2 ^ 31"
  shows "(\<exists>s'. setTypeAdd env s v = Some (s', v \<notin> set_elems s) \<and> set_wf env s' \<and>
      set_elems s' = insert v (set_elems s)) \<and>
    (\<exists>s'. setTypeRemove env s v = Some (s', v \<in> set_elems s) \<and> set_wf env s' \<and>
      set_elems s' = set_elems s - {v}) \<and>
    (\<exists>s'. setTypeIsMember env s v = Some (s', v \<in> set_elems s) \<and> set_wf env s' \<and>
      set_elems s' = set_elems s) \<and>
    setTypeSize s = card (set_elems s)"
  using assms setTypeSize_card [OF assms(1)] setTypeAdd_set [of env s v] setTypeRemove_set [of env s v]
    setTypeIsMember_set [of env s v] by simp

theorem setType_refines_witness:
  "\<exists>s'. setTypeAdd zero_env (setTypeCreate [49, 50]) [97] = Some (s', True) \<and> set_elems s' = {[97]}"
proof -
  let ?s = "setTypeCreate [49, 50]"
  have s: "set_wf zero_env ?s" "set_elems ?s = {}" using setTypeCreate_set by blast+
  have "setTypeSize ?s < 2 ^ 28" "length [97 :: u8] < 2 ^ 31" using setTypeSize_card [OF s(1)] s(2) by simp_all
  from setType_refines [OF s(1) this] show ?thesis unfolding s(2) by simp blast
qed

text \<open>
  C35: the loops of \<open>SADD\<close> and \<open>SREM\<close> on any set, the existing one of the key or the empty one that is created for a new key. Adding the
  arguments yields the union, and the reply counts the distinct arguments that were not yet members; removing the arguments
  counts those that were members and says that the key is removed exactly when the set became empty. Bounds: arguments below
  2 GB, and at most \<open>2 ^ 28\<close> elements and arguments together.
\<close>

theorem set_commands_correct:
  assumes "\<forall>v \<in> set vs. length v < 2 ^ 31" "set_wf env s" "setTypeSize s + length vs \<le> 2 ^ 28"
  shows "(\<exists>s'. sadd_values env vs s = Some (s', card (set vs - set_elems s)) \<and> set_wf env s' \<and>
      set_elems s' = set_elems s \<union> set vs) \<and>
    (\<exists>s' gone. srem_values env vs s = Some (s', card (set vs \<inter> set_elems s), gone) \<and> set_wf env s' \<and>
      set_elems s' = set_elems s - set vs \<and> (gone \<longleftrightarrow> set_elems s \<noteq> {} \<and> set_elems s - set vs = {})) \<and>
    set_wf env (setTypeCreate v) \<and> set_elems (setTypeCreate v) = {}"
  using string_sets.sadd_loop_correct [of env s vs 0] string_sets.srem_loop_correct [of env s vs 0] assms
    setTypeSize_card [OF assms(2)] setTypeCreate_set [of env v]
  by (simp add: sadd_values_def srem_values_def)

theorem set_commands_correct_witness:
  "\<exists>s1 s2. sadd_values zero_env [[49], [97], [49]] (setTypeCreate [49]) = Some (s1, 2) \<and>
    sadd_values zero_env [[97], [98]] s1 = Some (s2, 1) \<and> set_elems s2 = {[49], [97], [98]}"
proof -
  let ?s = "setTypeCreate [49]" and ?vs = "[[49], [97], [49]] :: bytes list" and ?ws = "[[97], [98]] :: bytes list"
  have s: "set_wf zero_env ?s" "set_elems ?s = {}" using setTypeCreate_set by blast+
  have "\<forall>v \<in> set ?vs. length v < 2 ^ 31" "setTypeSize ?s + length ?vs \<le> 2 ^ 28"
    using setTypeSize_card [OF s(1)] s(2) by simp_all
  from set_commands_correct [OF this(1) s(1) this(2), where v = "[]"] s(2)
  obtain s1 where s1: "sadd_values zero_env ?vs ?s = Some (s1, card (set ?vs))" "set_wf zero_env s1" "set_elems s1 = set ?vs"
    by auto
  have "set ?vs = {[49], [97]}" by auto
  then have c: "card (set ?vs) = 2" "set ?ws - set ?vs = {[98]}" by (simp, auto)
  have "\<forall>v \<in> set ?ws. length v < 2 ^ 31" "setTypeSize s1 + length ?ws \<le> 2 ^ 28"
    using setTypeSize_card [OF s1(2)] s1(3) c(1) by simp_all
  from set_commands_correct [OF this(1) s1(2) this(2), where v = "[]"] s1(3) c(2)
  obtain s2 where "sadd_values zero_env ?ws s1 = Some (s2, 1)" "set_elems s2 = set ?vs \<union> set ?ws" by auto
  moreover have "set ?vs \<union> set ?ws = {[49], [97], [98]}" by auto
  ultimately show ?thesis using s1(1) c(1) by auto
qed

end
