(* ===== verification/Crc.thy ===== *)
theory Crc
  imports Redis_Prelude
begin

text \<open>
  The checksums: \<open>crc16.c\<close>, which places keys in the slots of a cluster (\<open>keyHashSlot\<close> of \<open>cluster.c\<close>), and
  \<open>crc64.c\<close>, which protects dump files. Both process a byte at a time with a table of 256 entries; the reference is
  the division by the polynomial bit by bit, most significant bit first for \<open>crc16\<close> and reflected for \<open>crc64\<close>.
\<close>

subsection \<open>Definitions\<close>

definition crc16tab :: "u16 list" where
  "crc16tab =
    [0x0000, 0x1021, 0x2042, 0x3063, 0x4084, 0x50a5, 0x60c6, 0x70e7,
     0x8108, 0x9129, 0xa14a, 0xb16b, 0xc18c, 0xd1ad, 0xe1ce, 0xf1ef,
     0x1231, 0x0210, 0x3273, 0x2252, 0x52b5, 0x4294, 0x72f7, 0x62d6,
     0x9339, 0x8318, 0xb37b, 0xa35a, 0xd3bd, 0xc39c, 0xf3ff, 0xe3de,
     0x2462, 0x3443, 0x0420, 0x1401, 0x64e6, 0x74c7, 0x44a4, 0x5485,
     0xa56a, 0xb54b, 0x8528, 0x9509, 0xe5ee, 0xf5cf, 0xc5ac, 0xd58d,
     0x3653, 0x2672, 0x1611, 0x0630, 0x76d7, 0x66f6, 0x5695, 0x46b4,
     0xb75b, 0xa77a, 0x9719, 0x8738, 0xf7df, 0xe7fe, 0xd79d, 0xc7bc,
     0x48c4, 0x58e5, 0x6886, 0x78a7, 0x0840, 0x1861, 0x2802, 0x3823,
     0xc9cc, 0xd9ed, 0xe98e, 0xf9af, 0x8948, 0x9969, 0xa90a, 0xb92b,
     0x5af5, 0x4ad4, 0x7ab7, 0x6a96, 0x1a71, 0x0a50, 0x3a33, 0x2a12,
     0xdbfd, 0xcbdc, 0xfbbf, 0xeb9e, 0x9b79, 0x8b58, 0xbb3b, 0xab1a,
     0x6ca6, 0x7c87, 0x4ce4, 0x5cc5, 0x2c22, 0x3c03, 0x0c60, 0x1c41,
     0xedae, 0xfd8f, 0xcdec, 0xddcd, 0xad2a, 0xbd0b, 0x8d68, 0x9d49,
     0x7e97, 0x6eb6, 0x5ed5, 0x4ef4, 0x3e13, 0x2e32, 0x1e51, 0x0e70,
     0xff9f, 0xefbe, 0xdfdd, 0xcffc, 0xbf1b, 0xaf3a, 0x9f59, 0x8f78,
     0x9188, 0x81a9, 0xb1ca, 0xa1eb, 0xd10c, 0xc12d, 0xf14e, 0xe16f,
     0x1080, 0x00a1, 0x30c2, 0x20e3, 0x5004, 0x4025, 0x7046, 0x6067,
     0x83b9, 0x9398, 0xa3fb, 0xb3da, 0xc33d, 0xd31c, 0xe37f, 0xf35e,
     0x02b1, 0x1290, 0x22f3, 0x32d2, 0x4235, 0x5214, 0x6277, 0x7256,
     0xb5ea, 0xa5cb, 0x95a8, 0x8589, 0xf56e, 0xe54f, 0xd52c, 0xc50d,
     0x34e2, 0x24c3, 0x14a0, 0x0481, 0x7466, 0x6447, 0x5424, 0x4405,
     0xa7db, 0xb7fa, 0x8799, 0x97b8, 0xe75f, 0xf77e, 0xc71d, 0xd73c,
     0x26d3, 0x36f2, 0x0691, 0x16b0, 0x6657, 0x7676, 0x4615, 0x5634,
     0xd94c, 0xc96d, 0xf90e, 0xe92f, 0x99c8, 0x89e9, 0xb98a, 0xa9ab,
     0x5844, 0x4865, 0x7806, 0x6827, 0x18c0, 0x08e1, 0x3882, 0x28a3,
     0xcb7d, 0xdb5c, 0xeb3f, 0xfb1e, 0x8bf9, 0x9bd8, 0xabbb, 0xbb9a,
     0x4a75, 0x5a54, 0x6a37, 0x7a16, 0x0af1, 0x1ad0, 0x2ab3, 0x3a92,
     0xfd2e, 0xed0f, 0xdd6c, 0xcd4d, 0xbdaa, 0xad8b, 0x9de8, 0x8dc9,
     0x7c26, 0x6c07, 0x5c64, 0x4c45, 0x3ca2, 0x2c83, 0x1ce0, 0x0cc1,
     0xef1f, 0xff3e, 0xcf5d, 0xdf7c, 0xaf9b, 0xbfba, 0x8fd9, 0x9ff8,
     0x6e17, 0x7e36, 0x4e55, 0x5e74, 0x2e93, 0x3eb2, 0x0ed1, 0x1ef0]"

fun crc16_loop :: "u16 \<Rightarrow> bytes \<Rightarrow> u16" where
  "crc16_loop crc [] = crc"
| "crc16_loop crc (b # buf) =
     crc16_loop (push_bit 8 crc XOR crc16tab ! unat ((drop_bit 8 crc XOR ucast b) AND 0xFF)) buf"

definition crc16 :: "bytes \<Rightarrow> u16" where
  "crc16 buf = crc16_loop 0 buf"

definition crc64_tab :: "u64 list" where
  "crc64_tab =
    [0x0000000000000000, 0x7ad870c830358979, 0xf5b0e190606b12f2, 0x8f689158505e9b8b,
     0xc038e5739841b68f, 0xbae095bba8743ff6, 0x358804e3f82aa47d, 0x4f50742bc81f2d04,
     0xab28ecb46814fe75, 0xd1f09c7c5821770c, 0x5e980d24087fec87, 0x24407dec384a65fe,
     0x6b1009c7f05548fa, 0x11c8790fc060c183, 0x9ea0e857903e5a08, 0xe478989fa00bd371,
     0x7d08ff3b88be6f81, 0x07d08ff3b88be6f8, 0x88b81eabe8d57d73, 0xf2606e63d8e0f40a,
     0xbd301a4810ffd90e, 0xc7e86a8020ca5077, 0x4880fbd87094cbfc, 0x32588b1040a14285,
     0xd620138fe0aa91f4, 0xacf86347d09f188d, 0x2390f21f80c18306, 0x594882d7b0f40a7f,
     0x1618f6fc78eb277b, 0x6cc0863448deae02, 0xe3a8176c18803589, 0x997067a428b5bcf0,
     0xfa11fe77117cdf02, 0x80c98ebf2149567b, 0x0fa11fe77117cdf0, 0x75796f2f41224489,
     0x3a291b04893d698d, 0x40f16bccb908e0f4, 0xcf99fa94e9567b7f, 0xb5418a5cd963f206,
     0x513912c379682177, 0x2be1620b495da80e, 0xa489f35319033385, 0xde51839b2936bafc,
     0x9101f7b0e12997f8, 0xebd98778d11c1e81, 0x64b116208142850a, 0x1e6966e8b1770c73,
     0x8719014c99c2b083, 0xfdc17184a9f739fa, 0x72a9e0dcf9a9a271, 0x08719014c99c2b08,
     0x4721e43f0183060c, 0x3df994f731b68f75, 0xb29105af61e814fe, 0xc849756751dd9d87,
     0x2c31edf8f1d64ef6, 0x56e99d30c1e3c78f, 0xd9810c6891bd5c04, 0xa3597ca0a188d57d,
     0xec09088b6997f879, 0x96d1784359a27100, 0x19b9e91b09fcea8b, 0x636199d339c963f2,
     0xdf7adabd7a6e2d6f, 0xa5a2aa754a5ba416, 0x2aca3b2d1a053f9d, 0x50124be52a30b6e4,
     0x1f423fcee22f9be0, 0x659a4f06d21a1299, 0xeaf2de5e82448912, 0x902aae96b271006b,
     0x74523609127ad31a, 0x0e8a46c1224f5a63, 0x81e2d7997211c1e8, 0xfb3aa75142244891,
     0xb46ad37a8a3b6595, 0xceb2a3b2ba0eecec, 0x41da32eaea507767, 0x3b024222da65fe1e,
     0xa2722586f2d042ee, 0xd8aa554ec2e5cb97, 0x57c2c41692bb501c, 0x2d1ab4dea28ed965,
     0x624ac0f56a91f461, 0x1892b03d5aa47d18, 0x97fa21650afae693, 0xed2251ad3acf6fea,
     0x095ac9329ac4bc9b, 0x7382b9faaaf135e2, 0xfcea28a2faafae69, 0x8632586aca9a2710,
     0xc9622c4102850a14, 0xb3ba5c8932b0836d, 0x3cd2cdd162ee18e6, 0x460abd1952db919f,
     0x256b24ca6b12f26d, 0x5fb354025b277b14, 0xd0dbc55a0b79e09f, 0xaa03b5923b4c69e6,
     0xe553c1b9f35344e2, 0x9f8bb171c366cd9b, 0x10e3202993385610, 0x6a3b50e1a30ddf69,
     0x8e43c87e03060c18, 0xf49bb8b633338561, 0x7bf329ee636d1eea, 0x012b592653589793,
     0x4e7b2d0d9b47ba97, 0x34a35dc5ab7233ee, 0xbbcbcc9dfb2ca865, 0xc113bc55cb19211c,
     0x5863dbf1e3ac9dec, 0x22bbab39d3991495, 0xadd33a6183c78f1e, 0xd70b4aa9b3f20667,
     0x985b3e827bed2b63, 0xe2834e4a4bd8a21a, 0x6debdf121b863991, 0x1733afda2bb3b0e8,
     0xf34b37458bb86399, 0x8993478dbb8deae0, 0x06fbd6d5ebd3716b, 0x7c23a61ddbe6f812,
     0x3373d23613f9d516, 0x49aba2fe23cc5c6f, 0xc6c333a67392c7e4, 0xbc1b436e43a74e9d,
     0x95ac9329ac4bc9b5, 0xef74e3e19c7e40cc, 0x601c72b9cc20db47, 0x1ac40271fc15523e,
     0x5594765a340a7f3a, 0x2f4c0692043ff643, 0xa02497ca54616dc8, 0xdafce7026454e4b1,
     0x3e847f9dc45f37c0, 0x445c0f55f46abeb9, 0xcb349e0da4342532, 0xb1eceec59401ac4b,
     0xfebc9aee5c1e814f, 0x8464ea266c2b0836, 0x0b0c7b7e3c7593bd, 0x71d40bb60c401ac4,
     0xe8a46c1224f5a634, 0x927c1cda14c02f4d, 0x1d148d82449eb4c6, 0x67ccfd4a74ab3dbf,
     0x289c8961bcb410bb, 0x5244f9a98c8199c2, 0xdd2c68f1dcdf0249, 0xa7f41839ecea8b30,
     0x438c80a64ce15841, 0x3954f06e7cd4d138, 0xb63c61362c8a4ab3, 0xcce411fe1cbfc3ca,
     0x83b465d5d4a0eece, 0xf96c151de49567b7, 0x76048445b4cbfc3c, 0x0cdcf48d84fe7545,
     0x6fbd6d5ebd3716b7, 0x15651d968d029fce, 0x9a0d8ccedd5c0445, 0xe0d5fc06ed698d3c,
     0xaf85882d2576a038, 0xd55df8e515432941, 0x5a3569bd451db2ca, 0x20ed197575283bb3,
     0xc49581ead523e8c2, 0xbe4df122e51661bb, 0x3125607ab548fa30, 0x4bfd10b2857d7349,
     0x04ad64994d625e4d, 0x7e7514517d57d734, 0xf11d85092d094cbf, 0x8bc5f5c11d3cc5c6,
     0x12b5926535897936, 0x686de2ad05bcf04f, 0xe70573f555e26bc4, 0x9ddd033d65d7e2bd,
     0xd28d7716adc8cfb9, 0xa85507de9dfd46c0, 0x273d9686cda3dd4b, 0x5de5e64efd965432,
     0xb99d7ed15d9d8743, 0xc3450e196da80e3a, 0x4c2d9f413df695b1, 0x36f5ef890dc31cc8,
     0x79a59ba2c5dc31cc, 0x037deb6af5e9b8b5, 0x8c157a32a5b7233e, 0xf6cd0afa9582aa47,
     0x4ad64994d625e4da, 0x300e395ce6106da3, 0xbf66a804b64ef628, 0xc5bed8cc867b7f51,
     0x8aeeace74e645255, 0xf036dc2f7e51db2c, 0x7f5e4d772e0f40a7, 0x05863dbf1e3ac9de,
     0xe1fea520be311aaf, 0x9b26d5e88e0493d6, 0x144e44b0de5a085d, 0x6e963478ee6f8124,
     0x21c640532670ac20, 0x5b1e309b16452559, 0xd476a1c3461bbed2, 0xaeaed10b762e37ab,
     0x37deb6af5e9b8b5b, 0x4d06c6676eae0222, 0xc26e573f3ef099a9, 0xb8b627f70ec510d0,
     0xf7e653dcc6da3dd4, 0x8d3e2314f6efb4ad, 0x0256b24ca6b12f26, 0x788ec2849684a65f,
     0x9cf65a1b368f752e, 0xe62e2ad306bafc57, 0x6946bb8b56e467dc, 0x139ecb4366d1eea5,
     0x5ccebf68aecec3a1, 0x2616cfa09efb4ad8, 0xa97e5ef8cea5d153, 0xd3a62e30fe90582a,
     0xb0c7b7e3c7593bd8, 0xca1fc72bf76cb2a1, 0x45775673a732292a, 0x3faf26bb9707a053,
     0x70ff52905f188d57, 0x0a2722586f2d042e, 0x854fb3003f739fa5, 0xff97c3c80f4616dc,
     0x1bef5b57af4dc5ad, 0x61372b9f9f784cd4, 0xee5fbac7cf26d75f, 0x9487ca0fff135e26,
     0xdbd7be24370c7322, 0xa10fceec0739fa5b, 0x2e675fb4576761d0, 0x54bf2f7c6752e8a9,
     0xcdcf48d84fe75459, 0xb71738107fd2dd20, 0x387fa9482f8c46ab, 0x42a7d9801fb9cfd2,
     0x0df7adabd7a6e2d6, 0x772fdd63e7936baf, 0xf8474c3bb7cdf024, 0x829f3cf387f8795d,
     0x66e7a46c27f3aa2c, 0x1c3fd4a417c62355, 0x935745fc4798b8de, 0xe98f353477ad31a7,
     0xa6df411fbfb21ca3, 0xdc0731d78f8795da, 0x536fa08fdfd90e51, 0x29b7d047efec8728]"

fun crc64 :: "u64 \<Rightarrow> bytes \<Rightarrow> u64" where
  "crc64 crc [] = crc"
| "crc64 crc (b # s) = crc64 (crc64_tab ! unat (ucast crc XOR b) XOR drop_bit 8 crc) s"

text \<open>The position of the first character \<open>c\<close> from position \<open>i\<close> on, or the length of the key.\<close>

function scan_char :: "bytes \<Rightarrow> u8 \<Rightarrow> nat \<Rightarrow> nat" where
  "scan_char key c i = (if i < length key then if key ! i = c then i else scan_char key c (i + 1) else i)"
  by pat_completeness auto
termination by (relation "measure (\<lambda>(key, c, i). length key - i)") auto

declare scan_char.simps [simp del]

text \<open>The braces are the characters 123 and 125.\<close>

definition keyHashSlot :: "bytes \<Rightarrow> nat" where
  "keyHashSlot key =
     (let s = scan_char key 123 0 in
      if s = length key then unat (crc16 key AND 0x3FFF)
      else
        let e = scan_char key 125 (s + 1) in
        if e = length key \<or> e = s + 1 then unat (crc16 key AND 0x3FFF)
        else unat (crc16 (take (e - s - 1) (drop (s + 1) key)) AND 0x3FFF))"

subsection \<open>Division by the polynomial\<close>

definition crc16_step :: "u16 \<Rightarrow> u16" where
  "crc16_step c = push_bit 1 c XOR (if bit c 15 then 0x1021 else 0)"

definition crc16_ref :: "bytes \<Rightarrow> u16" where
  "crc16_ref = foldl (\<lambda>c b. (crc16_step ^^ 8) (c XOR push_bit 8 (ucast b))) 0"

definition crc64_step :: "u64 \<Rightarrow> u64" where
  "crc64_step c = drop_bit 1 c XOR (if bit c 0 then 0x95ac9329ac4bc9b5 else 0)"

definition crc64_ref :: "u64 \<Rightarrow> bytes \<Rightarrow> u64" where
  "crc64_ref = foldl (\<lambda>c b. (crc64_step ^^ 8) (c XOR ucast b))"

subsection \<open>The tables\<close>

text \<open>The table of a linear function doubles with each bit of the index.\<close>

fun xor_table :: "('a::len word) list \<Rightarrow> 'a word list" where
  "xor_table [] = [0]"
| "xor_table (b # bs) = (let t = xor_table bs in t @ map (\<lambda>x. x XOR b) t)"

lemma of_nat_set_bit: "i < 2 ^ n \<Longrightarrow> (of_nat (2 ^ n + i) :: 'a::len word) = of_nat i XOR of_nat (2 ^ n)"
proof -
  assume "i < 2 ^ n"
  then have "take_bit n i = i" by (simp add: take_bit_nat_eq_self)
  then have "\<not> bit i n" by (metis bit_take_bit_iff less_irrefl)
  then have "2 ^ n AND i = 0" by (intro bit_eqI) (auto simp: bit_and_iff bit_exp_iff)
  then have "2 ^ n + i = i XOR 2 ^ n" by (metis disjunctive_add_eq_xor xor.commute)
  then show ?thesis by (metis of_nat_xor_eq)
qed

lemma linear_table:
  fixes g :: "'a::len word \<Rightarrow> 'a word"
  assumes "\<And>a b. g (a XOR b) = g a XOR g b"
  shows "map (\<lambda>i. g (of_nat i)) [0..<2 ^ n] = xor_table (map (\<lambda>k. g (of_nat (2 ^ k))) (rev [0..<n]))"
proof (induction n)
  case 0
  have "g 0 = 0" using assms [of 0 0] by simp
  then show ?case by simp
next
  case (Suc n)
  have "[0..<2 ^ Suc n] = [0..<2 ^ n] @ map (\<lambda>i. 2 ^ n + i) [0..<2 ^ n]"
  proof -
    have "[0..<2 ^ n + 2 ^ n] = [0..<2 ^ n] @ [2 ^ n..<2 ^ n + 2 ^ n]" by (rule upt_add_eq_append) simp
    moreover have "map (\<lambda>i. 2 ^ n + i) [0..<2 ^ n] = [2 ^ n..<2 ^ n + 2 ^ n]" using map_add_upt [of "2 ^ n" "2 ^ n"] by (simp only: add.commute)
    ultimately show ?thesis by (simp only: power_Suc mult_2)
  qed
  moreover have "map (\<lambda>i. g (of_nat (2 ^ n + i))) [0..<2 ^ n] = map (\<lambda>i. g (of_nat i) XOR g (of_nat (2 ^ n))) [0..<2 ^ n]"
    by (rule map_cong) (simp_all only: atLeastLessThan_iff set_upt of_nat_set_bit assms)
  ultimately show ?case by (simp add: Suc [symmetric] Let_def comp_def del: of_nat_add of_nat_power)
qed

lemma funpow_8: "(f ^^ 8) x = f (f (f (f (f (f (f (f x)))))))"
  by (simp add: eval_nat_numeral)

lemma crc16_step_xor: "crc16_step (a XOR b) = crc16_step a XOR crc16_step b"
  by (simp add: crc16_step_def push_bit_xor bit_xor_iff xor.assoc xor.left_commute)

lemma crc64_step_xor: "crc64_step (a XOR b) = crc64_step a XOR crc64_step b"
  by (simp add: crc64_step_def drop_bit_xor bit_xor_iff xor.assoc xor.left_commute)

lemma crc64_step_values:
  "crc64_step 128 = 64"
  "crc64_step 64 = 32"
  "crc64_step 32 = 16"
  "crc64_step 16 = 8"
  "crc64_step 8 = 4"
  "crc64_step 4 = 2"
  "crc64_step 2 = 1"
  "crc64_step 1 = 0x95ac9329ac4bc9b5"
  "crc64_step 0x95ac9329ac4bc9b5 = 0xdf7adabd7a6e2d6f"
  "crc64_step 0xdf7adabd7a6e2d6f = 0xfa11fe77117cdf02"
  "crc64_step 0xfa11fe77117cdf02 = 0x7d08ff3b88be6f81"
  "crc64_step 0x7d08ff3b88be6f81 = 0xab28ecb46814fe75"
  "crc64_step 0xab28ecb46814fe75 = 0xc038e5739841b68f"
  "crc64_step 0xc038e5739841b68f = 0xf5b0e190606b12f2"
  "crc64_step 0xf5b0e190606b12f2 = 0x7ad870c830358979"
  by (simp_all add: crc64_step_def)

lemma crc16_step_values:
  "crc16_step 256 = 512"
  "crc16_step 512 = 0x400"
  "crc16_step 0x400 = 0x800"
  "crc16_step 0x800 = 0x1000"
  "crc16_step 0x1000 = 0x2000"
  "crc16_step 0x2000 = 0x4000"
  "crc16_step 0x4000 = 0x8000"
  "crc16_step 0x8000 = 0x1021"
  "crc16_step 0x1021 = 0x2042"
  "crc16_step 0x2042 = 0x4084"
  "crc16_step 0x4084 = 0x8108"
  "crc16_step 0x8108 = 0x1231"
  "crc16_step 0x1231 = 0x2462"
  "crc16_step 0x2462 = 0x48c4"
  "crc16_step 0x48c4 = 0x9188"
  by (simp_all add: crc16_step_def)

lemma crc64_table: "crc64_tab = map (\<lambda>i. (crc64_step ^^ 8) (of_nat i)) [0..<256]"
proof -
  have "map (\<lambda>k. (crc64_step ^^ 8) (of_nat (2 ^ k))) (rev [0..<8]) =
    [0x95ac9329ac4bc9b5, 0xdf7adabd7a6e2d6f, 0xfa11fe77117cdf02, 0x7d08ff3b88be6f81, 0xab28ecb46814fe75, 0xc038e5739841b68f, 0xf5b0e190606b12f2, 0x7ad870c830358979]"
    by (simp add: funpow_8 crc64_step_values upt_rec)
  moreover have "map (\<lambda>i. (crc64_step ^^ 8) (of_nat i)) [0..<2 ^ 8] = xor_table (map (\<lambda>k. (crc64_step ^^ 8) (of_nat (2 ^ k))) (rev [0..<8]))"
    by (rule linear_table) (simp add: funpow_8 crc64_step_xor)
  moreover have "crc64_tab = xor_table [0x95ac9329ac4bc9b5, 0xdf7adabd7a6e2d6f, 0xfa11fe77117cdf02, 0x7d08ff3b88be6f81, 0xab28ecb46814fe75, 0xc038e5739841b68f, 0xf5b0e190606b12f2, 0x7ad870c830358979]"
    by (simp add: crc64_tab_def Let_def)
  ultimately show ?thesis by simp
qed

lemma crc16_table: "crc16tab = map (\<lambda>i. (crc16_step ^^ 8) (push_bit 8 (of_nat i))) [0..<256]"
proof -
  let ?g = "\<lambda>x. (crc16_step ^^ 8) (push_bit 8 x)"
  have "map (\<lambda>k. ?g (of_nat (2 ^ k))) (rev [0..<8]) =
    [0x9188, 0x48c4, 0x2462, 0x1231, 0x8108, 0x4084, 0x2042, 0x1021]"
    by (simp add: funpow_8 crc16_step_values upt_rec)
  moreover have "map (\<lambda>i. ?g (of_nat i)) [0..<2 ^ 8] = xor_table (map (\<lambda>k. ?g (of_nat (2 ^ k))) (rev [0..<8]))"
    by (rule linear_table) (simp add: funpow_8 crc16_step_xor push_bit_xor)
  moreover have "crc16tab = xor_table [0x9188, 0x48c4, 0x2462, 0x1231, 0x8108, 0x4084, 0x2042, 0x1021]"
    by (simp add: crc16tab_def Let_def)
  ultimately show ?thesis by simp
qed

lemma nth_crc16tab: "n < 256 \<Longrightarrow> crc16tab ! n = (crc16_step ^^ 8) (push_bit 8 (of_nat n))"
  unfolding crc16_table by (subst nth_map) (simp_all del: upt_rec_numeral)

lemma nth_crc64_tab: "n < 256 \<Longrightarrow> crc64_tab ! n = (crc64_step ^^ 8) (of_nat n)"
  unfolding crc64_table by (subst nth_map) (simp_all del: upt_rec_numeral)

subsection \<open>A byte at a time\<close>

lemma crc64_step_shift:
  assumes "\<forall>i < 8. \<not> bit x i"
  shows "(crc64_step ^^ 8) x = drop_bit 8 x"
proof -
  have "(crc64_step ^^ n) x = drop_bit n x" if "n \<le> 8" for n
    using that assms by (induction n) (simp_all add: crc64_step_def bit_drop_bit_eq)
  then show ?thesis by blast
qed

lemma crc16_step_shift:
  assumes "\<forall>i \<ge> 8. \<not> bit x i"
  shows "(crc16_step ^^ 8) x = push_bit 8 x"
proof -
  have "(crc16_step ^^ n) x = push_bit n x" if "n \<le> 8" for n
    using that assms by (induction n) (simp_all add: crc16_step_def bit_push_bit_iff push_bit_Suc mult.commute)
  then show ?thesis by blast
qed

lemma crc64_byte: "crc64_tab ! unat (ucast crc XOR (b :: u8)) XOR drop_bit 8 crc = (crc64_step ^^ 8) (crc XOR ucast b)"
proof -
  let ?w = "ucast crc XOR b :: u8" and ?hi = "crc XOR take_bit 8 crc"
  have "crc XOR ucast b = ucast ?w XOR ?hi"
    by (intro bit_eqI) (auto simp: bit_xor_iff bit_take_bit_iff bit_ucast_iff)
  moreover have "(crc64_step ^^ 8) ?hi = drop_bit 8 crc"
  proof -
    have "drop_bit 8 ?hi = drop_bit 8 crc" by (intro bit_eqI) (simp add: bit_drop_bit_eq bit_xor_iff bit_take_bit_iff)
    then show ?thesis by (subst crc64_step_shift) (simp_all add: bit_xor_iff bit_take_bit_iff)
  qed
  moreover have "unat ?w < 256" using unsigned_less [of ?w] by simp
  ultimately show ?thesis by (simp add: nth_crc64_tab funpow_8 crc64_step_xor)
qed

lemma crc16_byte:
  "push_bit 8 crc XOR crc16tab ! unat ((drop_bit 8 crc XOR ucast b) AND 0xFF) =
    (crc16_step ^^ 8) (crc XOR push_bit 8 (ucast b))"
proof -
  let ?w = "(drop_bit 8 crc XOR ucast b) AND 0xFF :: u16"
  have "(0xFF :: u16) = mask 8" by (simp add: mask_eq_exp_minus_1)
  then have w: "?w = take_bit 8 (drop_bit 8 crc XOR ucast b)" by (simp only: take_bit_eq_mask)
  have "crc XOR push_bit 8 (ucast b) = take_bit 8 crc XOR push_bit 8 ?w" unfolding w
    by (intro bit_eqI) (auto simp: bit_xor_iff bit_take_bit_iff bit_push_bit_iff bit_drop_bit_eq bit_ucast_iff not_le)
  moreover have "(crc16_step ^^ 8) (take_bit 8 crc) = push_bit 8 crc"
  proof -
    have "push_bit 8 (take_bit 8 crc) = push_bit 8 crc" by (intro bit_eqI) (auto simp: bit_push_bit_iff bit_take_bit_iff)
    then show ?thesis by (subst crc16_step_shift) (simp_all add: bit_take_bit_iff)
  qed
  moreover have "unat ?w < 256" 
    unfolding w unsigned_take_bit_eq using take_bit_nat_less_exp [of 8 "unat (drop_bit 8 crc XOR ucast b)"] by simp
  ultimately show ?thesis by (simp add: nth_crc16tab funpow_8 crc16_step_xor)
qed

lemma crc64_eq_ref: "crc64 crc s = crc64_ref crc s"
  by (induction s arbitrary: crc) (simp_all add: crc64_ref_def crc64_byte)

lemma crc64_append: "crc64 crc (s @ t) = crc64 (crc64 crc s) t"
  by (simp add: crc64_eq_ref crc64_ref_def)

lemma crc16_eq_ref: "crc16 buf = crc16_ref buf"
proof -
  have "crc16_loop c buf = foldl (\<lambda>c b. (crc16_step ^^ 8) (c XOR push_bit 8 (ucast b))) c buf" for c
    by (induction buf arbitrary: c) (simp_all add: crc16_byte)
  then show ?thesis by (simp add: crc16_def crc16_ref_def)
qed

lemma crc64_poly_reflected: "\<forall>i < 64. bit (0x95ac9329ac4bc9b5 :: u64) i = bit (0xad93d23594c935a9 :: u64) (63 - i)"
  by code_simp

text \<open>The check values of the two files.\<close>

lemma crc16_check: "crc16 [0x31, 0x32, 0x33, 0x34, 0x35, 0x36, 0x37, 0x38, 0x39] = 0x31C3"
  by code_simp

lemma crc64_check: "crc64 0 [0x31, 0x32, 0x33, 0x34, 0x35, 0x36, 0x37, 0x38, 0x39] = 0xe9c6d914c4b8d9ca"
  by code_simp

subsection \<open>Slots\<close>

text \<open>
  The part of a key that places it: the hash tag, which is what stands between the first opening brace and the next
  closing one, if both exist and the tag is not empty, and otherwise the whole key.
\<close>

definition hash_tag :: "bytes \<Rightarrow> bytes" where
  "hash_tag key =
     (let rest = tl (dropWhile (\<lambda>c. c \<noteq> 123) key); tag = takeWhile (\<lambda>c. c \<noteq> 125) rest
      in if 123 \<in> set key \<and> 125 \<in> set rest \<and> tag \<noteq> [] then tag else key)"

lemma scan_char_eq: "i \<le> length key \<Longrightarrow> scan_char key c i = i + length (takeWhile (\<lambda>x. x \<noteq> c) (drop i key))"
proof (induction key c i rule: scan_char.induct)
  case (1 key c i)
  show ?case
  proof (cases "i < length key")
    case True
    then have "drop i key = key ! i # drop (Suc i) key" by (simp add: Cons_nth_drop_Suc)
    then show ?thesis using True 1 by (subst scan_char.simps) simp
  next
    case False
    then show ?thesis using 1 by (subst scan_char.simps) simp
  qed
qed

lemma length_takeWhile_all: "length (takeWhile (\<lambda>x. x \<noteq> c) xs) = length xs \<longleftrightarrow> c \<notin> set xs"
  by (induction xs) auto

lemma slot_mod: "unat ((c :: u16) AND 0x3FFF) = unat c mod 16384"
proof -
  have "(0x3FFF :: u16) = mask 14" by (simp add: mask_eq_exp_minus_1)
  then have "c AND 0x3FFF = take_bit 14 c" by (simp only: take_bit_eq_mask)
  then have "unat (c AND 0x3FFF) = take_bit 14 (unat c)" by (simp only: unsigned_take_bit_eq)
  then show ?thesis by (simp add: take_bit_eq_mod)
qed

lemma keyHashSlot_eq: "keyHashSlot key = unat (crc16 (hash_tag key)) mod 16384"
proof -
  let ?p = "takeWhile (\<lambda>c. c \<noteq> 123) key"
  let ?rest = "tl (dropWhile (\<lambda>c. c \<noteq> 123) key)"
  let ?tag = "takeWhile (\<lambda>c. c \<noteq> 125) ?rest"
  have s: "scan_char key 123 0 = length ?p" by (simp add: scan_char_eq)
  show ?thesis
  proof (cases "123 \<in> set key")
    case False
    then show ?thesis unfolding keyHashSlot_def s Let_def
      using length_takeWhile_all [of 123 key] by (simp add: hash_tag_def slot_mod)
  next
    case True
    then have lt: "length ?p < length key"
      using length_takeWhile_all [of 123 key] length_takeWhile_le [of "\<lambda>c. c \<noteq> 123" key] by linarith
    have rest: "drop (length ?p + 1) key = ?rest" by (simp add: dropWhile_eq_drop drop_Suc tl_drop)
    have e: "scan_char key 125 (length ?p + 1) = length ?p + 1 + length ?tag"
      using lt scan_char_eq [of "length ?p + 1" key 125] unfolding rest by simp
    have len: "length key = length ?p + 1 + length ?rest" using lt rest [symmetric] by simp
    have "take (length ?tag) ?rest = ?tag" by (rule takeWhile_eq_take [symmetric])
    then show ?thesis unfolding keyHashSlot_def s e Let_def rest
      using True lt len length_takeWhile_all [of 125 ?rest] rest by (auto simp add: hash_tag_def slot_mod Let_def)
  qed
qed

text \<open>
  C40: the table-driven checksums are the polynomial divisions, for every input; \<open>crc64\<close> can be computed
  piecewise. The slot of every key is the checksum, modulo 16384, of its hash tag: the whole key when there is no opening
  brace, no closing one behind the first opening one, or nothing between them.
\<close>

theorem crc_reference:
  "crc16 s = crc16_ref s \<and> crc64 c s = crc64_ref c s \<and> crc64 c (s @ s') = crc64 (crc64 c s) s' \<and>
    keyHashSlot s = unat (crc16_ref (hash_tag s)) mod 16384 \<and> keyHashSlot s < 16384"
  by (simp add: keyHashSlot_eq crc64_append flip: crc16_eq_ref crc64_eq_ref)

end
