(* ===== verification/Lzf.thy ===== *)
theory Lzf
  imports Redis_Prelude
begin

text \<open>
  LZF compression (\<open>lzf_c.c\<close>, \<open>lzf_d.c\<close>), as configured in \<open>lzfP.h\<close> on a 64-bit platform: \<open>HLOG\<close> 16,
  \<open>VERY_FAST\<close>, offsets in the hash table, input checks on. Pointers are positions in the input and
  output buffers; an access outside of a buffer is \<^term>\<open>None\<close>. The hash table is not initialised, so its
  contents on entry are a parameter. The format is an inductive relation between compressed bytes and
  the text; the decompressor computes it and the compressor only writes members of it.
\<close>

subsection \<open>Definitions: decompression\<close>

datatype lzf_errno = E2BIG | EINVAL

text \<open>Copying within the output byte by byte; the areas may overlap.\<close>

fun copy_octets :: "bytes \<Rightarrow> nat \<Rightarrow> nat \<Rightarrow> nat \<Rightarrow> bytes option" where
  "copy_octets out op ref 0 = Some out"
| "copy_octets out op ref (Suc n) = do {
     c \<leftarrow> peek out ref;
     out \<leftarrow> pokes out op [c];
     copy_octets out (op + 1) (ref + 1) n }"

text \<open>The switch on the length of a back reference.\<close>

definition copy_ref :: "bytes \<Rightarrow> nat \<Rightarrow> nat \<Rightarrow> nat \<Rightarrow> bytes option" where
  "copy_ref out op ref len =
     (if len > 9 then
        let len = len + 2 in
        if op \<ge> ref + len then memmove out op ref len else copy_octets out op ref len
      else copy_octets out op ref (len + 2))"

text \<open>
  One round of the loop: an error, or the next positions in the input and the output, with the output buffer.
\<close>

definition literal_run :: "bytes \<Rightarrow> nat \<Rightarrow> bytes \<Rightarrow> nat \<Rightarrow> nat \<Rightarrow> (bytes \<times> (lzf_errno + nat \<times> nat)) option" where
  "literal_run inp ip out op ctrl =
     (let ctrl = ctrl + 1 in
      if op + ctrl > length out then Some (out, Inl E2BIG)
      else if ip + ctrl > length inp then Some (out, Inl EINVAL)
      else do {
        xs \<leftarrow> peeks inp ip ctrl;
        out \<leftarrow> pokes out op xs;
        Some (out, Inr (ip + ctrl, op + ctrl)) })"

definition back_reference :: "bytes \<Rightarrow> nat \<Rightarrow> bytes \<Rightarrow> nat \<Rightarrow> nat \<Rightarrow> (bytes \<times> (lzf_errno + nat \<times> nat)) option" where
  "back_reference inp ip out op ctrl =
     (let len = drop_bit 5 ctrl; ref = int op - int (push_bit 8 (ctrl AND 31)) - 1 in
      if ip \<ge> length inp then Some (out, Inl EINVAL)
      else do {
        (len, ip) \<leftarrow> (if len = 7 then do { c \<leftarrow> peek inp ip; Some (len + unat c, ip + 1) } else Some (len, ip));
        if drop_bit 5 ctrl = 7 \<and> ip \<ge> length inp then Some (out, Inl EINVAL)
        else do {
          c \<leftarrow> peek inp ip;
          let ref = ref - int (unat c);
          let ip = ip + 1;
          if op + len + 2 > length out then Some (out, Inl E2BIG)
          else if ref < 0 then Some (out, Inl EINVAL)
          else do {
            out \<leftarrow> copy_ref out op (nat ref) len;
            Some (out, Inr (ip, op + len + 2)) } } })"

definition decompress_step :: "bytes \<Rightarrow> nat \<Rightarrow> bytes \<Rightarrow> nat \<Rightarrow> (bytes \<times> (lzf_errno + nat \<times> nat)) option" where
  "decompress_step inp ip out op = do {
     c \<leftarrow> peek inp ip;
     let ctrl = unat c;
     if ctrl < 32 then literal_run inp (ip + 1) out op ctrl else back_reference inp (ip + 1) out op ctrl }"

lemma literal_run_ip: "literal_run inp ip out op ctrl = Some (out', Inr (ip', op')) \<Longrightarrow> ip < ip'"
  by (auto simp: literal_run_def Let_def split: if_splits bind_splits)

lemma back_reference_ip: "back_reference inp ip out op ctrl = Some (out', Inr (ip', op')) \<Longrightarrow> ip < ip'"
  by (auto simp: back_reference_def Let_def split: if_splits bind_splits)

lemma decompress_step_ip: "decompress_step inp ip out op = Some (out', Inr (ip', op')) \<Longrightarrow> ip < ip'"
  by (auto simp: decompress_step_def Let_def dest!: literal_run_ip back_reference_ip split: if_splits bind_splits)

function decompress_loop :: "bytes \<Rightarrow> nat \<Rightarrow> bytes \<Rightarrow> nat \<Rightarrow> (bytes \<times> (lzf_errno + nat)) option" where
  "decompress_loop inp ip out op = (case decompress_step inp ip out op of
     None \<Rightarrow> None
   | Some (out, Inl e) \<Rightarrow> Some (out, Inl e)
   | Some (out, Inr (ip, op)) \<Rightarrow>
       if ip < length inp then decompress_loop inp ip out op else Some (out, Inr op))"
  by pat_completeness auto
termination
  by (relation "measure (\<lambda>(inp, ip, out, op). length inp - ip)") (auto dest!: decompress_step_ip)

declare decompress_loop.simps [simp del]

text \<open>The result is the number of bytes, or the error; the C function returns 0 then and sets \<open>errno\<close>.\<close>

definition lzf_decompress :: "bytes \<Rightarrow> bytes \<Rightarrow> (bytes \<times> (lzf_errno + nat)) option" where
  "lzf_decompress in_data out_data = decompress_loop in_data 0 out_data 0"

text \<open>The loop reads a byte before it looks at the length.\<close>

lemma lzf_decompress_empty: "lzf_decompress [] out = None"
  by (simp add: lzf_decompress_def decompress_loop.simps decompress_step_def peek_def)

subsection \<open>Definitions: compression\<close>

abbreviation (input) MAX_LIT :: nat where "MAX_LIT \<equiv> 32"
abbreviation (input) MAX_OFF :: nat where "MAX_OFF \<equiv> 8192"
abbreviation (input) MAX_REF :: nat where "MAX_REF \<equiv> 264"

definition FRST :: "bytes \<Rightarrow> nat \<Rightarrow> u32 option" where
  "FRST inp p = do { a \<leftarrow> peek inp p; b \<leftarrow> peek inp (p + 1); Some (push_bit 8 (ucast a) OR ucast b) }"

definition NEXT :: "u32 \<Rightarrow> bytes \<Rightarrow> nat \<Rightarrow> u32 option" where
  "NEXT v inp p = do { c \<leftarrow> peek inp (p + 2); Some (push_bit 8 v OR ucast c) }"

definition IDX :: "u32 \<Rightarrow> nat" where
  "IDX h = unat ((drop_bit 8 h - h * 5) AND 65535)"

record lzf_state =
  lip :: nat
  lop :: nat
  lit :: nat
  hval :: u32
  htab :: "nat \<Rightarrow> u32"
  lout :: bytes

text \<open>\<open>op [- lit - 1] = lit - 1\<close>: the control byte in front of the current run.\<close>

definition stop_run :: "bytes \<Rightarrow> nat \<Rightarrow> nat \<Rightarrow> bytes option" where
  "stop_run out op n = (if op < n + 1 then None else pokes out (op - n - 1) [of_nat n - 1])"

text \<open>A pending literal byte is copied; a full run is closed.\<close>

definition put_literal :: "bytes \<Rightarrow> lzf_state \<Rightarrow> lzf_state option" where
  "put_literal inp st = do {
     c \<leftarrow> peek inp (lip st);
     out \<leftarrow> pokes (lout st) (lop st) [c];
     let st = st\<lparr>lip := lip st + 1, lop := lop st + 1, lit := lit st + 1, lout := out\<rparr>;
     if lit st = MAX_LIT then do {
       out \<leftarrow> stop_run (lout st) (lop st) (lit st);
       Some (st\<lparr>lout := out, lit := 0, lop := lop st + 1\<rparr>) }
     else Some st }"

text \<open>The length of the match: sixteen unrolled comparisons, where the flag says that one of them failed, then a loop.\<close>

fun match_unrolled :: "bytes \<Rightarrow> nat \<Rightarrow> nat \<Rightarrow> nat \<Rightarrow> nat \<Rightarrow> (nat \<times> bool) option" where
  "match_unrolled inp ref ip len 0 = Some (len, False)"
| "match_unrolled inp ref ip len (Suc n) = do {
     let len = len + 1;
     a \<leftarrow> peek inp (ref + len);
     b \<leftarrow> peek inp (ip + len);
     if a \<noteq> b then Some (len, True) else match_unrolled inp ref ip len n }"

function match_rest :: "bytes \<Rightarrow> nat \<Rightarrow> nat \<Rightarrow> nat \<Rightarrow> nat \<Rightarrow> nat option" where
  "match_rest inp ref ip maxlen len =
     (let len = len + 1 in
      if len < maxlen then
        case (peek inp (ref + len), peek inp (ip + len)) of
          (Some a, Some b) \<Rightarrow> if a = b then match_rest inp ref ip maxlen len else Some len
        | _ \<Rightarrow> None
      else Some len)"
  by pat_completeness auto
termination by (relation "measure (\<lambda>(inp, ref, ip, maxlen, len). maxlen - len)") auto

declare match_rest.simps [simp del]

definition match_length :: "bytes \<Rightarrow> nat \<Rightarrow> nat \<Rightarrow> nat option" where
  "match_length inp ref ip = do {
     let len = 2;
     let maxlen = length inp - ip - len;
     let maxlen = (if maxlen > MAX_REF then MAX_REF else maxlen);
     (len, stop) \<leftarrow> (if maxlen > 16 then match_unrolled inp ref ip len 16 else Some (len, False));
     if stop then Some len else match_rest inp ref ip maxlen len }"

text \<open>The condition of the match; \<open>off\<close> is an \<open>unsigned long\<close>.\<close>

definition match_found :: "bytes \<Rightarrow> nat \<Rightarrow> nat \<Rightarrow> bool option" where
  "match_found inp ref ip =
     (if (int ip - int ref - 1) mod 2 ^ 64 < int MAX_OFF \<and> ref > 0 then do {
        r2 \<leftarrow> peek inp (ref + 2);
        i2 \<leftarrow> peek inp (ip + 2);
        if r2 = i2 then do {
          r \<leftarrow> peeks inp ref 2;
          i \<leftarrow> peeks inp ip 2;
          Some (r = i) }
        else Some False }
      else Some False)"

text \<open>The bytes of a back reference; \<open>len\<close> is the number of octets less 2.\<close>

definition ref_bytes :: "nat \<Rightarrow> nat \<Rightarrow> bytes" where
  "ref_bytes off len =
     (if len < 7 then [of_nat (drop_bit 8 off + push_bit 5 len)]
      else [of_nat (drop_bit 8 off + push_bit 5 7), of_nat (len - 7)]) @ [of_nat off]"

text \<open>Two positions before the end of the match enter the hash table.\<close>

definition rehash_tail :: "bytes \<Rightarrow> lzf_state \<Rightarrow> lzf_state option" where
  "rehash_tail inp st = do {
     let ip = lip st - 2;
     h \<leftarrow> FRST inp ip;
     h \<leftarrow> NEXT h inp ip;
     let tab = (htab st)(IDX h := of_nat ip);
     let ip = ip + 1;
     h \<leftarrow> NEXT h inp ip;
     let tab = tab(IDX h := of_nat ip);
     Some (st\<lparr>lip := ip + 1, hval := h, htab := tab\<rparr>) }"

text \<open>How a round of the loop ends: the loop goes on, is left by \<open>break\<close>, or the function returns 0 for lack of room.\<close>

datatype lzf_next = Again | Break | Full

definition compress_match :: "bytes \<Rightarrow> nat \<Rightarrow> lzf_state \<Rightarrow> (lzf_state \<times> lzf_next) option" where
  "compress_match inp ref st =
     (let ip = lip st; op = lop st; off = ip - ref - 1; nolit = (if lit st = 0 then 1 else 0) in
      if op + 3 + 1 \<ge> length (lout st) \<and> op - nolit + 3 + 1 \<ge> length (lout st) then Some (st, Full)
      else do {
        out \<leftarrow> stop_run (lout st) op (lit st);
        let op = op - nolit;
        len \<leftarrow> match_length inp ref ip;
        let len = len - 2;
        out \<leftarrow> pokes out op (ref_bytes off len);
        let op = op + length (ref_bytes off len) + 1;
        let st = st\<lparr>lip := ip + 1 + (len + 1), lop := op, lit := 0, lout := out\<rparr>;
        if lip st + 2 \<ge> length inp then Some (st, Break)
        else do { st \<leftarrow> rehash_tail inp st; Some (st, Again) } })"

definition compress_step :: "bytes \<Rightarrow> lzf_state \<Rightarrow> (lzf_state \<times> lzf_next) option" where
  "compress_step inp st = do {
     h \<leftarrow> NEXT (hval st) inp (lip st);
     let ref = unat (htab st (IDX h));
     let st = st\<lparr>hval := h, htab := (htab st)(IDX h := of_nat (lip st))\<rparr>;
     found \<leftarrow> match_found inp ref (lip st);
     if found then compress_match inp ref st
     else if lop st \<ge> length (lout st) then Some (st, Full)
     else do { st \<leftarrow> put_literal inp st; Some (st, Again) } }"

lemma put_literal_ip: "put_literal inp st = Some st' \<Longrightarrow> lip st' = lip st + 1"
  by (auto simp: put_literal_def Let_def split: if_splits bind_splits)

lemma rehash_tail_ip: "rehash_tail inp st = Some st' \<Longrightarrow> lip st' = lip st - 2 + 2"
  by (auto simp: rehash_tail_def Let_def split: bind_splits)

lemma compress_match_ip: "compress_match inp ref st = Some (st', Again) \<Longrightarrow> lip st < lip st'"
  by (auto simp: compress_match_def Let_def dest!: rehash_tail_ip split: if_splits bind_splits)

lemma compress_step_ip: "compress_step inp st = Some (st', Again) \<Longrightarrow> lip st < lip st'"
  by (auto simp: compress_step_def Let_def dest!: compress_match_ip put_literal_ip split: if_splits bind_splits)

text \<open>The flag says that there was no room.\<close>

function compress_loop :: "bytes \<Rightarrow> lzf_state \<Rightarrow> (lzf_state \<times> bool) option" where
  "compress_loop inp st =
     (if lip st + 2 < length inp then
        case compress_step inp st of
          None \<Rightarrow> None
        | Some (st, Full) \<Rightarrow> Some (st, True)
        | Some (st, Break) \<Rightarrow> Some (st, False)
        | Some (st, Again) \<Rightarrow> compress_loop inp st
      else Some (st, False))"
  by pat_completeness auto
termination
  by (relation "measure (\<lambda>(inp, st). length inp - lip st)") (auto dest!: compress_step_ip)

function literal_tail :: "bytes \<Rightarrow> lzf_state \<Rightarrow> lzf_state option" where
  "literal_tail inp st =
     (if lip st < length inp then
        case put_literal inp st of None \<Rightarrow> None | Some st \<Rightarrow> literal_tail inp st
      else Some st)"
  by pat_completeness auto
termination
  by (relation "measure (\<lambda>(inp, st). length inp - lip st)") (auto dest!: put_literal_ip)

declare compress_loop.simps [simp del] literal_tail.simps [simp del]

definition lzf_compress :: "(nat \<Rightarrow> u32) \<Rightarrow> bytes \<Rightarrow> bytes \<Rightarrow> (bytes \<times> nat) option" where
  "lzf_compress tab in_data out_data =
     (if length in_data = 0 \<or> length out_data = 0 then Some (out_data, 0)
      else do {
        h \<leftarrow> FRST in_data 0;
        (st, full) \<leftarrow> compress_loop in_data \<lparr>lip = 0, lop = 1, lit = 0, hval = h, htab = tab, lout = out_data\<rparr>;
        if full \<or> lop st + 3 > length (lout st) then Some (lout st, 0)
        else do {
          st \<leftarrow> literal_tail in_data st;
          out \<leftarrow> stop_run (lout st) (lop st) (lit st);
          Some (out, lop st - (if lit st = 0 then 1 else 0)) } })"

text \<open>The compressor reads two bytes before it looks at the length.\<close>

lemma lzf_compress_single: "out \<noteq> [] \<Longrightarrow> lzf_compress tab [c] out = None"
  by (simp add: lzf_compress_def FRST_def peek_def)

subsection \<open>The format\<close>

text \<open>\<open>n\<close> bytes copied from \<open>off + 1\<close> before the end, one after the other.\<close>

fun lz_copy :: "nat \<Rightarrow> nat \<Rightarrow> bytes \<Rightarrow> bytes" where
  "lz_copy off 0 acc = acc"
| "lz_copy off (Suc n) acc = lz_copy off n (acc @ [acc ! (length acc - off - 1)])"

inductive lzf_text :: "bytes \<Rightarrow> bytes \<Rightarrow> bytes \<Rightarrow> bool" where
  stop: "lzf_text acc [] acc"
| literal: "l \<noteq> [] \<Longrightarrow> length l \<le> 32 \<Longrightarrow> lzf_text (acc @ l) xs r \<Longrightarrow>
    lzf_text acc (of_nat (length l - 1) # l @ xs) r"
| reference: "1 \<le> len \<Longrightarrow> len \<le> 262 \<Longrightarrow> off < 8192 \<Longrightarrow> off < length acc \<Longrightarrow>
    lzf_text (lz_copy off (len + 2) acc) xs r \<Longrightarrow> lzf_text acc (ref_bytes off len @ xs) r"

lemma lzf_text_append: "lzf_text acc xs r \<Longrightarrow> lzf_text r ys q \<Longrightarrow> lzf_text acc (xs @ ys) q"
proof (induction rule: lzf_text.induct)
  case (literal l acc xs r)
  then show ?case using lzf_text.literal [of l acc "xs @ ys" q] by simp
next
  case (reference len off acc xs r)
  then show ?case using lzf_text.reference [of len off acc "xs @ ys" q] by simp
qed simp

lemma length_lz_copy [simp]: "length (lz_copy off n acc) = length acc + n"
  by (induction off n acc rule: lz_copy.induct) simp_all

lemma lzf_text_length: "lzf_text acc xs r \<Longrightarrow> length acc \<le> length r"
  by (induction rule: lzf_text.induct) simp_all

text \<open>Copying a match reproduces the text.\<close>

lemma lz_copy_match:
  assumes "\<forall>k < n. xs ! (ref + k) = xs ! (ip + k)" "ref < ip" "ip + n \<le> length xs"
  shows "lz_copy (ip - ref - 1) n (take ip xs) = take (ip + n) xs"
  using assms
proof (induction n arbitrary: ref ip)
  case (Suc n)
  have m: "xs ! ref = xs ! ip" using Suc.prems(1) by (metis add_0_right zero_less_Suc)
  have "take ip xs ! (ip - (ip - ref - 1) - 1) = xs ! ip"
    using Suc.prems m by simp
  then have "take ip xs @ [take ip xs ! (length (take ip xs) - (ip - ref - 1) - 1)] = take (Suc ip) xs"
    using Suc.prems by (simp add: take_Suc_conv_app_nth min_def)
  moreover have "lz_copy (ip - ref - 1) n (take (Suc ip) xs) = take (Suc ip + n) xs"
    using Suc.IH [of "Suc ref" "Suc ip"] Suc.prems by (metis Suc_diff_Suc Suc_less_eq add_Suc add_Suc_right diff_Suc_Suc not_less_eq)
  ultimately show ?case by simp
qed simp

subsection \<open>The decompressor\<close>

lemma copy_octets_correct:
  assumes "ref < op" "op + n \<le> length out"
  shows "\<exists>out'. copy_octets out op ref n = Some out' \<and> length out' = length out \<and>
    take (op + n) out' = lz_copy (op - ref - 1) n (take op out)"
  using assms
proof (induction n arbitrary: out op ref)
  case (Suc n)
  let ?out = "out[op := out ! ref]"
  have p: "pokes out op [out ! ref] = Some ?out"
    using Suc.prems by (simp add: pokes_def upd_conv_take_nth_drop)
  have t: "take (Suc op) ?out = take op out @ [out ! ref]"
    using Suc.prems by (simp add: take_Suc_conv_app_nth)
  have "take op out ! (op - (op - ref - 1) - 1) = out ! ref" using Suc.prems by simp
  then have "lz_copy (op - ref - 1) (Suc n) (take op out) = lz_copy (op - ref - 1) n (take (Suc op) ?out)"
    using t Suc.prems by (simp add: min_def)
  moreover obtain out' where "copy_octets ?out (Suc op) (Suc ref) n = Some out'" "length out' = length ?out"
      "take (Suc op + n) out' = lz_copy (Suc op - Suc ref - 1) n (take (Suc op) ?out)"
    using Suc.IH [of "Suc ref" "Suc op" ?out] Suc.prems by auto
  ultimately show ?case using p Suc.prems by (simp add: peek_Some)
qed simp

declare lz_copy.simps(2) [simp del]

lemma copy_ref_correct:
  assumes "ref < op" "op + len + 2 \<le> length out"
  shows "\<exists>out'. copy_ref out op ref len = Some out' \<and> length out' = length out \<and>
    take (op + len + 2) out' = lz_copy (op - ref - 1) (len + 2) (take op out)"
proof (cases "len > 9 \<and> ref + len + 2 \<le> op")
  case True
  let ?xs = "take op out @ take (len + 2) (drop ref out)"
  have n: "length (take (len + 2) (drop ref out)) = len + 2" "length (take op out) = op"
    using assms True by auto
  have "?xs ! (ref + k) = ?xs ! (op + k)" if "k < len + 2" for k
    using that True assms by (simp add: nth_append)
  then have "lz_copy (op - ref - 1) (len + 2) (take op ?xs) = take (op + (len + 2)) ?xs"
    using assms(1) n by (intro lz_copy_match) simp_all
  then have "lz_copy (op - ref - 1) (len + 2) (take op out) = ?xs" using n by simp
  moreover have "copy_ref out op ref len = Some (?xs @ drop (op + (len + 2)) out)"
    using True assms n by (simp add: copy_ref_def Let_def memmove_def peeks_Some pokes_Some)
  ultimately show ?thesis using n assms by simp
next
  case False
  then have "copy_ref out op ref len = copy_octets out op ref (len + 2)" by (auto simp: copy_ref_def Let_def)
  then show ?thesis using copy_octets_correct [of ref op "len + 2" out] assms by (simp add: add.assoc)
qed

text \<open>Whatever the input is, a round stays inside the buffers.\<close>

lemma literal_run_safe:
  assumes "op \<le> length out"
  shows "\<exists>out' r. literal_run inp ip out op ctrl = Some (out', r) \<and> length out' = length out \<and>
    (case r of Inl _ \<Rightarrow> True | Inr (ip', op') \<Rightarrow> ip' \<le> length inp \<and> op' \<le> length out)"
  using assms by (auto simp: literal_run_def Let_def peeks_Some pokes_Some)

lemma back_reference_eq:
  assumes "ip < length inp" "len = (if drop_bit 5 ctrl = 7 then 7 + unat (inp ! ip) else drop_bit 5 ctrl)"
    "q = (if drop_bit 5 ctrl = 7 then ip + 1 else ip)" "off = push_bit 8 (ctrl AND 31) + unat (inp ! q)"
  shows "back_reference inp ip out op ctrl =
    (if q \<ge> length inp then Some (out, Inl EINVAL)
     else if op + len + 2 > length out then Some (out, Inl E2BIG)
     else if op \<le> off then Some (out, Inl EINVAL)
     else map_option (\<lambda>out. (out, Inr (q + 1, op + len + 2))) (copy_ref out op (op - off - 1) len))"
proof -
  have "nat (int op - int (push_bit 8 (ctrl AND 31)) - 1 - int (unat (inp ! q))) = op - off - 1"
      "int op - int (push_bit 8 (ctrl AND 31)) - 1 - int (unat (inp ! q)) < 0 \<longleftrightarrow> op \<le> off"
    using assms(4) by linarith+
  then show ?thesis
    using assms(1-3) by (cases "drop_bit 5 ctrl = 7")
      (simp_all add: back_reference_def Let_def peek_def map_option_case split: option.split)
qed

lemma back_reference_safe:
  assumes "op \<le> length out"
  shows "\<exists>out' r. back_reference inp ip out op ctrl = Some (out', r) \<and> length out' = length out \<and>
    (case r of Inl _ \<Rightarrow> True | Inr (ip', op') \<Rightarrow> ip' \<le> length inp \<and> op' \<le> length out)"
proof (cases "ip < length inp")
  case True
  define len where "len = (if drop_bit 5 ctrl = 7 then 7 + unat (inp ! ip) else drop_bit 5 ctrl)"
  define q where "q = (if drop_bit 5 ctrl = 7 then ip + 1 else ip)"
  define off where "off = push_bit 8 (ctrl AND 31) + unat (inp ! q)"
  note back_reference_eq [OF True len_def q_def off_def, of out op]
  then show ?thesis
    using copy_ref_correct [of "op - off - 1" op len out] by auto
qed (simp add: back_reference_def Let_def)

lemma decompress_step_safe:
  assumes "ip < length inp" "op \<le> length out"
  shows "\<exists>out' r. decompress_step inp ip out op = Some (out', r) \<and> length out' = length out \<and>
    (case r of Inl _ \<Rightarrow> True | Inr (ip', op') \<Rightarrow> ip' \<le> length inp \<and> op' \<le> length out)"
  using assms literal_run_safe [OF assms(2)] back_reference_safe [OF assms(2)]
  by (simp add: decompress_step_def peek_Some Let_def)

lemma decompress_loop_safe:
  assumes "ip < length inp" "op \<le> length out"
  shows "\<exists>out' r. decompress_loop inp ip out op = Some (out', r) \<and> length out' = length out \<and>
    (case r of Inl _ \<Rightarrow> True | Inr n \<Rightarrow> n \<le> length out)"
  using assms
proof (induction inp ip out op rule: decompress_loop.induct)
  case (1 inp ip out op)
  obtain out' r where s: "decompress_step inp ip out op = Some (out', r)" "length out' = length out"
      "case r of Inl _ \<Rightarrow> True | Inr (ip', op') \<Rightarrow> ip' \<le> length inp \<and> op' \<le> length out"
    using decompress_step_safe [OF 1(2,3)] by blast
  show ?case
  proof (cases r)
    case (Inl e)
    then show ?thesis using s by (subst decompress_loop.simps) simp
  next
    case (Inr p)
    obtain ip' op' where p: "p = (ip', op')" by (cases p)
    show ?thesis
    proof (cases "ip' < length inp")
      case True
      then show ?thesis
        using 1(1) [OF s(1) refl Inr p [symmetric] True, unfolded s(2)] s Inr p by (subst decompress_loop.simps) simp
    next
      case False
      then show ?thesis using s Inr p by (subst decompress_loop.simps) simp
    qed
  qed
qed

text \<open>A compressed text is decompressed if the output has room for it.\<close>

lemma ref_bytes_not_Nil [simp]: "ref_bytes off len \<noteq> []"
  by (simp add: ref_bytes_def)

lemma lzf_text_Nil [simp]: "lzf_text acc [] r \<longleftrightarrow> r = acc"
proof
  show "r = acc" if "lzf_text acc [] r" using that by cases simp_all
qed (simp add: lzf_text.stop)

lemma literal_step:
  assumes "l \<noteq> []" "length l \<le> 32" "take (length acc) out = acc" "length acc + length l \<le> length out"
  shows "\<exists>out'. decompress_step (pre @ of_nat (length l - 1) # l @ xs) (length pre) out (length acc) =
      Some (out', Inr (length pre + length (of_nat (length l - 1) # l :: bytes), length (acc @ l))) \<and>
    length out' = length out \<and> take (length (acc @ l)) out' = acc @ l"
proof -
  have "length l - 1 < 32" using assms(1,2) by (cases l) simp_all
  then have c: "unat (of_nat (length l - 1) :: u8) = length l - 1" "unat (of_nat (length l - 1) :: u8) < 32"
    by (simp_all add: unat_of_nat)
  let ?inp = "pre @ of_nat (length l - 1) # l @ xs"
  have "peeks ?inp (length pre + 1) (length l) = Some l"
    using peeks_append_at [of "pre @ [of_nat (length l - 1)]" "length pre + 1" l "length l" xs] by simp
  moreover have "pokes out (length acc) l = Some (acc @ l @ drop (length acc + length l) out)"
    using assms(3,4) by (simp add: pokes_Some)
  ultimately show ?thesis
    using assms(1,4) c by (simp add: decompress_step_def peek_append_at literal_run_def Let_def Suc_diff_Suc
        length_greater_0_conv [symmetric] del: length_greater_0_conv)
qed

lemma ref_bytes_decode:
  assumes "1 \<le> len" "len \<le> 262" "off < 8192"
  obtains (short) c d where "ref_bytes off len = [c, d]" "32 \<le> unat c" "drop_bit 5 (unat c) = len" "len < 7"
      "push_bit 8 (unat c AND 31) + unat d = off"
  | (long) c l d where "ref_bytes off len = [c, l, d]" "32 \<le> unat c" "drop_bit 5 (unat c) = 7" "7 + unat l = len" "7 \<le> len"
      "push_bit 8 (unat c AND 31) + unat d = off"
proof -
  have off: "unat (of_nat off :: u8) = off mod 256" "off div 256 < 32" using assms(3) by (simp_all add: unat_of_nat)
  have byte: "m < 256 \<Longrightarrow> unat (of_nat m :: u8) = m" for m by (simp add: unat_of_nat)
  have ctrl: "unat (of_nat (drop_bit 8 off + push_bit 5 n) :: u8) = off div 256 + 32 * n" if "n \<le> 7" for n
    using that off(2) byte [of "drop_bit 8 off + push_bit 5 n"] by (simp add: drop_bit_eq_div push_bit_eq_mult)
  have split: "drop_bit 5 (off div 256 + 32 * n) = n" "(off div 256 + 32 * n) AND 31 = off div 256" for n
    using off(2) take_bit_eq_mask [of 5 "off div 256 + 32 * n"]
    by (simp_all add: drop_bit_eq_div mask_eq_exp_minus_1 take_bit_eq_mod)
  have d: "push_bit 8 (off div 256) + off mod 256 = off" by (simp add: push_bit_eq_mult)
  show thesis
  proof (cases "len < 7")
    case True
    then show thesis using assms ctrl [of len] split [of len] d off(1) by (intro short) (simp_all only: ref_bytes_def if_True append.simps, simp_all)
  next
    case False
    moreover have "unat (of_nat (len - 7) :: u8) = len - 7" using assms(2) by (simp add: unat_of_nat)
    ultimately show thesis using assms ctrl [of 7] split [of 7] d off(1) by (intro long) (simp_all only: ref_bytes_def if_False append.simps, simp_all)
  qed
qed

lemma reference_step:
  assumes "1 \<le> len" "len \<le> 262" "off < 8192" "off < length acc" "take (length acc) out = acc"
    "length acc + len + 2 \<le> length out"
  shows "\<exists>out'. decompress_step (pre @ ref_bytes off len @ xs) (length pre) out (length acc) =
      Some (out', Inr (length pre + length (ref_bytes off len), length (lz_copy off (len + 2) acc))) \<and>
    length out' = length out \<and> take (length (lz_copy off (len + 2) acc)) out' = lz_copy off (len + 2) acc"
proof -
  let ?inp = "pre @ ref_bytes off len @ xs" and ?ip = "length pre + 1"
  obtain out' where out': "copy_ref out (length acc) (length acc - off - 1) len = Some out'" "length out' = length out"
      "take (length acc + len + 2) out' = lz_copy off (len + 2) acc"
    using copy_ref_correct [of "length acc - off - 1" "length acc" len out] assms by fastforce
  from assms(1-3) have "decompress_step ?inp (length pre) out (length acc) =
      Some (out', Inr (length pre + length (ref_bytes off len), length acc + len + 2))"
  proof (cases rule: ref_bytes_decode)
    case (short c d)
    have "back_reference ?inp ?ip out (length acc) (unat c) = Some (out', Inr (?ip + 1, length acc + len + 2))"
      by (subst back_reference_eq [of ?ip ?inp len "unat c" ?ip off])
        (use short assms out'(1) in \<open>simp_all add: nth_append\<close>)
    then show ?thesis using short by (simp add: decompress_step_def peek_append_at Let_def)
  next
    case (long c l d)
    have "back_reference ?inp ?ip out (length acc) (unat c) = Some (out', Inr (?ip + 2, length acc + len + 2))"
      by (subst back_reference_eq [of ?ip ?inp len "unat c" "?ip + 1" off])
        (use long assms out'(1) in \<open>simp_all add: nth_append\<close>)
    then show ?thesis using long by (simp add: decompress_step_def peek_append_at Let_def)
  qed
  then show ?thesis using out' by simp
qed

lemma decompress_loop_token:
  assumes "decompress_step (pre @ tok @ xs) (length pre) out op = Some (out1, Inr (length pre + length tok, op1))"
  shows "decompress_loop (pre @ tok @ xs) (length pre) out op =
    (if xs = [] then Some (out1, Inr op1) else decompress_loop ((pre @ tok) @ xs) (length (pre @ tok)) out1 op1)"
  by (subst decompress_loop.simps) (simp add: assms)

lemma decompress_text:
  assumes "lzf_text acc xs r" "xs \<noteq> []" "take (length acc) out = acc" "length r \<le> length out"
  shows "\<exists>out'. decompress_loop (pre @ xs) (length pre) out (length acc) = Some (out', Inr (length r)) \<and>
    length out' = length out \<and> take (length r) out' = r"
  using assms
proof (induction arbitrary: pre out rule: lzf_text.induct)
  case (literal l acc xs r)
  let ?tok = "of_nat (length l - 1) # l"
  have "length acc + length l \<le> length out" using lzf_text_length [OF literal.hyps(3)] literal.prems(3) by simp
  from literal_step [OF literal.hyps(1,2) literal.prems(2) this, of pre xs]
  obtain out1 where out1: "decompress_step (pre @ ?tok @ xs) (length pre) out (length acc) =
      Some (out1, Inr (length pre + length ?tok, length (acc @ l)))" "length out1 = length out"
      "take (length (acc @ l)) out1 = acc @ l" unfolding append_Cons by blast
  show ?case
  proof (cases "xs = []")
    case True
    then have r: "r = acc @ l" using literal.hyps(3) by simp
    show ?thesis using decompress_loop_token [OF out1(1)] out1(2,3) unfolding r True if_P [OF refl] append_Cons by blast
  next
    case False
    have "length r \<le> length out1" using literal.prems(3) out1(2) by simp
    from literal.IH [OF False out1(3) this, of "pre @ ?tok"] show ?thesis
      using decompress_loop_token [OF out1(1)] False out1(2) by simp
  qed
next
  case (reference len off acc xs r)
  let ?acc = "lz_copy off (len + 2) acc"
  have "length acc + len + 2 \<le> length out" using lzf_text_length [OF reference.hyps(5)] reference.prems(3) by simp
  from reference_step [OF reference.hyps(1-4) reference.prems(2) this, of pre xs]
  obtain out1 where out1: "decompress_step (pre @ ref_bytes off len @ xs) (length pre) out (length acc) =
      Some (out1, Inr (length pre + length (ref_bytes off len), length ?acc))" "length out1 = length out"
      "take (length ?acc) out1 = ?acc" by blast
  show ?case
  proof (cases "xs = []")
    case True
    then have r: "r = ?acc" using reference.hyps(5) by simp
    show ?thesis using decompress_loop_token [OF out1(1)] out1(2,3) unfolding r True if_P [OF refl] by blast
  next
    case False
    have "length r \<le> length out1" using reference.prems(3) out1(2) by simp
    from reference.IH [OF False out1(3) this, of "pre @ ref_bytes off len"] show ?thesis
      using decompress_loop_token [OF out1(1)] False out1(2) by simp
  qed
qed simp

subsection \<open>The compressor\<close>

text \<open>
  The output up to the control byte of the current run is a compressed form of the input read so far
  without the run, which is copied behind that byte.
\<close>

definition lzf_inv :: "bytes \<Rightarrow> lzf_state \<Rightarrow> bool" where
  "lzf_inv inp st \<longleftrightarrow> lit st < 32 \<and> lit st < lop st \<and> lit st \<le> lip st \<and> lip st \<le> length inp \<and>
     lop st \<le> length (lout st) + (if lit st = 0 then 1 else 0) \<and> lop st \<le> 2 * lip st + 1 \<and>
     lzf_text [] (take (lop st - lit st - 1) (lout st)) (take (lip st - lit st) inp) \<and>
     take (lit st) (drop (lop st - lit st) (lout st)) = take (lit st) (drop (lip st - lit st) inp)"

lemma pokes_one: "i < length b \<Longrightarrow> pokes b i [x] = Some (b[i := x])"
  by (simp add: pokes_def upd_conv_take_nth_drop)

lemma take_literal:
  assumes "lzf_text [] (take (p - n - 1) out) (take (i - n) inp)" "take n (drop (p - n) out) = take n (drop (i - n) inp)"
    "0 < n" "n \<le> 32" "n < p" "p \<le> length out" "n \<le> i" "i \<le> length inp"
  shows "stop_run out p n = Some (out[p - n - 1 := of_nat (n - 1)])"
    "lzf_text [] (take p (out[p - n - 1 := of_nat (n - 1)])) (take i inp)"
proof -
  let ?l = "take n (drop (i - n) inp)" and ?q = "p - n - 1"
  have c: "of_nat n - 1 = (of_nat (n - 1) :: u8)" using assms(3) by (simp add: of_nat_diff)
  show "stop_run out p n = Some (out[?q := of_nat (n - 1)])"
    using assms(5,6) by (simp add: stop_run_def pokes_one c)
  have l: "length ?l = n" using assms by simp
  have "lzf_text (take (i - n) inp) (of_nat (length ?l - 1) # ?l @ []) (take (i - n) inp @ ?l)"
    using assms(3,4) l by (intro lzf_text.literal) auto
  moreover have "take (i - n) inp @ ?l = take i inp" using assms(7) take_add [of "i - n" n inp] by simp
  ultimately have t: "lzf_text (take (i - n) inp) (of_nat (n - 1) # ?l) (take i inp)" by (simp only: l append_Nil2)
  have "take p (out[?q := of_nat (n - 1)]) = take ?q out @ of_nat (n - 1) # take n (drop (p - n) out)"
  proof -
    have "p = Suc ?q + n" "Suc ?q = p - n" using assms(5) by simp_all
    then have "take p (out[?q := of_nat (n - 1)]) =
        take (Suc ?q) (out[?q := of_nat (n - 1)]) @ take n (drop (p - n) (out[?q := of_nat (n - 1)]))"
      by (metis take_add)
    then show ?thesis using assms(5,6) by (simp add: take_Suc_conv_app_nth)
  qed
  then show "lzf_text [] (take p (out[?q := of_nat (n - 1)])) (take i inp)"
    using lzf_text_append [OF assms(1) t] assms(2) by simp
qed

lemma stop_run_correct:
  assumes "lzf_inv inp st" "lop st \<le> length (lout st)"
  shows "\<exists>out'. stop_run (lout st) (lop st) (lit st) = Some out' \<and> length out' = length (lout st) \<and>
    lzf_text [] (take (lop st - (if lit st = 0 then 1 else 0)) out') (take (lip st) inp)"
proof (cases "lit st = 0")
  case True
  then have "stop_run (lout st) (lop st) (lit st) = Some ((lout st)[lop st - 1 := - 1])"
    using assms by (auto simp: lzf_inv_def stop_run_def intro!: pokes_one)
  then show ?thesis using True assms by (simp add: lzf_inv_def)
next
  case False
  then show ?thesis
    using assms take_literal [of "lop st" "lit st" "lout st" "lip st" inp] by (simp add: lzf_inv_def)
qed

lemma take_drop_snoc: "i < length xs \<Longrightarrow> n \<le> i \<Longrightarrow> take (Suc n) (drop (i - n) xs) = take n (drop (i - n) xs) @ [xs ! i]"
  by (simp add: take_Suc_conv_app_nth)

lemma put_literal_correct:
  assumes inv: "lzf_inv inp st" and ip: "lip st < length inp" and op: "lop st < length (lout st)"
  shows "\<exists>st'. put_literal inp st = Some st' \<and> lzf_inv inp st' \<and> lip st' = lip st + 1 \<and>
    length (lout st') = length (lout st) \<and>
    (if lit st + 1 = 32 then lit st' = 0 \<and> lop st' = lop st + 2 else lit st' = lit st + 1 \<and> lop st' = lop st + 1)"
proof -
  let ?out = "(lout st)[lop st := inp ! lip st]" and ?n = "lit st + 1"
  have i: "lit st < 32" "lit st < lop st" "lit st \<le> lip st" "lop st \<le> 2 * lip st + 1"
      "lzf_text [] (take (lop st - lit st - 1) (lout st)) (take (lip st - lit st) inp)"
      "take (lit st) (drop (lop st - lit st) (lout st)) = take (lit st) (drop (lip st - lit st) inp)"
    using inv by (simp_all add: lzf_inv_def)
  have p: "pokes (lout st) (lop st) [inp ! lip st] = Some ?out"
    using op by (rule pokes_one)
  have t: "lzf_text [] (take (lop st + 1 - ?n - 1) ?out) (take (lip st + 1 - ?n) inp)"
    using i(2,5) by simp
  have r: "take ?n (drop (lop st + 1 - ?n) ?out) = take ?n (drop (lip st + 1 - ?n) inp)"
    using i(2,3,6) ip op take_drop_snoc [of "lop st" ?out "lit st"] take_drop_snoc [of "lip st" inp "lit st"]
    by (simp add: drop_update_swap)
  show ?thesis
  proof (cases "?n = 32")
    case True
    have "0 < ?n" "?n \<le> 32" "?n < lop st + 1" "lop st + 1 \<le> length ?out" "?n \<le> lip st + 1" "lip st + 1 \<le> length inp"
      using i op ip by simp_all
    note full = take_literal [OF t r this]
    then show ?thesis using True p ip op i(4)
      by (simp add: put_literal_def peek_Some Let_def lzf_inv_def)
  next
    case False
    then show ?thesis using p ip op i t r
      by (simp add: put_literal_def peek_Some Let_def lzf_inv_def)
  qed
qed

lemma match_found_correct:
  assumes "ip + 2 < length inp" "length inp < 2 ^ 32" "ref < 2 ^ 32"
  shows "\<exists>b. match_found inp ref ip = Some b \<and>
    (b \<longrightarrow> 0 < ref \<and> ref < ip \<and> ip - ref - 1 < 8192 \<and> (\<forall>k < 3. inp ! (ref + k) = inp ! (ip + k)))"
proof (cases "(int ip - int ref - 1) mod 2 ^ 64 < 8192 \<and> 0 < ref")
  case True
  have lt: "ref < ip"
  proof (rule ccontr)
    assume "\<not> ?thesis"
    then have x: "int ip - int ref - 1 < 0" "- (2 ^ 33) \<le> int ip - int ref - 1" using assms by simp_all
    have "(int ip - int ref - 1) mod 2 ^ 64 = (int ip - int ref - 1 + 2 ^ 64) mod 2 ^ 64"
      by (rule mod_add_self2 [symmetric])
    also have "\<dots> = int ip - int ref - 1 + 2 ^ 64" using x by (intro mod_pos_pos_trivial) simp_all
    finally have "8192 \<le> (int ip - int ref - 1) mod 2 ^ 64" using x(2) by simp
    then show False using True by linarith
  qed
  then have "(int ip - int ref - 1) mod 2 ^ 64 = int (ip - ref - 1)" using assms by simp
  then have off: "ip - ref - 1 < 8192" using True by simp
  have two: "take 2 (drop i inp) = [inp ! i, inp ! (i + 1)]" if "i + 2 < length inp" for i
    using that by (simp add: numeral_2_eq_2 take_Suc_conv_app_nth)
  have "(\<forall>k < 3. inp ! (ref + k) = inp ! (ip + k)) \<longleftrightarrow>
      inp ! ref = inp ! ip \<and> inp ! (ref + 1) = inp ! (ip + 1) \<and> inp ! (ref + 2) = inp ! (ip + 2)"
    by (auto simp: numeral_3_eq_3 numeral_2_eq_2 less_Suc_eq)
  then show ?thesis using True lt off assms two [of ref] two [of ip]
    by (cases "inp ! (ref + 2) = inp ! (ip + 2)") (auto simp: match_found_def peek_Some peeks_Some)
qed (auto simp: match_found_def)

lemma match_unrolled_correct:
  assumes "ip + len + n < length inp" "ref < ip" "\<forall>k \<le> len. inp ! (ref + k) = inp ! (ip + k)"
  shows "\<exists>len' b. match_unrolled inp ref ip len n = Some (len', b) \<and> len \<le> len' \<and> len' \<le> len + n \<and>
    (if b then len < len' \<and> (\<forall>k < len'. inp ! (ref + k) = inp ! (ip + k))
     else len' = len + n \<and> (\<forall>k \<le> len'. inp ! (ref + k) = inp ! (ip + k)))"
  using assms
proof (induction n arbitrary: len)
  case (Suc n)
  have r: "peek inp (ref + Suc len) = Some (inp ! (ref + Suc len))" "peek inp (ip + Suc len) = Some (inp ! (ip + Suc len))"
    using Suc.prems by (simp_all add: peek_Some)
  show ?case
  proof (cases "inp ! (ref + Suc len) = inp ! (ip + Suc len)")
    case True
    then have m: "\<forall>k \<le> Suc len. inp ! (ref + k) = inp ! (ip + k)" using Suc.prems(3) by (auto simp: le_Suc_eq)
    have "ip + Suc len + n < length inp" using Suc.prems(1) by simp
    from Suc.IH [OF this Suc.prems(2) m] obtain len' b where
      "match_unrolled inp ref ip (Suc len) n = Some (len', b)" "Suc len \<le> len'" "len' \<le> Suc len + n"
      "if b then Suc len < len' \<and> (\<forall>k < len'. inp ! (ref + k) = inp ! (ip + k))
       else len' = Suc len + n \<and> (\<forall>k \<le> len'. inp ! (ref + k) = inp ! (ip + k))" by blast
    then show ?thesis using r True by (cases b) auto
  next
    case False
    then show ?thesis using r Suc.prems(3) by (auto simp: less_Suc_eq_le)
  qed
qed auto

lemma match_rest_correct:
  assumes "ip + max maxlen (len + 1) \<le> length inp" "ref < ip" "\<forall>k \<le> len. inp ! (ref + k) = inp ! (ip + k)"
  shows "\<exists>n. match_rest inp ref ip maxlen len = Some n \<and> len < n \<and> n \<le> max maxlen (len + 1) \<and>
    (\<forall>k < n. inp ! (ref + k) = inp ! (ip + k))"
  using assms
proof (induction inp ref ip maxlen len rule: match_rest.induct)
  case (1 inp ref ip maxlen len)
  show ?case
  proof (cases "Suc len < maxlen \<and> inp ! (ref + Suc len) = inp ! (ip + Suc len)")
    case True
    then have r: "peek inp (ref + Suc len) = Some (inp ! (ref + Suc len))" "peek inp (ip + Suc len) = Some (inp ! (ip + Suc len))"
      using "1.prems" by (simp_all add: peek_Some)
    have m: "\<forall>k \<le> Suc len. inp ! (ref + k) = inp ! (ip + k)" using "1.prems"(3) True by (auto simp: le_Suc_eq)
    have "ip + max maxlen (Suc len + 1) \<le> length inp" using "1.prems"(1) True by simp
    from "1.IH" [OF _ _ refl _ _ _ this "1.prems"(2) m] r True show ?thesis
      by (subst match_rest.simps) (auto simp: Let_def max_def split: if_splits)
  next
    case False
    then have "match_rest inp ref ip maxlen len = Some (Suc len)"
      using "1.prems" by (subst match_rest.simps) (simp add: Let_def peek_Some)
    then show ?thesis using "1.prems"(3) by (simp add: less_Suc_eq_le)
  qed
qed

lemma match_length_correct:
  assumes "ip + 2 < length inp" "ref < ip" "\<forall>k < 3. inp ! (ref + k) = inp ! (ip + k)"
  shows "\<exists>n. match_length inp ref ip = Some n \<and> 3 \<le> n \<and> n \<le> 264 \<and> ip + n \<le> length inp \<and>
    (\<forall>k < n. inp ! (ref + k) = inp ! (ip + k))"
proof -
  define maxlen where "maxlen = (if length inp - ip - 2 > 264 then 264 else length inp - ip - 2)"
  have m: "\<forall>k \<le> 2. inp ! (ref + k) = inp ! (ip + k)" using assms(3) by auto
  have eq: "match_length inp ref ip = do {
      (len, stop) \<leftarrow> (if maxlen > 16 then match_unrolled inp ref ip 2 16 else Some (2, False));
      if stop then Some len else match_rest inp ref ip maxlen len }"
    unfolding match_length_def Let_def maxlen_def by (rule refl)
  show ?thesis
  proof (cases "maxlen > 16")
    case True
    then have l: "ip + 2 + 16 < length inp" "maxlen \<le> 264" "ip + maxlen + 2 \<le> length inp"
      using assms(1) by (auto simp: maxlen_def split: if_splits)
    from match_unrolled_correct [OF l(1) assms(2) m] obtain len b where u:
      "match_unrolled inp ref ip 2 16 = Some (len, b)" "2 \<le> len" "len \<le> 18"
      "if b then 2 < len \<and> (\<forall>k < len. inp ! (ref + k) = inp ! (ip + k))
       else len = 18 \<and> (\<forall>k \<le> len. inp ! (ref + k) = inp ! (ip + k))" by auto
    show ?thesis
    proof (cases b)
      case True
      then show ?thesis using u l \<open>maxlen > 16\<close> eq by auto
    next
      case False
      then have "ip + max maxlen (len + 1) \<le> length inp" "\<forall>k \<le> len. inp ! (ref + k) = inp ! (ip + k)" "len = 18"
        using u l True by auto
      with match_rest_correct [OF this(1) assms(2) this(2)] show ?thesis
        using u(1) False l True eq by fastforce
    qed
  next
    case False
    then have l: "ip + max maxlen (2 + 1) \<le> length inp" using assms(1) by (auto simp: maxlen_def split: if_splits)
    from match_rest_correct [OF l assms(2) m] show ?thesis using False l eq by fastforce
  qed
qed

lemma reference_text:
  assumes "lzf_text [] xs (take ip inp)" "ref < ip" "ip - ref - 1 < 8192" "1 \<le> m" "m \<le> 262" "ip + (m + 2) \<le> length inp"
    "\<forall>k < m + 2. inp ! (ref + k) = inp ! (ip + k)"
  shows "lzf_text [] (xs @ ref_bytes (ip - ref - 1) m) (take (ip + (m + 2)) inp)"
proof -
  have "lzf_text (take ip inp) (ref_bytes (ip - ref - 1) m @ []) (take (ip + (m + 2)) inp)"
    using assms(2-6) lz_copy_match [OF assms(7,2,6)] by (intro lzf_text.reference) simp_all
  with assms(1) show ?thesis by (auto intro: lzf_text_append)
qed

lemma rehash_tail_correct:
  assumes "lzf_inv inp st" "lit st = 0" "2 \<le> lip st" "lip st + 2 < length inp"
  shows "\<exists>st'. rehash_tail inp st = Some st' \<and> lzf_inv inp st' \<and> lout st' = lout st"
proof -
  obtain i where i: "lip st = i + 2" using assms(3) by (metis add.commute le_Suc_ex)
  with assms show ?thesis by (simp add: rehash_tail_def FRST_def NEXT_def Let_def peek_Some lzf_inv_def)
qed

lemma compress_match_correct:
  assumes inv: "lzf_inv inp st" and ip: "lip st + 2 < length inp"
    and ref: "ref < lip st" "lip st - ref - 1 < 8192" "\<forall>k < 3. inp ! (ref + k) = inp ! (lip st + k)"
  shows "\<exists>st' nx. compress_match inp ref st = Some (st', nx) \<and> length (lout st') = length (lout st) \<and>
    (if nx = Full then length (lout st) < 2 * length inp + 4 else lzf_inv inp st' \<and> (nx = Break \<longrightarrow> length inp \<le> lip st' + 2))"
proof (cases "lop st + 3 + 1 \<ge> length (lout st) \<and> lop st - (if lit st = 0 then 1 else 0) + 3 + 1 \<ge> length (lout st)")
  case True
  then show ?thesis using inv ip by (auto simp: compress_match_def lzf_inv_def)
next
  case False
  define op where "op = lop st - (if lit st = 0 then 1 else 0)"
  have room: "op + 4 < length (lout st)" "lop st \<le> length (lout st)" and opi: "op \<le> 2 * lip st + 1"
    using False inv by (auto simp: op_def lzf_inv_def split: if_splits)
  obtain out1 where out1: "stop_run (lout st) (lop st) (lit st) = Some out1" "length out1 = length (lout st)"
      "lzf_text [] (take op out1) (take (lip st) inp)"
    using stop_run_correct [OF inv room(2)] by (auto simp: op_def)
  obtain n where n: "match_length inp ref (lip st) = Some n" "3 \<le> n" "n \<le> 264" "lip st + n \<le> length inp"
      "\<forall>k < n. inp ! (ref + k) = inp ! (lip st + k)" using match_length_correct [OF ip ref(1,3)] by blast
  then obtain m where nm: "n = m + 2" "1 \<le> m" "m \<le> 262" by (intro that [of "n - 2"]) simp_all
  note n = n(1,4,5) [unfolded nm(1)]
  let ?b = "ref_bytes (lip st - ref - 1) m"
  have len: "length ?b \<le> 3" "0 < length ?b" by (simp_all add: ref_bytes_def)
  define out2 where "out2 = take op out1 @ ?b @ drop (op + length ?b) out1"
  have p: "pokes out1 op ?b = Some out2" "length out2 = length (lout st)" "take (op + length ?b) out2 = take op out1 @ ?b"
    using room out1(2) len by (simp_all add: pokes_Some out2_def)
  define st' where "st' = st\<lparr>lip := lip st + (m + 2), lop := op + length ?b + 1, lit := 0, lout := out2\<rparr>"
  have "lzf_inv inp st'"
    using reference_text [OF out1(3) ref(1,2) nm(2,3) n(2,3)] p room len n opi by (simp add: lzf_inv_def st'_def)
  moreover have "compress_match inp ref st =
      (if lip st' + 2 \<ge> length inp then Some (st', Break) else do { st \<leftarrow> rehash_tail inp st'; Some (st, Again) })"
    using False out1(1) n(1) p(1) by (auto simp: compress_match_def Let_def op_def st'_def)
  moreover have "lit st' = 0" "2 \<le> lip st'" "lout st' = out2" by (simp_all add: st'_def)
  ultimately show ?thesis
    using p(2) rehash_tail_correct [of inp st']
    by (cases "lip st' + 2 \<ge> length inp") (auto simp: not_le intro!: exI [of _ Again])
qed

lemma compress_step_correct:
  assumes inv: "lzf_inv inp st" and ip: "lip st + 2 < length inp" and len: "length inp < 2 ^ 32"
  shows "\<exists>st' nx. compress_step inp st = Some (st', nx) \<and> length (lout st') = length (lout st) \<and>
    (if nx = Full then length (lout st) < 2 * length inp + 4 else lzf_inv inp st' \<and> (nx = Break \<longrightarrow> length inp \<le> lip st' + 2))"
proof -
  obtain h where h: "NEXT (hval st) inp (lip st) = Some h" using ip by (simp add: NEXT_def peek_Some)
  let ?ref = "unat (htab st (IDX h))"
  define st1 where "st1 = st\<lparr>hval := h, htab := (htab st)(IDX h := of_nat (lip st))\<rparr>"
  have st1: "lzf_inv inp st1" "lip st1 = lip st" "lop st1 = lop st" "lout st1 = lout st"
    using inv by (simp_all add: st1_def lzf_inv_def)
  have "?ref < 2 ^ 32" using unsigned_less [of "htab st (IDX h)"] by simp
  from match_found_correct [OF ip len this] obtain b where b: "match_found inp ?ref (lip st) = Some b"
    "b \<longrightarrow> ?ref < lip st \<and> lip st - ?ref - 1 < 8192 \<and> (\<forall>k < 3. inp ! (?ref + k) = inp ! (lip st + k))" by blast
  have step: "compress_step inp st = (if b then compress_match inp ?ref st1
      else if lop st \<ge> length (lout st) then Some (st1, Full) else do { st \<leftarrow> put_literal inp st1; Some (st, Again) })"
    using h b(1) by (simp add: compress_step_def Let_def st1_def)
  show ?thesis
  proof (cases b)
    case True
    then have "compress_step inp st = compress_match inp ?ref st1" using step by simp
    then show ?thesis
      using compress_match_correct [of inp st1 ?ref, unfolded st1(2-4)] st1(1) ip b(2) True by presburger
  next
    case False
    then show ?thesis
      using put_literal_correct [of inp st1] st1 ip step
      by (cases "lop st \<ge> length (lout st)") (auto simp: lzf_inv_def not_le intro!: exI [of _ Again])
  qed
qed

lemma compress_loop_correct:
  assumes "lzf_inv inp st" "length inp < 2 ^ 32"
  shows "\<exists>st' full. compress_loop inp st = Some (st', full) \<and> length (lout st') = length (lout st) \<and>
    (if full then length (lout st) < 2 * length inp + 4 else lzf_inv inp st' \<and> length inp \<le> lip st' + 2)"
  using assms
proof (induction inp st rule: compress_loop.induct)
  case (1 inp st)
  show ?case
  proof (cases "lip st + 2 < length inp")
    case ip: True
    from compress_step_correct [OF "1.prems"(1) ip "1.prems"(2)] obtain st' nx where
      s: "compress_step inp st = Some (st', nx)" "length (lout st') = length (lout st)"
        "if nx = Full then length (lout st) < 2 * length inp + 4 else lzf_inv inp st' \<and> (nx = Break \<longrightarrow> length inp \<le> lip st' + 2)"
      by blast
    show ?thesis
    proof (cases nx)
      case Again
      then have "compress_loop inp st = compress_loop inp st'" using s(1) ip by (subst compress_loop.simps) simp
      then show ?thesis using "1.IH" [OF ip s(1) refl Again] "1.prems"(2) s(3) Again unfolding s(2) by simp
    qed (use s ip in \<open>subst compress_loop.simps; auto\<close>)+
  next
    case False
    then show ?thesis using "1.prems" by (subst compress_loop.simps) auto
  qed
qed

lemma literal_tail_correct:
  assumes "lzf_inv inp st" "r = length inp - lip st" "r < 32"
    "lop st + r + (if lit st + r \<ge> 32 then 1 else 0) \<le> length (lout st)"
  shows "\<exists>st'. literal_tail inp st = Some st' \<and> lzf_inv inp st' \<and> lip st' = length inp \<and>
    length (lout st') = length (lout st) \<and> lop st' \<le> length (lout st')"
  using assms
proof (induction r arbitrary: st)
  case 0
  then have "lip st = length inp" by (simp add: lzf_inv_def)
  with 0 show ?case by (subst literal_tail.simps) simp
next
  case (Suc r)
  have more: "lip st < length inp" "lop st < length (lout st)" using Suc.prems(2,4) by simp_all
  from put_literal_correct [OF Suc.prems(1) more] obtain st' where
    st': "put_literal inp st = Some st'" "lzf_inv inp st'" "lip st' = lip st + 1" "length (lout st') = length (lout st)"
      "if lit st + 1 = 32 then lit st' = 0 \<and> lop st' = lop st + 2 else lit st' = lit st + 1 \<and> lop st' = lop st + 1"
    by blast
  have "lop st' + r + (if lit st' + r \<ge> 32 then 1 else 0) \<le> length (lout st')"
    using st'(4,5) Suc.prems(3,4) by (auto split: if_splits)
  moreover have "r = length inp - lip st'" "r < 32" using Suc.prems(2,3) st'(3) by simp_all
  moreover have "literal_tail inp st = literal_tail inp st'" using st'(1) more(1) by (subst literal_tail.simps) simp
  ultimately show ?case using Suc.IH [OF st'(2)] unfolding st'(4) by metis
qed

lemma lzf_compress_text:
  assumes "2 \<le> length inp" "length inp < 2 ^ 32"
  shows "\<exists>out' n. lzf_compress tab inp out = Some (out', n) \<and> length out' = length out \<and> n \<le> length out \<and>
    (n \<noteq> 0 \<longrightarrow> lzf_text [] (take n out') inp) \<and> (2 * length inp + 4 \<le> length out \<longrightarrow> n \<noteq> 0)"
proof (cases "out = []")
  case False
  have "peek inp 0 = Some (inp ! 0)" "peek inp 1 = Some (inp ! 1)" using assms(1) by (auto intro!: peek_Some)
  then obtain h where h: "FRST inp 0 = Some h" by (simp add: FRST_def)
  let ?st = "\<lparr>lip = 0, lop = 1, lit = 0, hval = h, htab = tab, lout = out\<rparr>"
  have "lzf_inv inp ?st" using False by (simp add: lzf_inv_def)
  from compress_loop_correct [OF this assms(2), unfolded lzf_state.simps] obtain st full where
    l: "compress_loop inp ?st = Some (st, full)" "length (lout st) = length out"
      "if full then length out < 2 * length inp + 4 else lzf_inv inp st \<and> length inp \<le> lip st + 2" by blast
  have eq: "lzf_compress tab inp out = (if full \<or> lop st + 3 > length (lout st) then Some (lout st, 0)
      else do { st \<leftarrow> literal_tail inp st; out \<leftarrow> stop_run (lout st) (lop st) (lit st);
        Some (out, lop st - (if lit st = 0 then 1 else 0)) })"
    using False assms(1) h l(1) by (auto simp: lzf_compress_def)
  show ?thesis
  proof (cases "full \<or> lop st + 3 > length (lout st)")
    case True
    have "lop st \<le> 2 * length inp + 1" if "\<not> full" using l(3) that by (auto simp: lzf_inv_def)
    then have "length out < 2 * length inp + 4" using True l(2,3) by (cases full) auto
    then show ?thesis using True eq l(2) by simp
  next
    case ok: False
    then have inv: "lzf_inv inp st" "length inp \<le> lip st + 2" using l(3) by auto
    have "lop st + (length inp - lip st) + (if lit st + (length inp - lip st) \<ge> 32 then 1 else 0) \<le> length (lout st)"
      using ok inv(2) by auto
    moreover have "length inp - lip st < 32" using inv(2) by simp
    ultimately obtain st' where
      st': "literal_tail inp st = Some st'" "lzf_inv inp st'" "lip st' = length inp"
        "length (lout st') = length (lout st)" "lop st' \<le> length (lout st')"
      using literal_tail_correct [OF inv(1) refl] by blast
    from stop_run_correct [OF st'(2,5)] obtain out' where
      out': "stop_run (lout st') (lop st') (lit st') = Some out'" "length out' = length (lout st')"
        "lzf_text [] (take (lop st' - (if lit st' = 0 then 1 else 0)) out') inp" using st'(3) by auto
    have "lop st' - (if lit st' = 0 then 1 else 0) \<noteq> 0"
    proof
      assume "lop st' - (if lit st' = 0 then 1 else 0) = 0"
      with out'(3) have "inp = []" by simp
      with assms(1) show False by simp
    qed
    then show ?thesis using eq ok st' out' l(2) by auto
  qed
qed (simp add: lzf_compress_def)

lemma lzf_decompress_text:
  assumes "lzf_text [] xs r" "xs \<noteq> []" "length r \<le> length buf"
  shows "\<exists>buf'. lzf_decompress xs buf = Some (buf', Inr (length r)) \<and> length buf' = length buf \<and> take (length r) buf' = r"
  using decompress_text [OF assms(1,2) _ assms(3), of "[]"] by (simp add: lzf_decompress_def)

text \<open>
  C5: \<open>lzf_compress\<close> stays inside both buffers and writes at most \<open>out_len\<close> bytes, whatever the uninitialised hash
  table contains. When it returns a length, \<open>lzf_decompress\<close> into a buffer at least as long as the input turns these bytes
  back into the input, and it does return a length when the output has room for twice the input and 4 bytes. The input has at
  least two bytes and less than 4 GB.
\<close>

theorem lzf_roundtrip:
  assumes "2 \<le> length inp" "length inp < 2 ^ 32" "length inp \<le> length buf"
  shows "\<exists>out' n. lzf_compress tab inp out = Some (out', n) \<and> length out' = length out \<and> n \<le> length out \<and>
    (n \<noteq> 0 \<longrightarrow> (\<exists>buf'. lzf_decompress (take n out') buf = Some (buf', Inr (length inp)) \<and> take (length inp) buf' = inp)) \<and>
    (2 * length inp + 4 \<le> length out \<longrightarrow> n \<noteq> 0)"
proof -
  obtain out' n where c: "lzf_compress tab inp out = Some (out', n)" "length out' = length out" "n \<le> length out"
      "n \<noteq> 0 \<longrightarrow> lzf_text [] (take n out') inp" "2 * length inp + 4 \<le> length out \<longrightarrow> n \<noteq> 0"
    using lzf_compress_text [OF assms(1,2)] by blast
  have "\<exists>buf'. lzf_decompress (take n out') buf = Some (buf', Inr (length inp)) \<and> take (length inp) buf' = inp" if "n \<noteq> 0"
  proof -
    have "take n out' \<noteq> []" using that c(2,3) by (cases out') auto
    then show ?thesis using lzf_decompress_text [of "take n out'" inp buf] c(4) that assms(3) by blast
  qed
  then show ?thesis using c by blast
qed

theorem lzf_roundtrip_witness:
  "\<exists>out' n. lzf_compress (\<lambda>_. 1) (replicate 100 97) (replicate 300 0) = Some (out', n) \<and> n \<noteq> 0 \<and>
    (\<exists>buf'. lzf_decompress (take n out') (replicate 100 0) = Some (buf', Inr 100) \<and> take 100 buf' = replicate 100 97)"
  using lzf_roundtrip [of "replicate 100 97" "replicate 100 0" "\<lambda>_. 1" "replicate 300 0"] by auto

text \<open>
  C39: \<open>lzf_decompress\<close> stays inside both buffers on every non-empty input, corrupted input included, and
  ends with an error or with a length within the output buffer.
\<close>

theorem lzf_decompress_safe:
  assumes "inp \<noteq> []"
  shows "\<exists>out' r. lzf_decompress inp out = Some (out', r) \<and> length out' = length out \<and>
    (case r of Inl _ \<Rightarrow> True | Inr n \<Rightarrow> n \<le> length out)"
  using decompress_loop_safe [of 0 inp 0 out] assms by (simp add: lzf_decompress_def)

theorem lzf_decompress_safe_witness:
  "\<exists>out' r. lzf_decompress [224, 255] [0, 0] = Some (out', r) \<and> length out' = 2"
  using lzf_decompress_safe [of "[224, 255]" "[0, 0]"] by auto

end
