(* ===== verification/Rio.thy ===== *)
theory Rio
  imports Crc
begin

text \<open>
  Streams (\<open>rio.h\<close>, \<open>rio.c\<close>) on a memory buffer, and the byte order conversions of \<open>endianconv.c\<close>. A read or write
  is cut into chunks, and each chunk enters the checksum if there is one. The outcome does not depend on the size of
  the chunks. Files and sets of sockets, the other targets of a stream, are system calls and are not modelled.
\<close>

subsection \<open>Byte order\<close>

definition memswap :: "bytes \<Rightarrow> nat \<Rightarrow> nat \<Rightarrow> bytes option" where
  "memswap x i j = do { a \<leftarrow> peek x i; b \<leftarrow> peek x j; Some (x[i := b, j := a]) }"

definition memrev16 :: "bytes \<Rightarrow> bytes option" where
  "memrev16 x = memswap x 0 1"

definition memrev32 :: "bytes \<Rightarrow> bytes option" where
  "memrev32 x = do { x \<leftarrow> memswap x 0 3; memswap x 1 2 }"

definition memrev64 :: "bytes \<Rightarrow> bytes option" where
  "memrev64 x = do { x \<leftarrow> memswap x 0 7; x \<leftarrow> memswap x 1 6; x \<leftarrow> memswap x 2 5; memswap x 3 4 }"

text \<open>The conversions of a number reverse its bytes in memory, which is little-endian.\<close>

definition intrev16 :: "u16 \<Rightarrow> u16 option" where
  "intrev16 v = map_option (\<lambda>x. of_nat (le_nat x)) (memrev16 (le_bytes 2 (uint v)))"

definition intrev32 :: "u32 \<Rightarrow> u32 option" where
  "intrev32 v = map_option (\<lambda>x. of_nat (le_nat x)) (memrev32 (le_bytes 4 (uint v)))"

definition intrev64 :: "u64 \<Rightarrow> u64 option" where
  "intrev64 v = map_option (\<lambda>x. of_nat (le_nat x)) (memrev64 (le_bytes 8 (uint v)))"

subsection \<open>Streams\<close>

text \<open>\<open>has_cksum\<close> says that \<open>update_cksum\<close> is \<open>rioGenericUpdateChecksum\<close> and not \<open>NULL\<close>.\<close>

record rio =
  io_ptr :: bytes
  io_pos :: nat
  has_cksum :: bool
  cksum :: u64
  processed_bytes :: u64
  max_processing_chunk :: nat

definition rioInitWithBuffer :: "bytes \<Rightarrow> rio" where
  "rioInitWithBuffer s =
     \<lparr>io_ptr = s, io_pos = 0, has_cksum = False, cksum = 0, processed_bytes = 0, max_processing_chunk = 0\<rparr>"

definition rioGenericUpdateChecksum :: "rio \<Rightarrow> bytes \<Rightarrow> rio" where
  "rioGenericUpdateChecksum r buf = r\<lparr>cksum := crc64 (cksum r) buf\<rparr>"

definition update_cksum :: "rio \<Rightarrow> bytes \<Rightarrow> rio" where
  "update_cksum r buf = (if has_cksum r then rioGenericUpdateChecksum r buf else r)"

definition rioBufferWrite :: "rio \<Rightarrow> bytes \<Rightarrow> rio \<times> bool" where
  "rioBufferWrite r buf = (r\<lparr>io_ptr := io_ptr r @ buf, io_pos := io_pos r + length buf\<rparr>, True)"

text \<open>The difference is unsigned. The inner \<^term>\<open>None\<close> is the result 0.\<close>

definition rioBufferRead :: "rio \<Rightarrow> nat \<Rightarrow> (rio \<times> bytes option) option" where
  "rioBufferRead r len =
     (if (int (length (io_ptr r)) - int (io_pos r)) mod 2 ^ 64 < int len then Some (r, None)
      else do {
        buf \<leftarrow> peeks (io_ptr r) (io_pos r) len;
        Some (r\<lparr>io_pos := io_pos r + len\<rparr>, Some buf) })"

definition rioBufferTell :: "rio \<Rightarrow> nat" where
  "rioBufferTell r = io_pos r"

definition chunk :: "rio \<Rightarrow> nat \<Rightarrow> nat" where
  "chunk r len =
     (if max_processing_chunk r \<noteq> 0 \<and> max_processing_chunk r < len then max_processing_chunk r else len)"

function rioWrite :: "rio \<Rightarrow> bytes \<Rightarrow> rio \<times> bool" where
  "rioWrite r buf =
     (if length buf = 0 then (r, True)
      else
        let n = chunk r (length buf); r = update_cksum r (take n buf); (r, ok) = rioBufferWrite r (take n buf) in
        if \<not> ok then (r, False)
        else rioWrite (r\<lparr>processed_bytes := processed_bytes r + of_nat n\<rparr>) (drop n buf))"
  by pat_completeness auto
termination by (relation "measure (\<lambda>(r, buf). length buf)") (auto simp: chunk_def split: if_splits)

function rioRead :: "rio \<Rightarrow> nat \<Rightarrow> (rio \<times> bytes option) option" where
  "rioRead r len =
     (if len = 0 then Some (r, Some [])
      else
        let n = chunk r len in
        case rioBufferRead r n of
          None \<Rightarrow> None
        | Some (r, None) \<Rightarrow> Some (r, None)
        | Some (r, Some buf) \<Rightarrow>
            let r = update_cksum r buf in
            case rioRead (r\<lparr>processed_bytes := processed_bytes r + of_nat n\<rparr>) (len - n) of
              None \<Rightarrow> None
            | Some (r, rest) \<Rightarrow> Some (r, map_option (\<lambda>xs. buf @ xs) rest))"
  by pat_completeness auto
termination by (relation "measure (\<lambda>(r, len). len)") (auto simp: chunk_def)

declare rioWrite.simps [simp del] rioRead.simps [simp del]

subsection \<open>Byte order: reversal\<close>

lemma memrev16_rev: "length x = 2 \<Longrightarrow> memrev16 x = Some (rev x)"
  by (auto simp: memrev16_def memswap_def peek_def numeral_2_eq_2 length_Suc_conv)

lemma memrev32_rev: "length x = 4 \<Longrightarrow> memrev32 x = Some (rev x)"
  by (auto simp: memrev32_def memswap_def peek_def eval_nat_numeral length_Suc_conv)

lemma memrev64_rev: "length x = 8 \<Longrightarrow> memrev64 x = Some (rev x)"
  by (auto simp: memrev64_def memswap_def peek_def eval_nat_numeral length_Suc_conv)

subsection \<open>Streams: writing and reading\<close>

definition rio_put :: "rio \<Rightarrow> bytes \<Rightarrow> rio" where
  "rio_put r xs = r\<lparr>io_ptr := io_ptr r @ xs, io_pos := io_pos r + length xs,
     cksum := (if has_cksum r then crc64 (cksum r) xs else cksum r),
     processed_bytes := processed_bytes r + of_nat (length xs)\<rparr>"

definition rio_skip :: "rio \<Rightarrow> bytes \<Rightarrow> rio" where
  "rio_skip r xs = r\<lparr>io_pos := io_pos r + length xs,
     cksum := (if has_cksum r then crc64 (cksum r) xs else cksum r),
     processed_bytes := processed_bytes r + of_nat (length xs)\<rparr>"

text \<open>The bytes \<open>xs\<close> come next in the stream.\<close>

definition rio_next :: "rio \<Rightarrow> bytes \<Rightarrow> bool" where
  "rio_next r xs \<longleftrightarrow> io_pos r \<le> length (io_ptr r) \<and> length (io_ptr r) < 2 ^ 63 \<and>
     (\<exists>rest. drop (io_pos r) (io_ptr r) = xs @ rest)"

lemma rio_put_put [simp]: "rio_put (rio_put r xs) ys = rio_put r (xs @ ys)"
  by (simp add: rio_put_def crc64_append add.assoc)

lemma rio_skip_skip [simp]: "rio_skip (rio_skip r xs) ys = rio_skip r (xs @ ys)"
  by (simp add: rio_skip_def crc64_append add.assoc)

lemma rio_put_Nil [simp]: "rio_put r [] = r"
  by (simp add: rio_put_def)

lemma rio_skip_Nil [simp]: "rio_skip r [] = r"
  by (simp add: rio_skip_def)

lemma chunk_bounds: "0 < len \<Longrightarrow> 0 < chunk r len \<and> chunk r len \<le> len"
  by (simp add: chunk_def)

lemma rioWrite_buffer: "rioWrite r buf = (rio_put r buf, True)"
proof (induction r buf rule: rioWrite.induct)
  case (1 r buf)
  show ?case
  proof (cases "length buf = 0")
    case True
    then show ?thesis by (subst rioWrite.simps) simp
  next
    case False
    let ?n = "chunk r (length buf)"
    have n: "?n \<le> length buf" using chunk_bounds [of "length buf" r] False by simp
    define q where "q = fst (rioBufferWrite (update_cksum r (take ?n buf)) (take ?n buf))"
    have q: "q\<lparr>processed_bytes := processed_bytes q + of_nat ?n\<rparr> = rio_put r (take ?n buf)"
      using n by (simp add: q_def rioBufferWrite_def update_cksum_def rioGenericUpdateChecksum_def rio_put_def)
    have "rioWrite r buf = rioWrite (rio_put r (take ?n buf)) (drop ?n buf)"
      unfolding q [symmetric] q_def using False by (subst rioWrite.simps) (simp add: Let_def rioBufferWrite_def)
    also have "\<dots> = (rio_put (rio_put r (take ?n buf)) (drop ?n buf), True)"
      unfolding q [symmetric] q_def using "1.IH" [OF False refl refl refl] by (simp add: rioBufferWrite_def)
    finally show ?thesis by simp
  qed
qed

lemma rio_next_append: "rio_next r (xs @ ys) \<Longrightarrow> rio_next r xs"
  by (auto simp: rio_next_def)

lemma rio_next_skip: "rio_next r (xs @ ys) \<Longrightarrow> rio_next (rio_skip r xs) ys"
proof -
  assume "rio_next r (xs @ ys)"
  then obtain rest where r: "io_pos r \<le> length (io_ptr r)" "length (io_ptr r) < 2 ^ 63"
      "drop (io_pos r) (io_ptr r) = xs @ ys @ rest" by (auto simp: rio_next_def)
  have "length (drop (io_pos r) (io_ptr r)) = length xs + length (ys @ rest)" by (simp add: r(3))
  moreover have "drop (length xs) (drop (io_pos r) (io_ptr r)) = ys @ rest" by (simp add: r(3))
  ultimately show ?thesis using r(1,2) by (auto simp: rio_next_def rio_skip_def add.commute)
qed

lemma rioBufferRead_next:
  assumes "rio_next r xs"
  shows "rioBufferRead r (length xs) = Some (r\<lparr>io_pos := io_pos r + length xs\<rparr>, Some xs)"
proof -
  obtain rest where r: "io_pos r \<le> length (io_ptr r)" "length (io_ptr r) < 2 ^ 63"
      "drop (io_pos r) (io_ptr r) = xs @ rest" using assms by (auto simp: rio_next_def)
  have len: "length (io_ptr r) = io_pos r + length xs + length rest"
    using arg_cong [OF r(3), of length] r(1) by simp
  then have "(int (length (io_ptr r)) - int (io_pos r)) mod 2 ^ 64 = int (length xs + length rest)" using r(2) by simp
  then show ?thesis using len r(3) by (simp add: rioBufferRead_def peeks_Some)
qed

lemma rioRead_next:
  assumes "rio_next r xs"
  shows "rioRead r (length xs) = Some (rio_skip r xs, Some xs)"
  using assms
proof (induction "length xs" arbitrary: r xs rule: less_induct)
  case less
  show ?case
  proof (cases "length xs = 0")
    case True
    then show ?thesis by (subst rioRead.simps) simp
  next
    case False
    define n where "n = chunk r (length xs)"
    have n: "n \<le> length xs" "0 < n" using chunk_bounds [of "length xs" r] False by (simp_all add: n_def)
    let ?a = "take n xs" and ?b = "drop n xs"
    have a: "rio_next r ?a" "length ?a = n" and b: "rio_next (rio_skip r ?a) ?b"
      using less.prems rio_next_append [of r ?a ?b] rio_next_skip [of r ?a ?b] n by simp_all
    define q where "q = update_cksum (r\<lparr>io_pos := io_pos r + n\<rparr>) ?a"
    have q: "q\<lparr>processed_bytes := processed_bytes q + of_nat n\<rparr> = rio_skip r ?a"
      using a(2) by (simp add: q_def update_cksum_def rioGenericUpdateChecksum_def rio_skip_def)
    have "rioRead r (length xs) = (case rioRead (rio_skip r ?a) (length xs - n) of
        None \<Rightarrow> None | Some (r, rest) \<Rightarrow> Some (r, map_option (\<lambda>xs. ?a @ xs) rest))"
      using rioBufferRead_next [OF a(1), unfolded a(2)] False q
      by (subst rioRead.simps) (simp add: Let_def flip: n_def q_def)
    then show ?thesis using less.hyps [OF _ b] n False by simp
  qed
qed

end
