(* ===== verification/Rdb_String.thy ===== *)
theory Rdb_String
  imports Rio Lzf Util Sds_Num
begin

text \<open>
  Lengths and strings in dump files (\<open>rdb.c\<close>). A string is saved as a small integer, compressed by LZF, or verbatim
  behind its length, whichever applies first. Loading reads back the string that was saved, in every form in which
  the caller may ask for it. A stream of \<^term>\<open>None\<close> is the \<open>NULL\<close> that callers pass to learn the size only.
\<close>

subsection \<open>Definitions: lengths\<close>

text \<open>
  A writer returns the stream and the number of bytes written, or -1. The number for raw bytes is an \<open>int\<close>, to which
  the length is converted. \<^term>\<open>None\<close> is a memory fault.
\<close>

type_synonym written = "(rio option \<times> int) option"

definition rdbWriteRaw :: "rio option \<Rightarrow> bytes \<Rightarrow> written" where
  "rdbWriteRaw rdb p = (case rdb of
     None \<Rightarrow> Some (rdb, sint (of_nat (length p) :: 32 word))
   | Some r \<Rightarrow> let (r, ok) = rioWrite r p in Some (Some r, if ok then sint (of_nat (length p) :: 32 word) else - 1))"

text \<open>The next write after a successful one; the numbers of bytes are added.\<close>

definition then_write :: "written \<Rightarrow> (rio option \<Rightarrow> written) \<Rightarrow> written" where
  "then_write w k = do {
     (rdb, n) \<leftarrow> w;
     if n = - 1 then Some (rdb, - 1)
     else do { (rdb, m) \<leftarrow> k rdb; Some (rdb, if m = - 1 then - 1 else n + m) } }"

definition rdbSaveType :: "rio option \<Rightarrow> u8 \<Rightarrow> written" where
  "rdbSaveType rdb type = rdbWriteRaw rdb [type]"

text \<open>
  \<open>htonl\<close> and \<open>htonu64\<close> reverse the bytes of the number on a little-endian machine.
\<close>

definition rdbSaveLen :: "rio option \<Rightarrow> u64 \<Rightarrow> written" where
  "rdbSaveLen rdb len =
     (if len < 64 then rdbWriteRaw rdb [ucast (len AND 0xFF)]
      else if len < 16384 then
        rdbWriteRaw rdb [ucast (drop_bit 8 len AND 0xFF) OR 0x40, ucast (len AND 0xFF)]
      else if len \<le> 0xFFFFFFFF then do {
        len32 \<leftarrow> intrev32 (ucast len);
        then_write (rdbWriteRaw rdb [0x80]) (\<lambda>rdb. rdbWriteRaw rdb (le_bytes 4 (uint len32))) }
      else do {
        len \<leftarrow> intrev64 len;
        then_write (rdbWriteRaw rdb [0x81]) (\<lambda>rdb. rdbWriteRaw rdb (le_bytes 8 (uint len))) })"

text \<open>
  A reader returns the stream and the result, \<^term>\<open>None\<close> for an error of the stream. Corrupted data ends the
  process: \<^term>\<open>None\<close> outside.
\<close>

definition rdbLoadType :: "rio \<Rightarrow> (rio \<times> u8 option) option" where
  "rdbLoadType rdb = do {
     (rdb, buf) \<leftarrow> rioRead rdb 1;
     case buf of None \<Rightarrow> Some (rdb, None) | Some b \<Rightarrow> Some (rdb, Some (b ! 0)) }"

definition rdbLoadLenByRef :: "rio \<Rightarrow> (rio \<times> (bool \<times> u64) option) option" where
  "rdbLoadLenByRef rdb = do {
     (rdb, buf) \<leftarrow> rioRead rdb 1;
     case buf of
       None \<Rightarrow> Some (rdb, None)
     | Some b0 \<Rightarrow>
         let c = b0 ! 0; type = drop_bit 6 (c AND 0xC0) in
         if type = 3 then Some (rdb, Some (True, ucast (c AND 0x3F)))
         else if type = 0 then Some (rdb, Some (False, ucast (c AND 0x3F)))
         else if type = 1 then do {
           (rdb, buf) \<leftarrow> rioRead rdb 1;
           case buf of
             None \<Rightarrow> Some (rdb, None)
           | Some b1 \<Rightarrow> Some (rdb, Some (False, push_bit 8 (ucast (c AND 0x3F)) OR ucast (b1 ! 0))) }
         else if c = 0x80 then do {
           (rdb, buf) \<leftarrow> rioRead rdb 4;
           case buf of
             None \<Rightarrow> Some (rdb, None)
           | Some b \<Rightarrow> do { len \<leftarrow> intrev32 (of_nat (le_nat b)); Some (rdb, Some (False, ucast len)) } }
         else if c = 0x81 then do {
           (rdb, buf) \<leftarrow> rioRead rdb 8;
           case buf of
             None \<Rightarrow> Some (rdb, None)
           | Some b \<Rightarrow> do { len \<leftarrow> intrev64 (of_nat (le_nat b)); Some (rdb, Some (False, len)) } }
         else None }"

abbreviation (input) RDB_LENERR :: u64 where "RDB_LENERR \<equiv> 0xFFFFFFFFFFFFFFFF"

definition rdbLoadLen :: "rio \<Rightarrow> (rio \<times> bool \<times> u64) option" where
  "rdbLoadLen rdb = do {
     (rdb, r) \<leftarrow> rdbLoadLenByRef rdb;
     case r of None \<Rightarrow> Some (rdb, False, RDB_LENERR) | Some (isencoded, len) \<Rightarrow> Some (rdb, isencoded, len) }"

subsection \<open>Definitions: integers\<close>

text \<open>The bytes stored in \<open>enc\<close>; none for the result 0.\<close>

definition rdbEncodeInteger :: "i64 \<Rightarrow> bytes" where
  "rdbEncodeInteger v =
     (if sint v \<ge> - (2 ^ 7) \<and> sint v \<le> 2 ^ 7 - 1 then [0xC0, ucast v]
      else if sint v \<ge> - (2 ^ 15) \<and> sint v \<le> 2 ^ 15 - 1 then [0xC1, ucast v, ucast (signed_drop_bit 8 v)]
      else if sint v \<ge> - (2 ^ 31) \<and> sint v \<le> 2 ^ 31 - 1 then
        [0xC2, ucast v, ucast (signed_drop_bit 8 v), ucast (signed_drop_bit 16 v), ucast (signed_drop_bit 24 v)]
      else [])"

text \<open>What a loader returns: a plain string, an \<open>sds\<close> string or an object.\<close>

datatype loaded = PlainStr bytes | SdsStr bytes | Obj string_robj

text \<open>\<open>RDB_LOAD_ENC\<close>, \<open>RDB_LOAD_PLAIN\<close> and \<open>RDB_LOAD_SDS\<close>.\<close>

definition load_enc :: "u32 \<Rightarrow> bool" where "load_enc flags \<longleftrightarrow> flags AND 1 \<noteq> 0"
definition load_plain :: "u32 \<Rightarrow> bool" where "load_plain flags \<longleftrightarrow> flags AND 2 \<noteq> 0"
definition load_sds :: "u32 \<Rightarrow> bool" where "load_sds flags \<longleftrightarrow> flags AND 4 \<noteq> 0"

text \<open>
  The server's configuration and indeterminate memory: \<open>server.rdb_compression\<close>, local arrays, the hash table of the
  compressor and fresh allocations.
\<close>

record rdb_env =
  rdb_compression :: bool
  buf_junk :: "nat \<Rightarrow> u8"
  lzf_junk :: "nat \<Rightarrow> u32"
  malloc_junk :: "nat \<Rightarrow> u8"

text \<open>\<open>long\<close> and \<open>long long\<close> are the same type, so the range test always holds.\<close>

definition createStringObjectFromLongLong :: "i64 \<Rightarrow> string_robj" where
  "createStringObjectFromLongLong v = IntEnc v"

definition load_integer :: "rio \<Rightarrow> u64 \<Rightarrow> (rio \<times> i64 option) option" where
  "load_integer rdb enctype =
     (if enctype = 0 then do {
        (rdb, enc) \<leftarrow> rioRead rdb 1;
        Some (rdb, map_option (\<lambda>enc. scast (enc ! 0)) enc) }
      else if enctype = 1 then do {
        (rdb, enc) \<leftarrow> rioRead rdb 2;
        Some (rdb, map_option (\<lambda>enc. scast (ucast (enc ! 0) OR push_bit 8 (ucast (enc ! 1)) :: u16)) enc) }
      else if enctype = 2 then do {
        (rdb, enc) \<leftarrow> rioRead rdb 4;
        Some (rdb, map_option (\<lambda>enc. scast (ucast (enc ! 0) OR push_bit 8 (ucast (enc ! 1)) OR
          push_bit 16 (ucast (enc ! 2)) OR push_bit 24 (ucast (enc ! 3)) :: u32)) enc) }
      else None)"

definition rdbLoadIntegerObject :: "rdb_env \<Rightarrow> rio \<Rightarrow> u64 \<Rightarrow> u32 \<Rightarrow> (rio \<times> loaded option) option" where
  "rdbLoadIntegerObject env rdb enctype flags = do {
     (rdb, r) \<leftarrow> load_integer rdb enctype;
     case r of
       None \<Rightarrow> Some (rdb, None)
     | Some v \<Rightarrow>
         if load_plain flags \<or> load_sds flags then do {
           (len, buf) \<leftarrow> ll2string (map (buf_junk env) [0..<21]) 21 v;
           p \<leftarrow> peeks buf 0 len;
           Some (rdb, Some (if load_plain flags then PlainStr p else SdsStr p)) }
         else if load_enc flags then Some (rdb, Some (Obj (createStringObjectFromLongLong v)))
         else do {
           s \<leftarrow> sdsfromlonglong (map (buf_junk env) [0..<21]) v;
           Some (rdb, Some (Obj (StrEnc s))) } }"

text \<open>
  \<open>strtoll (s, &endptr, 10)\<close> of the C library on the string up to its terminator: the value, saturated, and the position of
  \<open>endptr\<close>, which is the start when there are no digits.
\<close>

definition is_space :: "u8 \<Rightarrow> bool" where
  "is_space c \<longleftrightarrow> c = 32 \<or> (9 \<le> c \<and> c \<le> 13)"

definition strtoll :: "bytes \<Rightarrow> i64 \<times> nat" where
  "strtoll s =
     (let t = dropWhile is_space s;
          signed = t \<noteq> [] \<and> (hd t = 43 \<or> hd t = 45);
          negative = signed \<and> hd t = 45;
          digits = takeWhile is_digit (if signed then tl t else t);
          n = dval 0 digits
      in if digits = [] then (0, 0)
         else (if negative then (if n > 2 ^ 63 then LLONG_MIN else - of_nat n)
               else (if n > 2 ^ 63 - 1 then LLONG_MAX else of_nat n),
               length (takeWhile is_space s) + (if signed then 1 else 0) + length digits))"

definition rdbTryIntegerEncoding :: "rdb_env \<Rightarrow> bytes \<Rightarrow> bytes option" where
  "rdbTryIntegerEncoding env s = do {
     let (v, endptr) = strtoll s;
     c \<leftarrow> peek (s @ [0]) endptr;
     if c \<noteq> 0 then Some []
     else do {
       (len, buf) \<leftarrow> ll2string (map (buf_junk env) [0..<32]) 32 v;
       if takeWhile (\<lambda>c. c \<noteq> 0) buf \<noteq> s then Some [] else Some (rdbEncodeInteger v) } }"

subsection \<open>Definitions: strings\<close>

definition rdbSaveLzfBlob :: "rio option \<Rightarrow> bytes \<Rightarrow> u64 \<Rightarrow> written" where
  "rdbSaveLzfBlob rdb data original_len =
     then_write (rdbWriteRaw rdb [0xC3]) (\<lambda>rdb.
       then_write (rdbSaveLen rdb (of_nat (length data))) (\<lambda>rdb.
         then_write (rdbSaveLen rdb original_len) (\<lambda>rdb. rdbWriteRaw rdb data)))"

text \<open>
  The lengths given to the compressor and the decompressor are \<open>unsigned int\<close>. The number 0 says that the string cannot be compressed.
\<close>

definition rdbSaveLzfStringObject :: "rdb_env \<Rightarrow> rio option \<Rightarrow> bytes \<Rightarrow> written" where
  "rdbSaveLzfStringObject env rdb s =
     (if length s \<le> 4 then Some (rdb, 0)
      else do {
        let outlen = length s - 4;
        (out, comprlen) \<leftarrow> lzf_compress (lzf_junk env) (take (length s mod 2 ^ 32) s)
          (map (malloc_junk env) [0..<outlen mod 2 ^ 32]);
        if comprlen = 0 then Some (rdb, 0)
        else do {
          data \<leftarrow> peeks out 0 comprlen;
          rdbSaveLzfBlob rdb data (of_nat (length s)) } })"

definition rdbLoadLzfStringObject :: "rdb_env \<Rightarrow> rio \<Rightarrow> u32 \<Rightarrow> (rio \<times> loaded option) option" where
  "rdbLoadLzfStringObject env rdb flags = do {
     (rdb, _, clen) \<leftarrow> rdbLoadLen rdb;
     if clen = RDB_LENERR then Some (rdb, None)
     else do {
       (rdb, _, len) \<leftarrow> rdbLoadLen rdb;
       if len = RDB_LENERR then Some (rdb, None)
       else do {
         let len = unat len;
         let val = (if load_plain flags then map (malloc_junk env) [0..<len] else replicate len 0);
         (rdb, c) \<leftarrow> rioRead rdb (unat clen);
         case c of
           None \<Rightarrow> Some (rdb, None)
         | Some c \<Rightarrow> do {
             (out, r) \<leftarrow> lzf_decompress (take (unat clen mod 2 ^ 32) c) (take (len mod 2 ^ 32) val);
             let val = out @ drop (len mod 2 ^ 32) val;
             case r of
               Inl _ \<Rightarrow> Some (rdb, None)
             | Inr n \<Rightarrow>
                 if n = 0 then Some (rdb, None)
                 else Some (rdb, Some (if load_plain flags then PlainStr val
                   else if load_sds flags then SdsStr val else Obj (StrEnc val))) } } } }"

definition rdbSaveRawString :: "rdb_env \<Rightarrow> rio option \<Rightarrow> bytes \<Rightarrow> written" where
  "rdbSaveRawString env rdb s = do {
     enc \<leftarrow> (if length s \<le> 11 then rdbTryIntegerEncoding env s else Some []);
     if length enc > 0 then rdbWriteRaw rdb enc
     else do {
       (rdb, n) \<leftarrow> (if rdb_compression env \<and> length s > 20 then rdbSaveLzfStringObject env rdb s else Some (rdb, 0));
       if n = - 1 then Some (rdb, - 1)
       else if n > 0 then Some (rdb, n)
       else then_write (rdbSaveLen rdb (of_nat (length s))) (\<lambda>rdb.
         if length s > 0 then do {
           (rdb, n) \<leftarrow> rdbWriteRaw rdb s;
           Some (rdb, if n = - 1 then - 1 else int (length s)) }
         else Some (rdb, 0)) } }"

definition rdbSaveLongLongAsStringObject :: "rdb_env \<Rightarrow> rio option \<Rightarrow> i64 \<Rightarrow> written" where
  "rdbSaveLongLongAsStringObject env rdb v =
     (let enc = rdbEncodeInteger v in
      if length enc > 0 then rdbWriteRaw rdb enc
      else do {
        (enclen, buf) \<leftarrow> ll2string (map (buf_junk env) [0..<32]) 32 v;
        if enclen < 32 then do {
          s \<leftarrow> peeks buf 0 enclen;
          then_write (rdbSaveLen rdb (of_nat enclen)) (\<lambda>rdb. rdbWriteRaw rdb s) }
        else None })"

definition rdbSaveStringObject :: "rdb_env \<Rightarrow> rio option \<Rightarrow> string_robj \<Rightarrow> written" where
  "rdbSaveStringObject env rdb obj = (case obj of
     IntEnc v \<Rightarrow> rdbSaveLongLongAsStringObject env rdb v
   | StrEnc s \<Rightarrow> rdbSaveRawString env rdb s)"

definition rdbGenericLoadStringObject :: "rdb_env \<Rightarrow> rio \<Rightarrow> u32 \<Rightarrow> (rio \<times> loaded option) option" where
  "rdbGenericLoadStringObject env rdb flags = do {
     (rdb, isencoded, len) \<leftarrow> rdbLoadLen rdb;
     if isencoded then
       if len = 0 \<or> len = 1 \<or> len = 2 then rdbLoadIntegerObject env rdb len flags
       else if len = 3 then rdbLoadLzfStringObject env rdb flags
       else None
     else if len = RDB_LENERR then Some (rdb, None)
     else do {
       (rdb, buf) \<leftarrow> (if len \<noteq> 0 then rioRead rdb (unat len) else Some (rdb, Some []));
       case buf of
         None \<Rightarrow> Some (rdb, None)
       | Some s \<Rightarrow> Some (rdb, Some (if load_plain flags then PlainStr s
           else if load_sds flags then SdsStr s else Obj (StrEnc s))) } }"

definition rdbLoadStringObject :: "rdb_env \<Rightarrow> rio \<Rightarrow> (rio \<times> loaded option) option" where
  "rdbLoadStringObject env rdb = rdbGenericLoadStringObject env rdb 0"

definition rdbLoadEncodedStringObject :: "rdb_env \<Rightarrow> rio \<Rightarrow> (rio \<times> loaded option) option" where
  "rdbLoadEncodedStringObject env rdb = rdbGenericLoadStringObject env rdb 1"

subsection \<open>Lengths\<close>

lemma sint_length: "n < 2 ^ 31 \<Longrightarrow> sint (of_nat n :: 32 word) = int n"
  by (simp add: signed_of_nat signed_take_bit_int_eq_self)

text \<open>
  The number is wrong from 2 GB on; with a length of \<open>2 ^ 32 - 1\<close> a successful write looks like a failed one.
\<close>

lemma rdbWriteRaw_truncated:
  "length p = 2 ^ 32 - 1 \<Longrightarrow> rdbWriteRaw (Some r) p = Some (Some (rio_put r p), - 1)"
  by (simp add: rdbWriteRaw_def rioWrite_buffer)

text \<open>A writer that writes the bytes \<open>xs\<close>, or counts them.\<close>

definition writes :: "(rio option \<Rightarrow> written) \<Rightarrow> bytes \<Rightarrow> bool" where
  "writes w xs \<longleftrightarrow> (\<forall>rdb. w rdb = Some (map_option (\<lambda>r. rio_put r xs) rdb, int (length xs)))"

text \<open>A reader that returns \<open>v\<close> when the bytes \<open>xs\<close> come next, and moves behind them.\<close>

definition reads :: "(rio \<Rightarrow> (rio \<times> 'a) option) \<Rightarrow> bytes \<Rightarrow> 'a \<Rightarrow> bool" where
  "reads f xs v \<longleftrightarrow> (\<forall>r. rio_next r xs \<longrightarrow> f r = Some (rio_skip r xs, v))"

lemma writes_raw [simp]: "length xs < 2 ^ 31 \<Longrightarrow> writes (\<lambda>rdb. rdbWriteRaw rdb xs) xs"
  by (simp add: writes_def rdbWriteRaw_def rioWrite_buffer sint_length split: option.split)

lemma map_option_same [simp]: "map_option (\<lambda>r. r) rdb = rdb"
  by (cases rdb) simp_all

lemma writes_none [simp]: "writes (\<lambda>rdb. Some (rdb, 0)) []"
  by (simp add: writes_def)

lemma writes_then:
  assumes "writes f xs" "writes g ys"
  shows "writes (\<lambda>rdb. then_write (f rdb) g) (xs @ ys)"
  using assms by (simp add: writes_def then_write_def option.map_comp comp_def)

lemma reads_raw: "reads (\<lambda>r. rioRead r (length xs)) xs (Some xs)"
  by (simp add: reads_def rioRead_next)

lemma reads_bind:
  assumes "reads f xs v" "reads (\<lambda>r. g r v) ys w"
  shows "reads (\<lambda>r. do { (r, v) \<leftarrow> f r; g r v }) (xs @ ys) w"
  unfolding reads_def
proof (intro allI impI)
  fix r assume n: "rio_next r (xs @ ys)"
  have "f r = Some (rio_skip r xs, v)" using assms(1) rio_next_append [OF n] by (simp add: reads_def)
  moreover have "g (rio_skip r xs) v = Some (rio_skip (rio_skip r xs) ys, w)"
    using assms(2) rio_next_skip [OF n] by (simp add: reads_def)
  ultimately show "do { (r, v) \<leftarrow> f r; g r v } = Some (rio_skip r (xs @ ys), w)" by simp
qed

lemma reads_return [simp]: "reads (\<lambda>r. Some (r, v)) [] v"
  by (simp add: reads_def)

lemma reads_map:
  assumes "reads f xs v"
  shows "reads (\<lambda>r. do { (r, v) \<leftarrow> f r; Some (r, h v) }) xs (h v)"
  using assms by (simp add: reads_def)

text \<open>The bytes of a length.\<close>

definition len_bytes :: "u64 \<Rightarrow> bytes" where
  "len_bytes len =
     (if len < 64 then [ucast len]
      else if len < 16384 then [ucast (drop_bit 8 len) OR 0x40, ucast len]
      else if len \<le> 0xFFFFFFFF then 0x80 # rev (le_bytes 4 (uint len))
      else 0x81 # rev (le_bytes 8 (uint len)))"

lemma bit_bound:
  fixes w :: "'a::len word"
  assumes "unat w < 2 ^ k" "bit w n"
  shows "n < k"
proof -
  have "take_bit k (unat w) = unat w" using assms(1) by (simp add: take_bit_nat_eq_self)
  moreover have "bit (unat w) n" using assms(2) by (simp add: bit_unsigned_iff)
  ultimately show ?thesis by (metis bit_take_bit_iff)
qed

lemma byte_masks: "(0xC0 :: u8) = push_bit 6 (mask 2)" "(0x3F :: u8) = mask 6" "(0xFF :: u64) = mask 8"
  by (simp_all add: mask_eq_exp_minus_1)

lemma ucast_low_byte: "ucast (len AND 0xFF :: u64) = (ucast len :: u8)"
  unfolding byte_masks by (intro bit_eqI) (simp add: bit_ucast_iff bit_and_iff bit_mask_iff)

lemma len_type: "drop_bit 6 (c AND 0xC0) = drop_bit 6 (c :: u8)"
  unfolding byte_masks
  by (intro bit_eqI) (auto simp: bit_drop_bit_eq bit_and_iff bit_push_bit_iff bit_mask_iff dest: bit_imp_le_length)

lemma bit_64: "bit (64 :: 'a::len word) n \<longleftrightarrow> n = 6 \<and> 6 < LENGTH('a)"
proof -
  have "bit (2 ^ 6 :: 'a word) n \<longleftrightarrow> n = 6 \<and> 6 < LENGTH('a)" unfolding bit_exp_iff by auto
  then show ?thesis by simp
qed

lemma len_6bit:
  fixes len :: u64
  assumes "len < 64"
  shows "drop_bit 6 (ucast len :: u8) = 0" "ucast ((ucast len :: u8) AND 0x3F) = len"
proof -
  have "unat len < 2 ^ 6" using assms by (simp add: word_less_nat_alt)
  then have "bit len n \<Longrightarrow> n < 6" for n by (rule bit_bound)
  then show "drop_bit 6 (ucast len :: u8) = 0" "ucast ((ucast len :: u8) AND 0x3F) = len"
    unfolding byte_masks
    by (fastforce intro!: bit_eqI simp: bit_drop_bit_eq bit_ucast_iff bit_and_iff bit_mask_iff)+
qed

lemma len_14bit:
  fixes len :: u64
  assumes "len < 16384"
  defines "c \<equiv> ucast (drop_bit 8 len) OR 0x40 :: u8"
  shows "drop_bit 6 c = 1" "push_bit 8 (ucast (c AND 0x3F)) OR ucast (ucast len :: u8) = len"
proof -
  have "unat len < 2 ^ 14" using assms by (simp add: word_less_nat_alt)
  then have b: "bit len n \<Longrightarrow> n < 14" for n by (rule bit_bound)
  show "drop_bit 6 c = 1" unfolding c_def byte_masks
    by (intro bit_eqI) (auto simp: bit_drop_bit_eq bit_ucast_iff bit_or_iff bit_64 bit_1_iff dest: b)
  have c: "c AND 0x3F = ucast (drop_bit 8 len)"
  proof (rule bit_eqI)
    fix n
    have "bit (0x40 :: u8) n \<longleftrightarrow> n = 6" using bit_64 [of n, where 'a = 8] by simp
    then show "bit (c AND 0x3F) n = bit (ucast (drop_bit 8 len) :: u8) n" unfolding c_def byte_masks bit_and_iff bit_or_iff
      by (auto simp: bit_ucast_iff bit_mask_iff bit_drop_bit_eq dest: b)
  qed
  show "push_bit 8 (ucast (c AND 0x3F)) OR ucast (ucast len :: u8) = len" unfolding c
    by (intro bit_eqI) (auto simp: bit_push_bit_iff bit_ucast_iff bit_or_iff bit_drop_bit_eq not_le dest: b)
qed

lemma pow_256: "(256 :: 'a::comm_semiring_1) ^ n = 2 ^ (n * 8)"
  using power_mult [of "2 :: 'a" 8 n] by (simp add: mult.commute)

lemma le_nat_word:
  assumes "length bs * 8 = LENGTH('a::len)"
  shows "le_bytes (length bs) (uint (of_nat (le_nat bs) :: 'a word)) = bs"
proof -
  have "le_nat bs < 2 ^ LENGTH('a)" using le_nat_less [of bs] unfolding assms [symmetric] pow_256 .
  then have "uint (of_nat (le_nat bs) :: 'a word) = int (le_nat bs)" by (simp add: uint_nat unat_of_nat)
  then show ?thesis using le_bytes_le_nat [of bs] by simp
qed

lemma word_le_nat: "of_nat (le_nat (le_bytes n (uint (w :: 'a::len word)))) = w" if "n * 8 = LENGTH('a)"
proof -
  have "uint w < 256 ^ n" using uint_lt2p [of w] unfolding that [symmetric] pow_256 .
  then have "le_uint (le_bytes n (uint w)) = uint w" by (simp add: le_uint_le_bytes)
  then show ?thesis by (simp add: le_nat_def)
qed

lemma intrev32_bytes: "intrev32 v = Some (of_nat (le_nat (rev (le_bytes 4 (uint v)))))"
  by (simp add: intrev32_def memrev32_rev)

lemma intrev64_bytes: "intrev64 v = Some (of_nat (le_nat (rev (le_bytes 8 (uint v)))))"
  by (simp add: intrev64_def memrev64_rev)

lemma intrev32_load: "intrev32 (of_nat (le_nat (rev (le_bytes 4 (uint v))))) = Some v"
  using le_nat_word [of "rev (le_bytes 4 (uint v))", where 'a = 32] word_le_nat [of 4 v]
  by (simp add: intrev32_bytes)

lemma intrev64_load: "intrev64 (of_nat (le_nat (rev (le_bytes 8 (uint v))))) = Some v"
  using le_nat_word [of "rev (le_bytes 8 (uint v))", where 'a = 64] word_le_nat [of 8 v]
  by (simp add: intrev64_bytes)

lemma rdbSaveLen_writes: "writes (\<lambda>rdb. rdbSaveLen rdb len) (len_bytes len)"
proof -
  have a: "uint (ucast len :: u32) = uint len" if "len \<le> 0xFFFFFFFF"
  proof -
    have "uint len < 2 ^ 32" using that by (simp add: word_le_def)
    then show ?thesis by (simp add: unsigned_ucast_eq take_bit_int_eq_self)
  qed
  have "writes (\<lambda>rdb. then_write (rdbWriteRaw rdb [0x80]) (\<lambda>rdb. rdbWriteRaw rdb xs)) (0x80 # xs)"
      "writes (\<lambda>rdb. then_write (rdbWriteRaw rdb [0x81]) (\<lambda>rdb. rdbWriteRaw rdb xs)) (0x81 # xs)" if "length xs < 2 ^ 31" for xs
    using writes_then [OF writes_raw [of "[0x80]"] writes_raw [OF that]]
      writes_then [OF writes_raw [of "[0x81]"] writes_raw [OF that]] by simp_all
  moreover have "le_bytes 4 (uint (of_nat (le_nat (rev (le_bytes 4 v))) :: u32)) = rev (le_bytes 4 v)"
      "le_bytes 8 (uint (of_nat (le_nat (rev (le_bytes 8 v))) :: u64)) = rev (le_bytes 8 v)" for v
    using le_nat_word [of "rev (le_bytes 4 v)", where 'a = 32] le_nat_word [of "rev (le_bytes 8 v)", where 'a = 64] by simp_all
  ultimately show ?thesis using a
    by (simp add: rdbSaveLen_def len_bytes_def ucast_low_byte intrev32_bytes intrev64_bytes)
qed

lemma rioRead_first:
  assumes "rio_next r (c # xs)"
  shows "rioRead r 1 = Some (rio_skip r [c], Some [c])" "rio_next (rio_skip r [c]) xs"
  using rioRead_next [of r "[c]"] rio_next_append [of r "[c]" xs] rio_next_skip [of r "[c]" xs] assms by simp_all

lemma rdbLoadLenByRef_reads: "reads rdbLoadLenByRef (len_bytes len) (Some (False, len))"
  unfolding reads_def
proof (intro allI impI)
  fix r assume n: "rio_next r (len_bytes len)"
  consider (6) "len < 64" | (14) "\<not> len < 64" "len < 16384" | (32) "\<not> len < 64" "\<not> len < 16384" "len \<le> 0xFFFFFFFF"
    | (64) "\<not> len < 64" "\<not> len < 16384" "\<not> len \<le> 0xFFFFFFFF" by blast
  then show "rdbLoadLenByRef r = Some (rio_skip r (len_bytes len), Some (False, len))"
  proof cases
    case 6
    then have l: "len_bytes len = [ucast len]" by (simp add: len_bytes_def)
    show ?thesis using rioRead_first [OF n [unfolded l]] len_6bit [OF 6]
      by (simp add: rdbLoadLenByRef_def Let_def len_type l)
  next
    case 14
    define c :: u8 where "c = ucast (drop_bit 8 len) OR 0x40"
    have l: "len_bytes len = [c, ucast len]" using 14 by (simp add: len_bytes_def c_def)
    show ?thesis
      using rioRead_first [OF n [unfolded l]] rioRead_first(1) [OF rioRead_first(2) [OF n [unfolded l]]]
        len_14bit [OF 14(2), folded c_def]
      unfolding rdbLoadLenByRef_def Let_def len_type l by (simp del: One_nat_def)
  next
    case 32
    have l: "len_bytes len = 0x80 # rev (le_bytes 4 (uint len))" using 32 by (simp add: len_bytes_def)
    have "uint len < 2 ^ 32" using 32 by (simp add: word_le_def)
    then have u: "uint len = uint (ucast len :: u32)" by (simp add: unsigned_ucast_eq take_bit_int_eq_self)
    then have "ucast (ucast len :: u32) = len" by (simp add: word_uint_eq_iff unsigned_ucast_eq unsigned_take_bit_eq)
    then show ?thesis
      using rioRead_first(1) [OF n [unfolded l]] rioRead_next [OF rioRead_first(2) [OF n [unfolded l]]]
        intrev32_load [of "ucast len"]
      by (simp add: rdbLoadLenByRef_def Let_def l flip: u)
  next
    case 64
    have l: "len_bytes len = 0x81 # rev (le_bytes 8 (uint len))" using 64 by (simp add: len_bytes_def)
    show ?thesis
      using rioRead_first(1) [OF n [unfolded l]] rioRead_next [OF rioRead_first(2) [OF n [unfolded l]]] intrev64_load [of len]
      by (simp add: rdbLoadLenByRef_def Let_def l)
  qed
qed

lemma rdbLoadLen_reads: "reads rdbLoadLen (len_bytes len) (False, len)"
  using rdbLoadLenByRef_reads [of len] by (simp add: reads_def rdbLoadLen_def)

lemma rdbLoadLen_encoding:
  "reads rdbLoadLen [0xC0] (True, 0)" "reads rdbLoadLen [0xC1] (True, 1)" "reads rdbLoadLen [0xC2] (True, 2)"
  "reads rdbLoadLen [0xC3] (True, 3)"
  using rioRead_first by (simp_all add: reads_def rdbLoadLen_def rdbLoadLenByRef_def Let_def)

subsection \<open>Integers\<close>

lemma scast_ucast_small:
  fixes v :: i64
  assumes "- (2 ^ (LENGTH('a::len) - 1)) \<le> sint v" "sint v < 2 ^ (LENGTH('a) - 1)" "LENGTH('a) \<le> 64"
  shows "scast (ucast v :: 'a word) = v"
proof (rule signed_word_eqI)
  have "sint (ucast v :: 'a word) = signed_take_bit (LENGTH('a) - 1) (sint v)"
  proof -
    have "signed_take_bit (LENGTH('a) - 1) (sint v) = signed_take_bit (LENGTH('a) - 1) (uint v)"
    proof -
      have "min (LENGTH('a) - 1) (LENGTH(64) - 1) = LENGTH('a) - 1" using assms(3) by simp
      then show ?thesis unfolding sint_uint signed_take_bit_signed_take_bit by simp
    qed
    then show ?thesis using assms(3) by (simp add: signed_ucast_eq)
  qed
  also have "\<dots> = sint v" using assms(1,2) by (simp add: signed_take_bit_int_eq_self)
  finally have "sint (ucast v :: 'a word) = sint v" .
  moreover have "signed_take_bit 63 (sint v) = sint v"
    unfolding sint_uint signed_take_bit_signed_take_bit by simp
  ultimately show "sint (scast (ucast v :: 'a word) :: i64) = sint v"
    using assms(3) by (simp add: signed_scast_eq)
qed

lemma word_bytes:
  fixes v :: i64
  shows "ucast (ucast v :: u8) OR push_bit 8 (ucast (ucast (signed_drop_bit 8 v) :: u8)) = (ucast v :: u16)"
    "ucast (ucast v :: u8) OR push_bit 8 (ucast (ucast (signed_drop_bit 8 v) :: u8)) OR
      push_bit 16 (ucast (ucast (signed_drop_bit 16 v) :: u8)) OR push_bit 24 (ucast (ucast (signed_drop_bit 24 v) :: u8)) =
      (ucast v :: u32)" (is "?w = _")
proof -
  show "ucast (ucast v :: u8) OR push_bit 8 (ucast (ucast (signed_drop_bit 8 v) :: u8)) = (ucast v :: u16)"
    by (intro bit_eqI) (auto simp: bit_or_iff bit_ucast_iff bit_push_bit_iff bit_signed_drop_bit_iff not_le)
  show "?w = ucast v"
  proof (rule bit_eqI)
    fix n assume "possible_bit TYPE(32 word) n"
    then have "n < 32" by simp
    then consider "n < 8" | "8 \<le> n" "n < 16" | "16 \<le> n" "n < 24" | "24 \<le> n" "n < 32" by linarith
    then show "bit ?w n = bit (ucast v :: u32) n"
      by cases (auto simp: bit_or_iff bit_ucast_iff bit_push_bit_iff bit_signed_drop_bit_iff)
  qed
qed

text \<open>What a loaded string stands for, and the form in which it was asked for.\<close>

fun robj_bytes :: "string_robj \<Rightarrow> bytes" where
  "robj_bytes (IntEnc v) = dec_int (sint v)"
| "robj_bytes (StrEnc s) = s"

fun loaded_bytes :: "loaded \<Rightarrow> bytes" where
  "loaded_bytes (PlainStr s) = s"
| "loaded_bytes (SdsStr s) = s"
| "loaded_bytes (Obj ob) = robj_bytes ob"

fun loaded_form :: "u32 \<Rightarrow> loaded \<Rightarrow> bool" where
  "loaded_form flags (PlainStr s) = load_plain flags"
| "loaded_form flags (SdsStr s) = (load_sds flags \<and> \<not> load_plain flags)"
| "loaded_form flags (Obj ob) = (\<not> load_plain flags \<and> \<not> load_sds flags \<and> (load_enc flags \<or> (\<exists>s. ob = StrEnc s)))"

definition loads :: "(rio \<Rightarrow> (rio \<times> loaded option) option) \<Rightarrow> u32 \<Rightarrow> bytes \<Rightarrow> bytes \<Rightarrow> bool" where
  "loads f flags xs s \<longleftrightarrow> (\<exists>v. reads f xs (Some v) \<and> loaded_bytes v = s \<and> loaded_form flags v)"

lemma load_integer_reads:
  assumes "rdbEncodeInteger v = c # bs"
  shows "\<exists>k. reads rdbLoadLen [c] (True, k) \<and> k \<in> {0, 1, 2} \<and> reads (\<lambda>r. load_integer r k) bs (Some v)"
proof -
  have read: "rioRead r n = Some (rio_skip r bs, Some bs)" if "rio_next r bs" "length bs = n" for r n
    using rioRead_next [OF that(1)] that(2) by simp
  consider (8) "sint v \<ge> - (2 ^ 7)" "sint v < 2 ^ 7"
    | (16) "\<not> (sint v \<ge> - (2 ^ 7) \<and> sint v \<le> 2 ^ 7 - 1)" "sint v \<ge> - (2 ^ 15)" "sint v < 2 ^ 15"
    | (32) "\<not> (sint v \<ge> - (2 ^ 7) \<and> sint v \<le> 2 ^ 7 - 1)" "\<not> (sint v \<ge> - (2 ^ 15) \<and> sint v \<le> 2 ^ 15 - 1)"
        "sint v \<ge> - (2 ^ 31)" "sint v < 2 ^ 31"
    using assms by (fastforce simp: rdbEncodeInteger_def split: if_splits)
  then show ?thesis
  proof cases
    case 8
    then have "c = 0xC0" "bs = [ucast v]" using assms by (simp_all add: rdbEncodeInteger_def)
    then show ?thesis using 8 scast_ucast_small [of v, where 'a = 8] read
      by (intro exI [of _ 0]) (simp add: rdbLoadLen_encoding, simp add: reads_def load_integer_def)
  next
    case 16
    then have "c = 0xC1" "bs = [ucast v, ucast (signed_drop_bit 8 v)]"
      using assms by (auto simp: rdbEncodeInteger_def split: if_splits)
    then show ?thesis using 16 scast_ucast_small [of v, where 'a = 16] read
      by (intro exI [of _ 1]) (simp add: rdbLoadLen_encoding, simp add: reads_def load_integer_def word_bytes(1))
  next
    case 32
    then have "c = 0xC2" "bs = [ucast v, ucast (signed_drop_bit 8 v), ucast (signed_drop_bit 16 v), ucast (signed_drop_bit 24 v)]"
      using assms by (auto simp: rdbEncodeInteger_def split: if_splits)
    then show ?thesis using 32 scast_ucast_small [of v, where 'a = 32] read
      by (intro exI [of _ 2]) (simp add: rdbLoadLen_encoding, simp add: reads_def load_integer_def word_bytes(2))
  qed
qed

lemma reads_split:
  assumes "reads f xs v" "rio_next r (xs @ ys)"
  shows "f r = Some (rio_skip r xs, v)" "rio_next (rio_skip r xs) ys"
  using assms rio_next_append [of r xs ys] rio_next_skip [of r xs ys] by (simp_all add: reads_def)

lemma rdbLoadIntegerObject_loads:
  assumes "reads (\<lambda>r. load_integer r k) bs (Some v)"
  shows "loads (\<lambda>r. rdbLoadIntegerObject env r k flags) flags bs (dec_int (sint v))"
proof -
  let ?D = "dec_int (sint v)"
  obtain t where t: "ll2string (map (buf_junk env) [0..<21]) 21 v = Some (length ?D, ?D @ 0 # t)"
    by (rule ll2string_buf [of 21]) simp
  have p: "peeks (?D @ 0 # t) 0 (length ?D) = Some ?D" by (simp add: peeks_def)
  have s: "sdsfromlonglong (map (buf_junk env) [0..<21]) v = Some ?D"
    by (rule sdsfromlonglong_dec) (simp only: length_map length_upt)
  define w where "w = (if load_plain flags \<or> load_sds flags then if load_plain flags then PlainStr ?D else SdsStr ?D
    else Obj (if load_enc flags then IntEnc v else StrEnc ?D))"
  have "reads (\<lambda>r. rdbLoadIntegerObject env r k flags) bs (Some w)"
    using assms t p s unfolding reads_def rdbLoadIntegerObject_def w_def createStringObjectFromLongLong_def
    by (simp del: upt_rec_numeral)
  moreover have "loaded_bytes w = ?D \<and> loaded_form flags w" by (simp add: w_def)
  ultimately show ?thesis unfolding loads_def by blast
qed

lemma loads_integer:
  assumes "rdbEncodeInteger v = xs" "xs \<noteq> []"
  shows "loads (\<lambda>r. rdbGenericLoadStringObject env r flags) flags xs (dec_int (sint v))"
proof -
  obtain c bs where xs: "xs = [c] @ bs" using assms(2) by (cases xs) auto
  obtain k where k: "reads rdbLoadLen [c] (True, k)" "k \<in> {0, 1, 2}" "reads (\<lambda>r. load_integer r k) bs (Some v)"
    using load_integer_reads [of v c bs] assms(1) xs by auto
  from rdbLoadIntegerObject_loads [OF k(3), of env flags] obtain w where
    w: "reads (\<lambda>r. rdbLoadIntegerObject env r k flags) bs (Some w)" "loaded_bytes w = dec_int (sint v)" "loaded_form flags w"
    by (auto simp: loads_def)
  have "rdbGenericLoadStringObject env r flags = Some (rio_skip r xs, Some w)" if n: "rio_next r xs" for r
    using reads_split [OF k(1) n [unfolded xs]] w(1) k(2) xs
    by (auto simp: rdbGenericLoadStringObject_def reads_def)
  then show ?thesis using w(2,3) by (auto simp: loads_def reads_def)
qed

lemma len_ne_err: "n < 2 ^ 63 \<Longrightarrow> (of_nat n :: u64) \<noteq> RDB_LENERR" "n < 2 ^ 63 \<Longrightarrow> unat (of_nat n :: u64) = n"
proof -
  show u: "unat (of_nat n :: u64) = n" if "n < 2 ^ 63" using that by (simp add: unat_of_nat)
  show "(of_nat n :: u64) \<noteq> RDB_LENERR" if "n < 2 ^ 63"
  proof
    assume "(of_nat n :: u64) = RDB_LENERR"
    then have "unat (of_nat n :: u64) = unat (RDB_LENERR)" by simp
    then show False using u [OF that] that by simp
  qed
qed

lemma loads_verbatim:
  assumes "length s < 2 ^ 63"
  shows "loads (\<lambda>r. rdbGenericLoadStringObject env r flags) flags (len_bytes (of_nat (length s)) @ s) s"
proof -
  define w where "w = (if load_plain flags then PlainStr s else if load_sds flags then SdsStr s else Obj (StrEnc s))"
  have "rdbGenericLoadStringObject env r flags = Some (rio_skip r (len_bytes (of_nat (length s)) @ s), Some w)"
    if n: "rio_next r (len_bytes (of_nat (length s)) @ s)" for r
  proof -
    note l = reads_split [OF rdbLoadLen_reads n]
    have "(of_nat (length s) :: u64) \<noteq> 0" if "s \<noteq> []"
    proof
      assume "(of_nat (length s) :: u64) = 0"
      with len_ne_err(2) [OF assms] that show False by simp
    qed
    then show ?thesis using l rioRead_next [OF l(2)] len_ne_err [OF assms]
      by (cases "s = []") (simp_all add: rdbGenericLoadStringObject_def w_def)
  qed
  then show ?thesis by (auto simp: loads_def reads_def w_def)
qed

lemma loads_lzf:
  assumes "lzf_text [] xs s" "xs \<noteq> []" "length xs < 2 ^ 32" "length s < 2 ^ 32" "s \<noteq> []"
  shows "loads (\<lambda>r. rdbGenericLoadStringObject env r flags) flags
    ([0xC3] @ len_bytes (of_nat (length xs)) @ len_bytes (of_nat (length s)) @ xs) s"
proof -
  define w where "w = (if load_plain flags then PlainStr s else if load_sds flags then SdsStr s else Obj (StrEnc s))"
  have u: "unat (of_nat (length xs) :: u64) = length xs" "(of_nat (length xs) :: u64) \<noteq> RDB_LENERR"
      "unat (of_nat (length s) :: u64) = length s" "(of_nat (length s) :: u64) \<noteq> RDB_LENERR"
    using len_ne_err [of "length xs"] len_ne_err [of "length s"] assms(3,4) by simp_all
  have dec: "\<exists>out. lzf_decompress xs val = Some (out, Inr (length s)) \<and> out = s" if "length val = length s" for val
    using lzf_decompress_text [OF assms(1,2), of val] that by auto
  have lens: "length xs mod 2 ^ 32 = length xs" "length s mod 2 ^ 32 = length s" using assms(3,4) by simp_all
  have "rdbGenericLoadStringObject env r flags = Some (rio_skip r
      ([0xC3] @ len_bytes (of_nat (length xs)) @ len_bytes (of_nat (length s)) @ xs), Some w)"
    if n: "rio_next r ([0xC3] @ len_bytes (of_nat (length xs)) @ len_bytes (of_nat (length s)) @ xs)" for r
  proof -
    note a = reads_split [OF rdbLoadLen_encoding(4) n]
    note b = reads_split [OF rdbLoadLen_reads a(2)]
    note c = reads_split [OF rdbLoadLen_reads b(2)]
    note d = rioRead_next [OF c(2)]
    have "rdbLoadLzfStringObject env (rio_skip r [0xC3]) flags = Some (rio_skip r
      ([0xC3] @ len_bytes (of_nat (length xs)) @ len_bytes (of_nat (length s)) @ xs), Some w)"
      unfolding rdbLoadLzfStringObject_def w_def using b(1) c(1) d u lens assms(5)
        dec [of "map (malloc_junk env) [0..<length s]"] dec [of "replicate (length s) 0"]
      by (cases "load_plain flags") (auto simp: Let_def)
    then show ?thesis using a(1) by (simp add: rdbGenericLoadStringObject_def)
  qed
  then show ?thesis by (auto simp: loads_def reads_def w_def)
qed

subsection \<open>Strings\<close>

lemma strtoll_end: "snd (strtoll s) \<le> length s"
proof -
  define t where "t = dropWhile is_space s"
  have l: "length (takeWhile is_space s) + length t = length s"
    unfolding t_def by (metis length_append takeWhile_dropWhile_id)
  have "length (takeWhile is_digit xs) \<le> length xs" for xs by (rule length_takeWhile_le)
  from this [of t] this [of "tl t"] show ?thesis using l
    unfolding strtoll_def Let_def t_def [symmetric] by (cases t) auto
qed

lemma rdbTryIntegerEncoding_correct:
  "\<exists>enc. rdbTryIntegerEncoding env s = Some enc \<and> (enc \<noteq> [] \<longrightarrow> (\<exists>v. enc = rdbEncodeInteger v \<and> s = dec_int (sint v)))"
proof -
  obtain v e where ve: "strtoll s = (v, e)" by (cases "strtoll s")
  then have e: "e < length (s @ [0])" using strtoll_end [of s] by simp
  obtain t where t: "ll2string (map (buf_junk env) [0..<32]) 32 v = Some (length (dec_int (sint v)), dec_int (sint v) @ 0 # t)"
    by (rule ll2string_buf [of 32]) simp
  have "rdbTryIntegerEncoding env s = Some (if (s @ [0]) ! e \<noteq> 0 \<or> dec_int (sint v) \<noteq> s then [] else rdbEncodeInteger v)"
    unfolding rdbTryIntegerEncoding_def using ve peek_Some [OF e] t takeWhile_dec_int [of "sint v" t]
    by (simp del: upt_rec_numeral)
  then show ?thesis by auto
qed

text \<open>The bytes that are saved for a string, and that they load.\<close>

lemma writes_integer [simp]: "writes (\<lambda>rdb. rdbWriteRaw rdb (rdbEncodeInteger v)) (rdbEncodeInteger v)"
  by (rule writes_raw) (simp add: rdbEncodeInteger_def)

lemma writes_lzf_blob:
  "length xs < 2 ^ 31 \<Longrightarrow>
    writes (\<lambda>rdb. rdbSaveLzfBlob rdb xs n) ([0xC3] @ len_bytes (of_nat (length xs)) @ len_bytes n @ xs)"
  unfolding rdbSaveLzfBlob_def by (intro writes_then writes_raw rdbSaveLen_writes) simp_all

lemma rdbSaveLzfStringObject_correct:
  assumes "4 < length s" "length s < 2 ^ 31"
  shows "writes (\<lambda>rdb. rdbSaveLzfStringObject env rdb s) [] \<or>
    (\<exists>ys. ys \<noteq> [] \<and> writes (\<lambda>rdb. rdbSaveLzfStringObject env rdb s) ys \<and>
      (\<forall>flags. loads (\<lambda>r. rdbGenericLoadStringObject env r flags) flags ys s))"
proof -
  define out where "out = map (malloc_junk env) [0..<(length s - 4) mod 2 ^ 32]"
  have len: "length out = length s - 4" "length s mod 2 ^ 32 = length s" using assms by (simp_all add: out_def)
  have "2 \<le> length s" "length s < 2 ^ 32" using assms by simp_all
  from lzf_compress_text [OF this, of "lzf_junk env" out] obtain out' n where
    c: "lzf_compress (lzf_junk env) s out = Some (out', n)" "length out' = length out" "n \<le> length out"
      "n \<noteq> 0 \<longrightarrow> lzf_text [] (take n out') s" by blast
  have eq: "rdbSaveLzfStringObject env rdb s =
      (if n = 0 then Some (rdb, 0) else rdbSaveLzfBlob rdb (take n out') (of_nat (length s)))" for rdb
    using assms(1) c(1-3) len(2) unfolding rdbSaveLzfStringObject_def out_def [symmetric] Let_def
    by (simp add: peeks_def out_def [symmetric] not_le)
  show ?thesis
  proof (cases "n = 0")
    case True
    then show ?thesis by (simp add: eq writes_def)
  next
    case False
    let ?xs = "take n out'"
    have xs: "?xs \<noteq> []" "length ?xs < 2 ^ 32" "lzf_text [] ?xs s" "s \<noteq> []" "length ?xs < 2 ^ 31" "length s < 2 ^ 32"
      using False c(2-4) len(1) assms by auto
    have "\<forall>flags. loads (\<lambda>r. rdbGenericLoadStringObject env r flags) flags
        ([0xC3] @ len_bytes (of_nat (length ?xs)) @ len_bytes (of_nat (length s)) @ ?xs) s"
      using loads_lzf [OF xs(3,1,2,6,4)] by blast
    moreover have "writes (\<lambda>rdb. rdbSaveLzfStringObject env rdb s)
        ([0xC3] @ len_bytes (of_nat (length ?xs)) @ len_bytes (of_nat (length s)) @ ?xs)"
      using writes_lzf_blob [OF xs(5), of "of_nat (length s)"] False by (simp only: eq if_False)
    ultimately show ?thesis by blast
  qed
qed

lemma rdbSaveRawString_correct:
  assumes "length s < 2 ^ 31"
  shows "\<exists>ys. writes (\<lambda>rdb. rdbSaveRawString env rdb s) ys \<and>
    (\<forall>flags. loads (\<lambda>r. rdbGenericLoadStringObject env r flags) flags ys s)"
proof -
  let ?L = "\<lambda>ys. \<forall>flags. loads (\<lambda>r. rdbGenericLoadStringObject env r flags) flags ys s"
  obtain enc where enc: "(if length s \<le> 11 then rdbTryIntegerEncoding env s else Some []) = Some enc"
      "enc \<noteq> [] \<longrightarrow> (\<exists>v. enc = rdbEncodeInteger v \<and> s = dec_int (sint v))"
    using rdbTryIntegerEncoding_correct [of env s] by (cases "length s \<le> 11") auto
  let ?lzf = "\<lambda>rdb. if rdb_compression env \<and> length s > 20 then rdbSaveLzfStringObject env rdb s else Some (rdb, 0)"
  let ?raw = "\<lambda>rdb. if length s > 0 then do { (rdb, n) \<leftarrow> rdbWriteRaw rdb s; Some (rdb, if n = - 1 then - 1 else int (length s)) } else Some (rdb, 0)"
  have "4 < length s" if "length s > 20" using that by simp
  then have lzf: "writes ?lzf [] \<or> (\<exists>ys. ys \<noteq> [] \<and> writes ?lzf ys \<and> ?L ys)"
    using rdbSaveLzfStringObject_correct [OF _ assms, of env]
    by (cases "rdb_compression env \<and> length s > 20") (auto simp: writes_def)
  have eq: "rdbSaveRawString env rdb s = (if enc \<noteq> [] then rdbWriteRaw rdb enc
      else do { (rdb, n) \<leftarrow> ?lzf rdb;
        if n = - 1 then Some (rdb, - 1) else if n > 0 then Some (rdb, n)
        else then_write (rdbSaveLen rdb (of_nat (length s))) ?raw })" for rdb
    using enc(1) by (simp add: rdbSaveRawString_def)
  have "writes ?raw s" using writes_raw [OF assms] by (cases "length s = 0") (simp_all add: writes_def)
  then have verbatim: "writes (\<lambda>rdb. then_write (rdbSaveLen rdb (of_nat (length s))) ?raw) (len_bytes (of_nat (length s)) @ s)"
    by (rule writes_then [OF rdbSaveLen_writes])
  show ?thesis
  proof (cases "enc = []")
    case False
    then have "?L enc" using enc(2) loads_integer by blast
    moreover have "writes (\<lambda>rdb. rdbSaveRawString env rdb s) enc" using False enc(2) by (auto simp: eq)
    ultimately show ?thesis by blast
  next
    case True
    from lzf show ?thesis
    proof (elim disjE exE conjE)
      fix ys assume "ys \<noteq> []" "writes ?lzf ys" "?L ys"
      moreover from this(1,2) True have "writes (\<lambda>rdb. rdbSaveRawString env rdb s) ys" by (simp add: eq writes_def)
      ultimately show ?thesis by blast
    next
      assume "writes ?lzf []"
      with True verbatim have "writes (\<lambda>rdb. rdbSaveRawString env rdb s) (len_bytes (of_nat (length s)) @ s)"
        by (simp add: eq writes_def)
      moreover have "length s < 2 ^ 63" using assms by simp
      ultimately show ?thesis using loads_verbatim by blast
    qed
  qed
qed

lemma rdbSaveStringObject_correct:
  assumes "length (robj_bytes ob) < 2 ^ 31"
  shows "\<exists>ys. writes (\<lambda>rdb. rdbSaveStringObject env rdb ob) ys \<and>
    (\<forall>flags. loads (\<lambda>r. rdbGenericLoadStringObject env r flags) flags ys (robj_bytes ob))"
proof (cases ob)
  case (StrEnc s)
  then show ?thesis using rdbSaveRawString_correct [of s env] assms by (simp add: rdbSaveStringObject_def)
next
  case (IntEnc v)
  let ?D = "dec_int (sint v)"
  show ?thesis
  proof (cases "rdbEncodeInteger v = []")
    case False
    then have "writes (\<lambda>rdb. rdbSaveStringObject env rdb ob) (rdbEncodeInteger v)"
      using IntEnc by (simp add: rdbSaveStringObject_def rdbSaveLongLongAsStringObject_def)
    with loads_integer [OF refl False] IntEnc show ?thesis by auto
  next
    case True
    obtain t where t: "ll2string (map (buf_junk env) [0..<32]) 32 v = Some (length ?D, ?D @ 0 # t)"
      by (rule ll2string_buf [of 32]) simp
    have p: "peeks (?D @ 0 # t) 0 (length ?D) = Some ?D" "length ?D < 32" "length ?D < 2 ^ 63"
      using length_dec_int_le [of v] by (simp_all add: peeks_def)
    have "rdbSaveStringObject env rdb ob = then_write (rdbSaveLen rdb (of_nat (length ?D))) (\<lambda>rdb. rdbWriteRaw rdb ?D)" for rdb
      unfolding IntEnc rdbSaveStringObject_def string_robj.case rdbSaveLongLongAsStringObject_def Let_def True
      using t p by (simp del: upt_rec_numeral)
    then have "writes (\<lambda>rdb. rdbSaveStringObject env rdb ob) (len_bytes (of_nat (length ?D)) @ ?D)"
      using writes_then [OF rdbSaveLen_writes writes_raw [of ?D]] p(2) by simp
    with loads_verbatim [OF p(3)] IntEnc show ?thesis by auto
  qed
qed

text \<open>
  C4: saving and loading strings. \<open>rdbSaveStringObject\<close> appends to the stream one form of the string, small integer,
  compressed or verbatim, returns its size (also without a stream), and accounts for it in the checksum, whatever the chunk
  size and the compression setting are. When these bytes come next in a stream, \<open>rdbGenericLoadStringObject\<close> reads exactly them and returns the string in the
  form that the flags ask for. The string is shorter than 2 GB: from there on the \<open>int\<close> that counts its bytes overflows.
\<close>

theorem rdb_string_roundtrip:
  assumes "length (robj_bytes ob) < 2 ^ 31"
  shows "\<exists>ys. (\<forall>rdb. rdbSaveStringObject env rdb ob = Some (map_option (\<lambda>r. rio_put r ys) rdb, int (length ys))) \<and>
    (\<forall>flags. \<exists>v. loaded_bytes v = robj_bytes ob \<and> loaded_form flags v \<and>
      (\<forall>r. rio_next r ys \<longrightarrow> rdbGenericLoadStringObject env r flags = Some (rio_skip r ys, Some v)))"
  using rdbSaveStringObject_correct [OF assms, of env] unfolding writes_def loads_def reads_def by meson

definition rdb_env0 :: rdb_env where
  "rdb_env0 = \<lparr>rdb_compression = True, buf_junk = \<lambda>_. 0, lzf_junk = \<lambda>_. 1, malloc_junk = \<lambda>_. 0\<rparr>"

theorem rdb_string_roundtrip_witness:
  "\<exists>ys v. rdbSaveStringObject rdb_env0 None (IntEnc 300) = Some (None, int (length ys)) \<and> length ys = 3 \<and>
    rdbGenericLoadStringObject rdb_env0 (rioInitWithBuffer ys) 4 = Some (rio_skip (rioInitWithBuffer ys) ys, Some v) \<and>
    loaded_bytes v = dec_int 300"
proof -
  have "length (robj_bytes (IntEnc 300)) < 2 ^ 31" using length_dec_int_le [of 300] by simp
  from rdb_string_roundtrip [OF this, of rdb_env0] obtain ys where
    ys: "\<forall>rdb. rdbSaveStringObject rdb_env0 rdb (IntEnc 300) = Some (map_option (\<lambda>r. rio_put r ys) rdb, int (length ys))"
      "\<forall>flags. \<exists>v. loaded_bytes v = robj_bytes (IntEnc 300) \<and> loaded_form flags v \<and>
        (\<forall>r. rio_next r ys \<longrightarrow> rdbGenericLoadStringObject rdb_env0 r flags = Some (rio_skip r ys, Some v))" by blast
  have "rdbSaveStringObject rdb_env0 None (IntEnc 300) = Some (None, 3)"
    by (simp add: rdbSaveStringObject_def rdbSaveLongLongAsStringObject_def rdbEncodeInteger_def rdbWriteRaw_def)
  with ys(1) [rule_format, of None] have l: "length ys = 3" by simp
  then have "rio_next (rioInitWithBuffer ys) ys" by (simp add: rio_next_def rioInitWithBuffer_def)
  with ys(2) [rule_format, of 4] obtain v where "loaded_bytes v = robj_bytes (IntEnc 300)"
    "rdbGenericLoadStringObject rdb_env0 (rioInitWithBuffer ys) 4 = Some (rio_skip (rioInitWithBuffer ys) ys, Some v)" by blast
  then show ?thesis using ys(1) l by (intro exI [of _ ys] exI [of _ v]) simp
qed

text \<open>
  C33: lengths. \<open>rdbSaveLen\<close> writes 1, 2, 5 or 9 bytes, and \<open>rdbLoadLen\<close> reads every length back, for all values of 64 bits.
\<close>

theorem rdb_len_roundtrip:
  "\<exists>ys. rdbSaveLen rdb len = Some (map_option (\<lambda>r. rio_put r ys) rdb, int (length ys)) \<and> length ys \<in> {1, 2, 5, 9} \<and>
    rdbLoadLen (rioInitWithBuffer ys) = Some (rio_skip (rioInitWithBuffer ys) ys, False, len)"
proof -
  have w: "rdbSaveLen rdb len = Some (map_option (\<lambda>r. rio_put r (len_bytes len)) rdb, int (length (len_bytes len)))"
    using rdbSaveLen_writes [of len] by (simp add: writes_def)
  have l: "length (len_bytes len) \<in> {1, 2, 5, 9}" by (simp add: len_bytes_def)
  then have "rio_next (rioInitWithBuffer (len_bytes len)) (len_bytes len)"
    by (auto simp: rio_next_def rioInitWithBuffer_def)
  with rdbLoadLen_reads [of len] w l show ?thesis unfolding reads_def by blast
qed

end
