(* ===== verification/Spec2Isabelle.thy ===== *)
theory Spec2Isabelle
  imports Util Glob Intset Dict_Refine Dict_Scan Dict_Iter Siphash Sds_Text Skiplist_Props Adlist Dict_Types Sds_Num Set_Type Crc Lzf Rio Rdb_String
begin

text \<open>
  A verification of the data structures and codecs of Redis 4.0. File names below are relative to
  \<open>src/redis-stable/src\<close>. The server keeps its data in hash tables from strings to values; values are built from
  dynamic strings, integer sets, skip lists and linked lists, and go to disk as a sequence of encoded strings. The
  theories follow these layers.

  \<^bold>\<open>Conventions.\<close> Memory that a pointer can reach within one allocation is a list of bytes, and a pointer
  into it a position. Linked nodes live in a heap, a partial map from addresses. An access out of bounds, a dereferenced \<open>NULL\<close>, a
  failed assertion or the end of the process is \<^term>\<open>None\<close>; a theorem that gives \<^term>\<open>Some\<close> therefore also says that none of
  them happens. Error codes of the sources are values inside. Numbers have the width of their C type on a 64-bit little-endian
  machine where they can overflow. Uninitialised memory, random numbers, the clock and the hash seed are parameters, and so is \<open>memcmp\<close>
  in lexicographic ranges, where the code tests the magnitude of its result. The leading underscore of
  a C name becomes the suffix \<open>_priv\<close>.

  \<^bold>\<open>Theories and sources.\<close>
  \<^item> \<open>Redis_Prelude\<close>: machine types, bounded buffers (\<open>peek\<close>, \<open>peeks\<close>, \<open>pokes\<close>, \<open>memmove\<close>), little-endian numbers.
  \<^item> \<open>Util\<close>, \<open>Glob\<close> (\<open>util.c\<close>): \<open>ll2string\<close> and \<open>string2ll\<close> are inverse, and \<open>string2ll\<close> accepts exactly the
    canonical decimal strings; \<open>stringmatchlen\<close> decides a declarative semantics of patterns.
  \<^item> \<open>Sds\<close>, \<open>Sds_Text\<close>, \<open>Sds_Num\<close> (\<open>sds.c\<close>, \<open>sds.h\<close>): headers of five widths in front of the bytes, growth and in-place
    operations refined to lists of bytes; \<open>sdssplitargs\<close> inverts \<open>sdscatrepr\<close>; splitting and joining; number formatting.
  \<^item> \<open>Siphash\<close> (\<open>siphash.c\<close>): the unrolled, block-wise hash is SipHash 1-2 of the padded message,
    which is defined with a round and initial constants of its own.
  \<^item> \<open>Dict\<close>, \<open>Dict_Refine\<close> (\<open>dict.c\<close>, \<open>dict.h\<close>): two tables of chains and incremental rehashing. \<open>Dict_Refine\<close> has
    the invariant, its preservation, and the refinement to a finite map in every stage of a rehashing, over the locale
    \<open>hash_type\<close>, the contract of hash and comparison functions.
  \<^item> \<open>Dict_Scan\<close>: the reverse-binary cursor of \<open>dictScan\<close>; completeness over any interleaving with resizing
    and rehashing, and termination. \<open>Dict_Iter\<close>: iterators, fingerprints and sampling with random numbers below \<open>2 ^ 31\<close>.
  \<^item> \<open>Dict_Types\<close> (\<open>server.c\<close>): the fourteen hash table types of the server. Their functions keep lengths in an \<open>int\<close> and
    fault on a negative one; the byte-wise types are interpretations of \<open>hash_type\<close>.
  \<^item> \<open>Intset\<close> (\<open>intset.c\<close>): sorted integers in a byte buffer of 16, 32 or 64 bits per element, widened in place.
  \<^item> \<open>Set_Type\<close> (\<open>t_set.c\<close>, \<open>object.c\<close>): sets of strings in both encodings with the conversion between them, and the loops of SADD and SREM. The
    locale \<open>string_set\<close> is the contract between the set type and the commands.
  \<^item> \<open>Skiplist\<close>, \<open>Skiplist_Refine\<close>, \<open>Skiplist_Delete\<close>, \<open>Skiplist_Props\<close> (\<open>t_zset.c\<close>): the skip list of sorted
    sets, refined to a sorted list of pairs: forward and backward pointers, spans, ranks, score and lexicographic ranges.
  \<^item> \<open>Adlist\<close> (\<open>adlist.c\<close>): doubly linked lists with iterators.
  \<^item> \<open>Crc\<close> (\<open>crc16.c\<close>, \<open>crc64.c\<close>, \<open>keyHashSlot\<close> of \<open>cluster.c\<close>): the table-driven checksums are bitwise
    polynomial divisions; the slot of a key is the checksum of its hash tag.
  \<^item> \<open>Lzf\<close> (\<open>lzf_c.c\<close>, \<open>lzf_d.c\<close>): the compressed format as an inductive relation; the compressor writes
    members of it and the decompressor computes it, hence the round trip; the decompressor is memory-safe on corrupted input.
  \<^item> \<open>Rio\<close> (\<open>rio.h\<close>, \<open>rio.c\<close>, \<open>endianconv.c\<close>): memory streams with chunks and checksum, byte order.
  \<^item> \<open>Rdb_String\<close> (\<open>rdb.c\<close>): lengths and strings of dump files, saved as integers, compressed or verbatim, and
    their round trip. It composes \<open>Rio\<close>, \<open>Crc\<close>, \<open>Lzf\<close>, \<open>Util\<close> and \<open>Sds_Num\<close>.

  \<^bold>\<open>Bounds and termination.\<close> A loop over a buffer is a total function with a measure, or recursion on the number of
  rounds that the code itself counts, so there is no fuel to choose. A loop whose end depends on pointers in a heap, on random numbers or on the clock is a partial function in the option
  type, where not returning is \<^term>\<open>None\<close>. That it returns is then part of its theorem: the invariant makes the lists of nodes finite, and the hypothesis
  on random numbers is that one of them leads out of the loop, or that each value of \<open>random\<close> comes again and again. Size limits in the hypotheses are those at which the code itself
  overflows: the 32-bit blob size of an integer set, the \<open>int\<close> in comparisons of strings and in \<open>rdbWriteRaw\<close>, the
  \<open>unsigned int\<close> lengths of LZF, and 63 bits for positions.

  \<^bold>\<open>Not modelled.\<close>
  \<^item> Event loop, sockets, clients, replication, cluster bus, sentinel, append-only file and file streams: their behaviour is that of system
    calls and timers.
  \<^item> Command dispatch, key space, expiry, eviction, transactions, publish/subscribe: they act on the global server state and on
    clients. The containers they use are modelled.
  \<^item> Lua scripting, modules, and the bundled libraries: bindings to code outside of the server.
  \<^item> Floating-point conversions (\<open>util.c\<close>, \<open>rdb.c\<close>, geographic commands, HyperLogLog) and the printf-like functions of
    \<open>sds.c\<close>: they are defined by the C library's formatting of numbers. Scores of the skip list are an ordered type instead.
  \<^item> The compact encodings (\<open>ziplist.c\<close>, \<open>quicklist.c\<close>, \<open>zipmap.c\<close>) and the radix tree (\<open>rax.c\<close>): byte-level
    containers of the size of the ones above, which need developments of their own. With them the list, hash and small sorted set types are left out.
  \<^item> Reference counts, allocation failure (the allocator ends the process, except where the linked lists test for it) and memory accounting.
\<close>

end
